(* ===== verification/Prelude.thy ===== *)
theory Prelude
  imports Main "HOL-Library.Word"
begin

section \<open>Shared vocabulary: bytes, faults, Go slices and big-endian words\<close>

text \<open>
  The types and generic operations every component of the relay uses, with the lemmas about
  them that carry the component proofs: Go's \<open>copy\<close> and slicing, \<open>encoding/binary\<close>'s
  big-endian 32-bit words, the faults (panics) a Go operation can end in, and facts about sums
  over lists that are updated at one index.
\<close>

unbundle bit_operations_syntax

named_theorems fault_simps \<open>unfolding the sequencing of operations that can panic\<close>
named_theorems wire_simps \<open>positions and lengths in the wire and memory layouts\<close>

type_synonym byte = "8 word"
type_synonym bytes = "8 word list"
type_synonym u32 = "32 word"
type_synonym u64 = "64 word"

text \<open>
  A \<open>[32]byte\<close> array (a public key, an id) is a list of bytes; \<open>is_key\<close> is the length the Go
  type guarantees.
\<close>

type_synonym pubkey = "8 word list"

definition is_key :: "pubkey \<Rightarrow> bool" where
  "is_key k \<longleftrightarrow> length k = 32"

definition zero_key :: pubkey where
  "zero_key = replicate 32 0"

lemma is_key_zero [simp]: "is_key zero_key"
  by (simp add: is_key_def zero_key_def)

subsection \<open>Faults\<close>

text \<open>
  The ways an operation of the source can end without returning: the explicit panics of
  \<open>internal/mem\<close> and \<open>internal/server\<close>, the run-time panics of Go, and \<open>free\<close> of a block that is not allocated,
  which C leaves undefined.
\<close>

datatype fault =
    DoubleFree
  | OutOfMemory
  | NilDeref
  | IndexOutOfRange
  | CloseOfClosedChan
  | SendOnClosedChan
  | DivideByZero
  | InvalidArgument
  | AppMustNotBeNil
  | BadFree

text \<open>
  \<open>make\<close> panics on a negative length and on one for which the run time would have to allocate more than
  its limit, \<open>2 ^ 48\<close> bytes on 64-bit targets, for \<open>n\<close> elements of \<open>sz\<close> bytes and a header.
\<close>

definition max_alloc :: int where
  "max_alloc = 2 ^ 48"

definition makes :: "int \<Rightarrow> int \<Rightarrow> int \<Rightarrow> bool" where
  "makes sz n header \<longleftrightarrow> 0 \<le> n \<and> sz * n + header \<le> max_alloc"

type_synonym 'a res = "fault + 'a"

definition bind_res :: "'a res \<Rightarrow> ('a \<Rightarrow> 'b res) \<Rightarrow> 'b res" where
  "bind_res r f = (case r of Inl e \<Rightarrow> Inl e | Inr x \<Rightarrow> f x)"

lemma bind_res_Inl [simp]: "bind_res (Inl e) f = Inl e"
  by (simp add: bind_res_def)

lemma bind_res_Inr [simp]: "bind_res (Inr x) f = f x"
  by (simp add: bind_res_def)

lemma bind_res_eq_Inr [fault_simps]:
  "bind_res r f = Inr y \<longleftrightarrow> (\<exists>x. r = Inr x \<and> f x = Inr y)"
  by (cases r) auto

lemma bind_res_eq_Inl [fault_simps]:
  "bind_res r f = Inl e \<longleftrightarrow> r = Inl e \<or> (\<exists>x. r = Inr x \<and> f x = Inl e)"
  by (cases r) auto

lemma bind_res_assoc: "bind_res (bind_res r f) g = bind_res r (\<lambda>x. bind_res (f x) g)"
  by (cases r) auto

definition faulty :: "'a res \<Rightarrow> bool" where
  "faulty r \<longleftrightarrow> (case r of Inl _ \<Rightarrow> True | Inr _ \<Rightarrow> False)"

lemma faulty_simps [simp]: "faulty (Inl e)" "\<not> faulty (Inr x)"
  by (simp_all add: faulty_def)

lemma not_faulty_iff: "\<not> faulty r \<longleftrightarrow> (\<exists>x. r = Inr x)"
  by (cases r) auto

subsection \<open>Go slices\<close>

text \<open>
  \<open>go_copy dst src\<close> is the contents of \<open>dst\<close> after \<open>copy(dst, src)\<close>: as many elements as the
  shorter of the two holds. \<open>go_slice lo hi xs\<close> is \<open>xs[lo:hi]\<close>, which panics when the bounds are
  not ordered or leave the slice.
\<close>

definition go_copy :: "'a list \<Rightarrow> 'a list \<Rightarrow> 'a list" where
  "go_copy dst src = take (length dst) src @ drop (length src) dst"

definition go_slice :: "nat \<Rightarrow> nat \<Rightarrow> 'a list \<Rightarrow> 'a list res" where
  "go_slice lo hi xs =
     (if lo \<le> hi \<and> hi \<le> length xs then Inr (take (hi - lo) (drop lo xs)) else Inl IndexOutOfRange)"

text \<open>\<open>go_store lo xs ys\<close> is the slice \<open>ys\<close> after \<open>copy(ys[lo:], xs)\<close> for an \<open>xs\<close> that fits.\<close>

definition go_store :: "nat \<Rightarrow> 'a list \<Rightarrow> 'a list \<Rightarrow> 'a list" where
  "go_store lo xs ys = take lo ys @ go_copy (drop lo ys) xs"

text \<open>\<open>xs[i]\<close> for a Go \<open>int\<close> index.\<close>

definition go_index :: "int \<Rightarrow> 'a list \<Rightarrow> 'a res" where
  "go_index i xs = (if 0 \<le> i \<and> i < int (length xs) then Inr (xs ! nat i) else Inl IndexOutOfRange)"

lemma go_index_ok [simp]: "0 \<le> i \<Longrightarrow> i < int (length xs) \<Longrightarrow> go_index i xs = Inr (xs ! nat i)"
  by (simp add: go_index_def)

lemma length_go_copy [simp]: "length (go_copy dst src) = length dst"
  by (simp add: go_copy_def)

lemma go_copy_exact [simp]: "length src = length dst \<Longrightarrow> go_copy dst src = src"
  by (simp add: go_copy_def)

lemma length_go_store [simp]: "length (go_store lo xs ys) = length ys"
  by (simp add: go_store_def)

lemma go_slice_ok [simp]:
  "lo \<le> hi \<Longrightarrow> hi \<le> length xs \<Longrightarrow> go_slice lo hi xs = Inr (take (hi - lo) (drop lo xs))"
  by (simp add: go_slice_def)

lemma go_store_append:
  "length a = lo \<Longrightarrow> length b = length xs \<Longrightarrow> go_store lo xs (a @ b @ c) = a @ xs @ c"
  by (simp add: go_store_def go_copy_def)

subsection \<open>encoding/binary, big endian\<close>

fun be_uint32 :: "bytes \<Rightarrow> u32 res" where
  "be_uint32 (b0 # b1 # b2 # b3 # _) =
     Inr (ucast b3 OR push_bit 8 (ucast b2) OR push_bit 16 (ucast b1) OR push_bit 24 (ucast b0))"
| "be_uint32 _ = Inl IndexOutOfRange"

definition be_put_uint32 :: "u32 \<Rightarrow> bytes" where
  "be_put_uint32 v =
     [ucast (drop_bit 24 v), ucast (drop_bit 16 v), ucast (drop_bit 8 v), ucast v]"

lemma length_be_put_uint32 [simp]: "length (be_put_uint32 v) = 4"
  by (simp add: be_put_uint32_def)

lemma be_uint32_of_put: "be_uint32 (be_put_uint32 v) = Inr v"
proof -
  have "ucast (ucast v :: byte) OR push_bit 8 (ucast (ucast (drop_bit 8 v) :: byte)) OR
        push_bit 16 (ucast (ucast (drop_bit 16 v) :: byte)) OR
        push_bit 24 (ucast (ucast (drop_bit 24 v) :: byte)) = (v :: u32)"
  proof (rule bit_word_eqI)
    fix n assume "n < LENGTH(32)"
    then consider "n < 8" | "8 \<le> n \<and> n < 16" | "16 \<le> n \<and> n < 24" | "24 \<le> n \<and> n < 32"
      by fastforce
    then show "bit (ucast (ucast v :: byte) OR push_bit 8 (ucast (ucast (drop_bit 8 v) :: byte)) OR
        push_bit 16 (ucast (ucast (drop_bit 16 v) :: byte)) OR
        push_bit 24 (ucast (ucast (drop_bit 24 v) :: byte)) :: u32) n = bit v n"
      by cases (auto simp: bit_simps)
  qed
  then show ?thesis by (simp add: be_put_uint32_def)
qed

lemma be_uint32_put_append [simp]: "be_uint32 (be_put_uint32 v @ xs) = Inr v"
  using be_uint32_of_put [of v] by (simp add: be_put_uint32_def)

lemma be_uint32_put [simp]: "be_uint32 (be_put_uint32 v) = Inr v"
  by (rule be_uint32_of_put)

lemma be_put_of_uint32:
  assumes "length bs = 4" and "be_uint32 bs = Inr v"
  shows "be_put_uint32 v = bs"
proof -
  obtain b0 b1 b2 b3 where bs: "bs = [b0, b1, b2, b3]"
    using assms(1) by (auto simp: length_Suc_conv numeral_eq_Suc)
  define w :: u32 where
    "w = ucast b3 OR push_bit 8 (ucast b2) OR push_bit 16 (ucast b1) OR push_bit 24 (ucast b0)"
  have "ucast (drop_bit 24 w) = b0" "ucast (drop_bit 16 w) = b1"
    "ucast (drop_bit 8 w) = b2" "ucast w = b3"
    by (rule bit_word_eqI, auto simp: w_def bit_simps dest: bit_imp_le_length)+
  moreover have "v = w" using assms(2) bs by (simp add: w_def)
  ultimately show ?thesis using bs by (simp add: be_put_uint32_def)
qed

lemma be_uint32_total: "length bs = 4 \<Longrightarrow> \<exists>v. be_uint32 bs = Inr v"
  by (auto simp: length_Suc_conv numeral_eq_Suc)

subsection \<open>Sums over a list updated at one index\<close>

lemma sum_list_map_update:
  fixes f :: "'a \<Rightarrow> nat"
  assumes "i < length xs"
  shows "sum_list (map f (xs[i := x])) + f (xs ! i) = sum_list (map f xs) + f x"
  using assms
proof (induction xs arbitrary: i)
  case (Cons y ys)
  then show ?case by (cases i) (auto simp: add_ac)
qed simp

lemma sum_list_map_ge:
  fixes f :: "'a \<Rightarrow> nat"
  shows "i < length xs \<Longrightarrow> f (xs ! i) \<le> sum_list (map f xs)"
  by (simp add: member_le_sum_list)

lemma sum_list_map_0 [simp]:
  fixes f :: "'a \<Rightarrow> nat"
  shows "sum_list (map f xs) = 0 \<longleftrightarrow> (\<forall>x \<in> set xs. f x = 0)"
  by (induction xs) auto

subsection \<open>Words as bounded counters\<close>

lemma sint_add_one:
  fixes w :: "'a :: len word"
  assumes "1 < LENGTH('a)" and "sint w < 2 ^ (LENGTH('a) - 1) - 1"
  shows "sint (w + 1) = sint w + 1"
proof -
  have "sint (1 :: 'a word) = 1" using assms(1) by simp
  then show ?thesis
    using assms(2) sint_ge [of w]
    by (simp add: sint_word_add signed_take_bit_int_eq_self)
qed

lemma sint_sub_one:
  fixes w :: "'a :: len word"
  assumes "1 < LENGTH('a)" and "- (2 ^ (LENGTH('a) - 1)) < sint w"
  shows "sint (w - 1) = sint w - 1"
proof -
  have "sint (1 :: 'a word) = 1" using assms(1) by simp
  then show ?thesis
    using assms(2) sint_lt [of w]
    by (simp add: sint_word_ariths signed_take_bit_int_eq_self)
qed

lemma sint_32_add_one: "sint (w :: u32) < 2147483647 \<Longrightarrow> sint (w + 1) = sint w + 1"
  by (rule sint_add_one) simp_all

lemma sint_32_sub_one: "- 2147483648 < sint (w :: u32) \<Longrightarrow> sint (w - 1) = sint w - 1"
  by (rule sint_sub_one) simp_all

subsection \<open>Fixed-size chunks of a byte list\<close>

definition chunks :: "nat \<Rightarrow> nat \<Rightarrow> 'a list \<Rightarrow> 'a list list" where
  "chunks k n xs = map (\<lambda>i. take k (drop (i * k) xs)) [0..<n]"

lemma length_chunks [simp]: "length (chunks k n xs) = n"
  by (simp add: chunks_def)

lemma nth_chunks [simp]: "i < n \<Longrightarrow> chunks k n xs ! i = take k (drop (i * k) xs)"
  by (simp add: chunks_def)

lemma chunks_Suc: "chunks k (Suc n) xs = take k xs # chunks k n (drop k xs)"
  by (rule nth_equalityI) (auto simp: nth_Cons add.commute split: nat.split)

lemma concat_chunks: "length xs = n * k \<Longrightarrow> concat (chunks k n xs) = xs"
proof (induction n arbitrary: xs)
  case (Suc n)
  then show ?case by (simp add: chunks_Suc)
qed (simp add: chunks_def)

lemma chunks_concat:
  "\<forall>x \<in> set xs. length x = k \<Longrightarrow> n = length xs \<Longrightarrow> chunks k n (concat xs @ ys) = xs"
  by (induction xs arbitrary: n) (auto simp: chunks_Suc, simp add: chunks_def)

lemma length_in_chunks: "length xs = n * k \<Longrightarrow> x \<in> set (chunks k n xs) \<Longrightarrow> length x = k"
proof -
  assume "length xs = n * k" "x \<in> set (chunks k n xs)"
  then obtain i where "i < n" "x = take k (drop (i * k) xs)" by (auto simp: chunks_def)
  moreover from \<open>i < n\<close> have "i * k + k \<le> n * k"
    by (metis Suc_leI add.commute mult_Suc mult_le_mono1)
  ultimately show ?thesis using \<open>length xs = n * k\<close> by simp
qed

lemma length_concat_const: "\<forall>x \<in> set xs. length x = k \<Longrightarrow> length (concat xs) = length xs * k"
  by (induction xs) auto

lemma take_drop_concat:
  assumes "\<forall>x \<in> set xs. length x = k" and "i < length xs"
  shows "take k (drop (i * k) (concat xs @ ys)) = xs ! i"
  using arg_cong [OF chunks_concat [OF assms(1) refl], of "\<lambda>zs. zs ! i" ys] assms(2) by simp

subsection \<open>Unsigned counters that do not wrap\<close>

lemma unat_add_one:
  fixes w :: "'a :: len word"
  assumes "unat w + 1 < 2 ^ LENGTH('a)"
  shows "unat (w + 1) = unat w + 1"
proof -
  have "1 < (2 :: nat) ^ LENGTH('a)" using assms by simp
  then have "unat (1 :: 'a word) = 1" by simp
  then show ?thesis using assms by (simp add: unat_word_ariths(1))
qed

lemma sint_eq_uint_small:
  fixes w :: "'a :: len word"
  shows "uint w < 2 ^ (LENGTH('a) - 1) \<Longrightarrow> sint w = uint w"
  unfolding sint_uint
  by (rule signed_take_bit_int_eq_self) (rule order_trans [OF _ uint_ge_0], simp_all)

lemma sint_pos_small:
  fixes w :: "'a :: len word"
  assumes "0 < unat w" and "unat w < 2 ^ (LENGTH('a) - 1)"
  shows "sint w = int (unat w)"
proof -
  have "uint w < 2 ^ (LENGTH('a) - 1)"
    using assms(2) unfolding unat_eq_nat_uint by (metis nat_less_iff of_nat_numeral of_nat_power uint_ge_0)
  from sint_eq_uint_small [OF this] show ?thesis by simp
qed

end
