(* ===== verification/Mem_Buffer.thy ===== *)
theory Mem_Buffer
  imports Prelude
begin

section \<open>internal/mem: reference-counted buffers\<close>

text \<open>
  \<open>mem.Buffer\<close> on both of its build targets. A \<open>*Buffer\<close> is an address; \<open>mem\<close> is the memory of
  the process as far as buffers go: the \<open>Buffer\<close> objects and, for the jemalloc target, the blocks
  \<open>C.malloc\<close> has handed out and \<open>C.free\<close> has not taken back. Go integers that count references keep
  their width (\<open>atomic.Int32\<close> is a 32-bit word read by \<open>sint\<close>), so that wrap-around is part of the
  model. \<open>C.malloc\<close> is not part of the repository: it is the argument \<open>malloc\<close>, which may fail and
  otherwise yields a block and its uninitialised contents. The length asked for is a \<open>nat\<close>: every caller
  adds up lengths.
\<close>

type_synonym baddr = nat
type_synonym cptr = nat

record buffer =
  bdata :: bytes
  bptr :: "cptr option"
  brefs :: u32

datatype build_target = LinuxCgo | OtherTarget

record mem =
  goos :: build_target
  bufs :: "baddr \<rightharpoonup> buffer"
  next_buf :: baddr
  blocks :: "cptr list"

type_synonym malloc = "mem \<Rightarrow> nat \<Rightarrow> (cptr \<times> bytes) option"

text \<open>What the code relies on of \<open>C.malloc\<close>: a block it returns is not one that is still in use.\<close>

definition malloc_ok :: "malloc \<Rightarrow> bool" where
  "malloc_ok malloc \<longleftrightarrow>
     (\<forall>m n p junk. malloc m n = Some (p, junk) \<longrightarrow> p \<notin> set (blocks m) \<and> length junk = n)"

definition empty_mem :: "build_target \<Rightarrow> mem" where
  "empty_mem t = \<lparr>goos = t, bufs = Map.empty, next_buf = 0, blocks = []\<rparr>"

subsection \<open>Operations\<close>

text \<open>A \<open>&Buffer{}\<close> whose count is set to one, at a fresh address.\<close>

definition put_buffer :: "bytes \<Rightarrow> cptr option \<Rightarrow> mem \<Rightarrow> baddr \<times> mem" where
  "put_buffer d p m =
     (next_buf m,
      m\<lparr>bufs := (bufs m)(next_buf m \<mapsto> \<lparr>bdata = d, bptr = p, brefs = 1\<rparr>),
        next_buf := Suc (next_buf m)\<rparr>)"

definition NewBuffer_linux :: "malloc \<Rightarrow> nat \<Rightarrow> mem \<Rightarrow> (baddr \<times> mem) res" where
  "NewBuffer_linux malloc n m =
     (if n = 0 then Inr (put_buffer [] None m)
      else case malloc m n of
        None \<Rightarrow> Inl OutOfMemory
      | Some (p, junk) \<Rightarrow> Inr (put_buffer junk (Some p) (m\<lparr>blocks := p # blocks m\<rparr>)))"

definition NewBuffer_other :: "nat \<Rightarrow> mem \<Rightarrow> (baddr \<times> mem) res" where
  "NewBuffer_other n m =
     (if makes 1 (int n) 0 then Inr (put_buffer (replicate n 0) None m) else Inl InvalidArgument)"

definition NewBuffer :: "malloc \<Rightarrow> nat \<Rightarrow> mem \<Rightarrow> (baddr \<times> mem) res" where
  "NewBuffer malloc n m =
     (case goos m of LinuxCgo \<Rightarrow> NewBuffer_linux malloc n m | OtherTarget \<Rightarrow> NewBuffer_other n m)"

definition Bytes :: "baddr \<Rightarrow> mem \<Rightarrow> bytes res" where
  "Bytes b m = (case bufs m b of None \<Rightarrow> Inl NilDeref | Some B \<Rightarrow> Inr (bdata B))"

definition Len :: "baddr \<Rightarrow> mem \<Rightarrow> nat res" where
  "Len b m = (case bufs m b of None \<Rightarrow> Inl NilDeref | Some B \<Rightarrow> Inr (length (bdata B)))"

text \<open>Writing through the slice \<open>Bytes\<close> returns changes the buffer's backing store in place.\<close>

definition write_bytes :: "baddr \<Rightarrow> bytes \<Rightarrow> mem \<Rightarrow> mem" where
  "write_bytes b d m =
     (case bufs m b of None \<Rightarrow> m | Some B \<Rightarrow> m\<lparr>bufs := (bufs m)(b \<mapsto> B\<lparr>bdata := d\<rparr>)\<rparr>)"

definition Retain :: "baddr \<Rightarrow> mem \<Rightarrow> mem res" where
  "Retain b m =
     (case bufs m b of
        None \<Rightarrow> Inl NilDeref
      | Some B \<Rightarrow> Inr (m\<lparr>bufs := (bufs m)(b \<mapsto> B\<lparr>brefs := brefs B + 1\<rparr>)\<rparr>))"

definition Release_linux :: "baddr \<Rightarrow> mem \<Rightarrow> mem res" where
  "Release_linux b m =
     (case bufs m b of
        None \<Rightarrow> Inl NilDeref
      | Some B \<Rightarrow>
          (let n = brefs B - 1; B' = B\<lparr>brefs := n\<rparr> in
           if sint n < 0 then Inl DoubleFree
           else if n = 0 then
             (case bptr B of
                Some p \<Rightarrow>
                  (if p \<in> set (blocks m)
                   then Inr (m\<lparr>bufs := (bufs m)(b \<mapsto> B'\<lparr>bptr := None, bdata := []\<rparr>),
                               blocks := remove1 p (blocks m)\<rparr>)
                   else Inl BadFree)
              | None \<Rightarrow> Inr (m\<lparr>bufs := (bufs m)(b \<mapsto> B')\<rparr>))
           else Inr (m\<lparr>bufs := (bufs m)(b \<mapsto> B')\<rparr>)))"

definition Release_other :: "baddr \<Rightarrow> mem \<Rightarrow> mem res" where
  "Release_other b m =
     (case bufs m b of
        None \<Rightarrow> Inl NilDeref
      | Some B \<Rightarrow>
          (let n = brefs B - 1; B' = B\<lparr>brefs := n\<rparr> in
           if sint n < 0 then Inl DoubleFree
           else if n = 0 then Inr (m\<lparr>bufs := (bufs m)(b \<mapsto> B'\<lparr>bdata := []\<rparr>)\<rparr>)
           else Inr (m\<lparr>bufs := (bufs m)(b \<mapsto> B')\<rparr>)))"

definition Release :: "baddr \<Rightarrow> mem \<Rightarrow> mem res" where
  "Release b m =
     (case goos m of LinuxCgo \<Rightarrow> Release_linux b m | OtherTarget \<Rightarrow> Release_other b m)"

text \<open>A program that retains and releases one buffer, in the order the list gives.\<close>

datatype refop = OpRetain | OpRelease

fun run_refops :: "baddr \<Rightarrow> refop list \<Rightarrow> mem \<Rightarrow> mem res" where
  "run_refops b [] m = Inr m"
| "run_refops b (OpRetain # ops) m = bind_res (Retain b m) (run_refops b ops)"
| "run_refops b (OpRelease # ops) m = bind_res (Release b m) (run_refops b ops)"

text \<open>
  What reference counting promises, without memory: a number of owners. A released object is
  gone (no operation is defined on it), and the counter is a signed 32-bit integer.
\<close>

fun count_refops :: "int \<Rightarrow> refop list \<Rightarrow> int option" where
  "count_refops n [] = Some n"
| "count_refops n (OpRetain # ops) =
     (if 0 < n \<and> n < 2147483647 then count_refops (n + 1) ops else None)"
| "count_refops n (OpRelease # ops) = (if 0 < n then count_refops (n - 1) ops else None)"

subsection \<open>Views and the memory invariant\<close>

definition refs_of :: "mem \<Rightarrow> baddr \<Rightarrow> int option" where
  "refs_of m b = map_option (\<lambda>B. sint (brefs B)) (bufs m b)"

definition content_of :: "mem \<Rightarrow> baddr \<Rightarrow> bytes option" where
  "content_of m b = map_option bdata (bufs m b)"

text \<open>
  Counts are never negative, a buffer whose count is zero holds nothing (nor does, on the jemalloc
  target, one without a block), and the allocated blocks are exactly those one buffer owns, each owned once: nothing leaks and nothing is freed twice.
\<close>

definition mem_ok :: "mem \<Rightarrow> bool" where
  "mem_ok m \<longleftrightarrow>
     (\<forall>b B. bufs m b = Some B \<longrightarrow>
        b < next_buf m \<and> 0 \<le> sint (brefs B) \<and>
        (brefs B = 0 \<longrightarrow> bptr B = None \<and> bdata B = []) \<and>
        (goos m = LinuxCgo \<longrightarrow> bptr B = None \<longrightarrow> bdata B = []) \<and>
        (\<forall>p. bptr B = Some p \<longrightarrow> p \<in> set (blocks m) \<and> goos m = LinuxCgo)) \<and>
     (\<forall>b b' B B' p. bufs m b = Some B \<longrightarrow> bufs m b' = Some B' \<longrightarrow>
        bptr B = Some p \<longrightarrow> bptr B' = Some p \<longrightarrow> b = b') \<and>
     distinct (blocks m) \<and>
     (\<forall>p \<in> set (blocks m). \<exists>b B. bufs m b = Some B \<and> bptr B = Some p)"

lemma mem_okI:
  assumes "\<And>b B. bufs m b = Some B \<Longrightarrow> b < next_buf m"
    and "\<And>b B. bufs m b = Some B \<Longrightarrow> 0 \<le> sint (brefs B)"
    and "\<And>b B. bufs m b = Some B \<Longrightarrow> brefs B = 0 \<Longrightarrow> bptr B = None \<and> bdata B = []"
    and "\<And>b B p. bufs m b = Some B \<Longrightarrow> bptr B = Some p \<Longrightarrow> p \<in> set (blocks m) \<and> goos m = LinuxCgo"
    and "\<And>b b' B B' p. bufs m b = Some B \<Longrightarrow> bufs m b' = Some B' \<Longrightarrow>
        bptr B = Some p \<Longrightarrow> bptr B' = Some p \<Longrightarrow> b = b'"
    and "distinct (blocks m)"
    and "\<And>p. p \<in> set (blocks m) \<Longrightarrow> \<exists>b B. bufs m b = Some B \<and> bptr B = Some p"
    and "\<And>b B. bufs m b = Some B \<Longrightarrow> goos m = LinuxCgo \<Longrightarrow> bptr B = None \<Longrightarrow> bdata B = []"
  shows "mem_ok m"
  unfolding mem_ok_def using assms by blast

lemma mem_okD:
  assumes "mem_ok m"
  shows "bufs m b = Some B \<Longrightarrow> b < next_buf m"
    and "bufs m b = Some B \<Longrightarrow> 0 \<le> sint (brefs B)"
    and "bufs m b = Some B \<Longrightarrow> brefs B = 0 \<Longrightarrow> bptr B = None \<and> bdata B = []"
    and "bufs m b = Some B \<Longrightarrow> bptr B = Some p \<Longrightarrow> p \<in> set (blocks m) \<and> goos m = LinuxCgo"
    and "bufs m b = Some B \<Longrightarrow> bufs m b' = Some B' \<Longrightarrow> bptr B = Some p \<Longrightarrow> bptr B' = Some p \<Longrightarrow> b = b'"
    and "distinct (blocks m)"
    and "p \<in> set (blocks m) \<Longrightarrow> \<exists>b B. bufs m b = Some B \<and> bptr B = Some p"
    and "bufs m b = Some B \<Longrightarrow> goos m = LinuxCgo \<Longrightarrow> bptr B = None \<Longrightarrow> bdata B = []"
  using assms unfolding mem_ok_def by blast+

lemma mem_ok_empty [simp]: "mem_ok (empty_mem t)"
  by (simp add: mem_ok_def empty_mem_def)

lemma refs_of_fresh: "mem_ok m \<Longrightarrow> refs_of m (next_buf m) = None"
  using mem_okD(1) [of m "next_buf m"] by (cases "bufs m (next_buf m)") (auto simp: refs_of_def)

lemma refs_of_nonneg: "mem_ok m \<Longrightarrow> refs_of m b = Some n \<Longrightarrow> 0 \<le> n"
  using mem_okD(2) by (auto simp: refs_of_def)

lemma sint_0_iff: "sint (w :: u32) = 0 \<longleftrightarrow> w = 0"
  using signed_word_eqI [of w 0] by auto

lemma content_of_freed: "mem_ok m \<Longrightarrow> refs_of m b = Some 0 \<Longrightarrow> content_of m b = Some []"
  using mem_okD(3) by (fastforce simp: refs_of_def content_of_def sint_0_iff)

subsection \<open>Allocation\<close>

lemma put_buffer_mem_ok:
  assumes ok: "mem_ok m"
    and p: "\<And>q. p = Some q \<Longrightarrow> q \<notin> set (blocks m) \<and> goos m = LinuxCgo"
    and d: "goos m = LinuxCgo \<Longrightarrow> p = None \<Longrightarrow> d = []"
  shows "mem_ok (snd (put_buffer d p (m\<lparr>blocks := (case p of None \<Rightarrow> blocks m | Some q \<Rightarrow> q # blocks m)\<rparr>)))"
proof (rule mem_okI, goal_cases)
  case (1 b B) then show ?case using mem_okD(1) [OF ok]
    by (fastforce simp: put_buffer_def split: if_splits)
next
  case (2 b B) then show ?case using mem_okD(2) [OF ok]
    by (auto simp: put_buffer_def split: if_splits)
next
  case (3 b B) then show ?case using mem_okD(3) [OF ok]
    by (auto simp: put_buffer_def split: if_splits)
next
  case (4 b B q) then show ?case using mem_okD(4) [OF ok] p
    by (fastforce simp: put_buffer_def split: if_splits option.splits)
next
  case (5 b b' B B' q) then show ?case using mem_okD(4,5) [OF ok] p
    by (fastforce simp: put_buffer_def split: if_splits)
next
  case 6 then show ?case using mem_okD(6) [OF ok] p
    by (auto simp: put_buffer_def split: option.splits)
next
  case (7 q)
  show ?case
  proof (cases "p = Some q")
    case True
    then show ?thesis by (auto simp: put_buffer_def)
  next
    case False
    with 7 have "q \<in> set (blocks m)" by (auto simp: put_buffer_def split: option.splits)
    with mem_okD(7) [OF ok] obtain b B where "bufs m b = Some B" "bptr B = Some q" by blast
    moreover from this mem_okD(1) [OF ok] have "b \<noteq> next_buf m" by blast
    ultimately show ?thesis by (auto simp: put_buffer_def)
  qed
next
  case (8 b B) then show ?case using mem_okD(8) [OF ok] d
    by (auto simp: put_buffer_def split: if_splits)
qed

lemma NewBuffer_cases:
  assumes "NewBuffer malloc n m = Inr (b, m')"
  obtains d p where "(b, m') = put_buffer d p (m\<lparr>blocks := (case p of None \<Rightarrow> blocks m | Some q \<Rightarrow> q # blocks m)\<rparr>)"
    and "malloc_ok malloc \<Longrightarrow> length d = n"
    and "malloc_ok malloc \<Longrightarrow> (\<And>q. p = Some q \<Longrightarrow> q \<notin> set (blocks m) \<and> goos m = LinuxCgo)"
    and "goos m = LinuxCgo \<Longrightarrow> p = None \<Longrightarrow> d = []"
proof (cases "goos m")
  case OtherTarget
  with assms have "(b, m') = put_buffer (replicate n 0) None m"
    by (simp add: NewBuffer_def NewBuffer_other_def split: if_splits)
  then show thesis by (intro that [of "replicate n 0" None]) (simp_all add: OtherTarget)
next
  case LinuxCgo
  show thesis
  proof (cases "n = 0")
    case True
    with LinuxCgo assms have "(b, m') = put_buffer [] None m"
      by (simp add: NewBuffer_def NewBuffer_linux_def)
    then show thesis by (intro that [of "[]" None]) (simp_all add: True)
  next
    case False
    with LinuxCgo assms obtain p junk where malloc: "malloc m n = Some (p, junk)"
      and res: "(b, m') = put_buffer junk (Some p) (m\<lparr>blocks := p # blocks m\<rparr>)"
      by (auto simp: NewBuffer_def NewBuffer_linux_def split: option.splits)
    from malloc have "malloc_ok malloc \<Longrightarrow> p \<notin> set (blocks m) \<and> length junk = n"
      unfolding malloc_ok_def by blast
    with res LinuxCgo show thesis by (intro that [of junk "Some p"]) auto
  qed
qed

lemma NewBuffer_ok:
  assumes new: "NewBuffer malloc n m = Inr (b, m')" and ok: "mem_ok m" and mal: "malloc_ok malloc"
  shows "b = next_buf m \<and> mem_ok m' \<and> refs_of m' = (refs_of m)(b \<mapsto> 1) \<and>
    next_buf m' = Suc (next_buf m) \<and> goos m' = goos m \<and>
    (\<exists>d. length d = n \<and> content_of m' = (content_of m)(b \<mapsto> d))"
proof -
  obtain d p where eq: "(b, m') = put_buffer d p (m\<lparr>blocks := (case p of None \<Rightarrow> blocks m | Some q \<Rightarrow> q # blocks m)\<rparr>)"
    and d: "length d = n" and p: "\<And>q. p = Some q \<Longrightarrow> q \<notin> set (blocks m) \<and> goos m = LinuxCgo"
    and d0: "goos m = LinuxCgo \<Longrightarrow> p = None \<Longrightarrow> d = []"
    using NewBuffer_cases [OF new] mal by metis
  have "mem_ok m'"
    using put_buffer_mem_ok [OF ok p d0] eq by (metis snd_conv)
  with eq d show ?thesis
    by (auto simp: put_buffer_def refs_of_def content_of_def fun_eq_iff)
qed

lemma NewBuffer_refused:
  assumes "NewBuffer malloc n m = Inl e"
  shows "if goos m = LinuxCgo then e = OutOfMemory \<and> 0 < n \<and> malloc m n = None
    else e = InvalidArgument \<and> max_alloc < int n"
  using assms by (auto simp: NewBuffer_def NewBuffer_linux_def NewBuffer_other_def makes_def
      split: build_target.splits if_splits option.splits)

lemma NewBuffer_fault: "NewBuffer malloc n m = Inl e \<Longrightarrow> n \<le> 2 ^ 48 \<Longrightarrow> e = OutOfMemory \<and> malloc m n = None"
  by (drule NewBuffer_refused) (auto simp: max_alloc_def split: if_splits)

subsection \<open>Retain and Release\<close>

text \<open>Rewriting one buffer without moving its block keeps the invariant.\<close>

lemma mem_ok_update:
  assumes ok: "mem_ok m" and B: "bufs m b = Some B" and p: "bptr B' = bptr B"
    and c: "0 \<le> sint (brefs B')" "brefs B' = 0 \<Longrightarrow> bptr B = None \<and> bdata B' = []"
    and d: "bdata B = [] \<Longrightarrow> bdata B' = []"
  shows "mem_ok (m\<lparr>bufs := (bufs m)(b \<mapsto> B')\<rparr>)"
proof (rule mem_okI, goal_cases)
  case (1 a A) then show ?case using mem_okD(1) [OF ok] B by (auto split: if_splits)
next
  case (2 a A) then show ?case using mem_okD(2) [OF ok] c by (auto split: if_splits)
next
  case (3 a A) then show ?case using mem_okD(3) [OF ok] c p by (auto split: if_splits)
next
  case (4 a A q) then show ?case
    using mem_okD(4) [OF ok, of b B q] mem_okD(4) [OF ok, of a A q] B p by (auto split: if_splits)
next
  case (5 a a' A A' q)
  have old: "\<exists>X. bufs m x = Some X \<and> bptr X = Some q"
    if "bufs (m\<lparr>bufs := (bufs m)(b \<mapsto> B')\<rparr>) x = Some Y" "bptr Y = Some q" for x Y
    using that B p by (cases "x = b") auto
  obtain X X' where "bufs m a = Some X" "bptr X = Some q" "bufs m a' = Some X'" "bptr X' = Some q"
    using old [OF 5(1,3)] old [OF 5(2,4)] by blast
  then show ?case using mem_okD(5) [OF ok] by blast
next
  case 6 then show ?case using mem_okD(6) [OF ok] by simp
next
  case (7 q)
  then obtain a A where "bufs m a = Some A" "bptr A = Some q" using mem_okD(7) [OF ok, of q] by auto
  then show ?case using B p by (cases "a = b") auto
next
  case (8 a A) then show ?case using mem_okD(8) [OF ok] B p d by (auto split: if_splits)
qed

lemma Retain_ok:
  assumes ok: "mem_ok m" and refs: "refs_of m b = Some n" and n: "0 < n" "n < 2147483647"
  shows "\<exists>m'. Retain b m = Inr m' \<and> mem_ok m' \<and> refs_of m' = (refs_of m)(b \<mapsto> n + 1) \<and>
    content_of m' = content_of m \<and> next_buf m' = next_buf m \<and> goos m' = goos m"
proof -
  obtain B where B: "bufs m b = Some B" "sint (brefs B) = n"
    using refs by (auto simp: refs_of_def)
  let ?B = "B\<lparr>brefs := brefs B + 1\<rparr>" and ?m = "m\<lparr>bufs := (bufs m)(b \<mapsto> B\<lparr>brefs := brefs B + 1\<rparr>)\<rparr>"
  have cnt: "sint (brefs B + 1) = n + 1"
    using B(2) n by (simp add: sint_32_add_one)
  then have nz: "brefs B + 1 \<noteq> 0" using n(1) by (metis sint_0 add_pos_pos less_irrefl zero_less_one)
  have "mem_ok ?m"
    using cnt n nz by (intro mem_ok_update [OF ok B(1)]) simp_all
  with B cnt show ?thesis
    by (auto simp: Retain_def refs_of_def content_of_def fun_eq_iff)
qed

text \<open>The last release empties the buffer and gives its block back.\<close>

lemma mem_ok_free:
  assumes ok: "mem_ok m" and B: "bufs m b = Some B"
    and bl: "bl = (case bptr B of None \<Rightarrow> blocks m | Some p \<Rightarrow> remove1 p (blocks m))"
  shows "mem_ok (m\<lparr>bufs := (bufs m)(b \<mapsto> B\<lparr>brefs := 0, bptr := None, bdata := []\<rparr>), blocks := bl\<rparr>)"
proof (rule mem_okI, goal_cases)
  case (1 b' B') then show ?case using mem_okD(1) [OF ok] B by (auto split: if_splits)
next
  case (2 b' B') then show ?case using mem_okD(2) [OF ok] by (auto split: if_splits)
next
  case (3 b' B') then show ?case using mem_okD(3) [OF ok] by (auto split: if_splits)
next
  case (4 b' B' q)
  then have B': "bufs m b' = Some B'" "bptr B' = Some q" "b' \<noteq> b" by (auto split: if_splits)
  then have "bptr B \<noteq> Some q" using mem_okD(5) [OF ok B'(1) B] by blast
  then show ?case using mem_okD(4) [OF ok B'(1,2)] bl by (auto split: option.splits)
next
  case (5 b1 b2 B1 B2 q) then show ?case using mem_okD(5) [OF ok] by (auto split: if_splits)
next
  case 6 then show ?case using mem_okD(6) [OF ok] bl by (auto split: option.splits)
next
  case (7 q)
  then have q: "q \<in> set (blocks m)" "bptr B \<noteq> Some q"
    using bl mem_okD(6) [OF ok] by (auto split: option.splits)
  obtain b' B' where b': "bufs m b' = Some B'" "bptr B' = Some q" using mem_okD(7) [OF ok q(1)] by auto
  with q(2) B have "b' \<noteq> b" by auto
  with b' show ?case by auto
next
  case (8 b' B') then show ?case using mem_okD(8) [OF ok] by (auto split: if_splits)
qed

lemma Release_ok:
  assumes ok: "mem_ok m" and refs: "refs_of m b = Some n" and n: "0 < n"
  shows "\<exists>m'. Release b m = Inr m' \<and> mem_ok m' \<and> refs_of m' = (refs_of m)(b \<mapsto> n - 1) \<and>
    content_of m' = (if n = 1 then (content_of m)(b \<mapsto> []) else content_of m) \<and>
    next_buf m' = next_buf m \<and> goos m' = goos m"
proof -
  obtain B where B: "bufs m b = Some B" "sint (brefs B) = n"
    using refs by (auto simp: refs_of_def)
  have cnt: "sint (brefs B - 1) = n - 1"
    using B(2) n by (simp add: sint_32_sub_one)
  have z: "brefs B - 1 = 0 \<longleftrightarrow> n = 1"
    using cnt sint_0_iff [of "brefs B - 1"] by auto
  show ?thesis
  proof (cases "n = 1")
    case False
    with cnt n have pos: "0 < sint (brefs B - 1)" by simp
    then have "mem_ok (m\<lparr>bufs := (bufs m)(b \<mapsto> B\<lparr>brefs := brefs B - 1\<rparr>)\<rparr>)"
      using False z by (intro mem_ok_update [OF ok B(1)]) simp_all
    then show ?thesis
      using False z n B cnt
      by (auto simp: Release_def Release_linux_def Release_other_def Let_def refs_of_def
          content_of_def fun_eq_iff split: build_target.splits)
  next
    case True
    with z have eq: "brefs B - 1 = 0" by simp
    note free = mem_ok_free [OF ok B(1) refl]
    show ?thesis
    proof (cases "bptr B")
      case None
      then have e1: "B\<lparr>brefs := 0, bptr := None, bdata := []\<rparr> = B\<lparr>brefs := 0, bdata := []\<rparr>"
        by (cases B) simp
      have e2: "B\<lparr>brefs := 0, bdata := []\<rparr> = B\<lparr>brefs := 0\<rparr>" and d0: "bdata B = []"
        if "goos m = LinuxCgo"
        using mem_okD(8) [OF ok B(1) that None] by (cases B, simp_all)
      have free': "mem_ok (m\<lparr>bufs := (bufs m)(b \<mapsto> B\<lparr>brefs := 0, bdata := []\<rparr>)\<rparr>)"
        using free None e1 by simp
      show ?thesis
        using free' e2 d0 None eq True B
        by (cases "goos m") (auto simp: Release_def Release_linux_def Release_other_def Let_def
            refs_of_def content_of_def fun_eq_iff)
    next
      case (Some p)
      with mem_okD(4) [OF ok B(1)] have "p \<in> set (blocks m)" "goos m = LinuxCgo" by auto
      with free Some eq True B show ?thesis
        by (auto simp: Release_def Release_linux_def Let_def refs_of_def content_of_def fun_eq_iff)
    qed
  qed
qed

lemma Release_dead:
  assumes "refs_of m b = Some 0"
  shows "Release b m = Inl DoubleFree"
proof -
  obtain B where "bufs m b = Some B" "brefs B = 0"
    using assms by (auto simp: refs_of_def sint_0_iff)
  then show ?thesis
    by (simp add: Release_def Release_linux_def Release_other_def Let_def split: build_target.splits)
qed

lemma write_bytes_ok:
  assumes ok: "mem_ok m" and c: "content_of m b = Some d0" and d: "length d = length d0"
  shows "mem_ok (write_bytes b d m) \<and> refs_of (write_bytes b d m) = refs_of m \<and>
    content_of (write_bytes b d m) = (content_of m)(b \<mapsto> d) \<and>
    next_buf (write_bytes b d m) = next_buf m \<and> goos (write_bytes b d m) = goos m"
proof -
  obtain B where B: "bufs m b = Some B" "bdata B = d0"
    using c by (auto simp: content_of_def)
  have "mem_ok (m\<lparr>bufs := (bufs m)(b \<mapsto> B\<lparr>bdata := d\<rparr>)\<rparr>)"
    using mem_okD(2,3) [OF ok B(1)] B(2) d by (intro mem_ok_update [OF ok B(1)]) auto
  with B show ?thesis
    by (auto simp: write_bytes_def refs_of_def content_of_def fun_eq_iff)
qed

lemma Bytes_eq: "content_of m b = Some d \<Longrightarrow> Bytes b m = Inr d"
  by (auto simp: content_of_def Bytes_def)

subsection \<open>The ownership contract\<close>

text \<open>
  The interface the rest of the server uses a buffer through: a heap with a number of owners per
  object, an operation that adds an owner and one that removes an owner and, for the last one,
  disposes of the object.
\<close>

locale refcounted =
  fixes acquire :: "baddr \<Rightarrow> 'h \<Rightarrow> 'h res"
    and dispose :: "baddr \<Rightarrow> 'h \<Rightarrow> 'h res"
    and owners :: "'h \<Rightarrow> baddr \<Rightarrow> int option"
    and contents :: "'h \<Rightarrow> baddr \<Rightarrow> bytes option"
    and good :: "'h \<Rightarrow> bool"
  assumes acquire_law: "good h \<Longrightarrow> owners h b = Some n \<Longrightarrow> 0 < n \<Longrightarrow> n < 2147483647 \<Longrightarrow>
      \<exists>h'. acquire b h = Inr h' \<and> good h' \<and> owners h' = (owners h)(b \<mapsto> n + 1) \<and> contents h' = contents h"
    and dispose_law: "good h \<Longrightarrow> owners h b = Some n \<Longrightarrow> 0 < n \<Longrightarrow>
      \<exists>h'. dispose b h = Inr h' \<and> good h' \<and> owners h' = (owners h)(b \<mapsto> n - 1) \<and>
        contents h' = (if n = 1 then (contents h)(b \<mapsto> []) else contents h)"
    and dispose_dead: "owners h b = Some 0 \<Longrightarrow> dispose b h = Inl DoubleFree"
    and nonneg: "good h \<Longrightarrow> owners h b = Some n \<Longrightarrow> 0 \<le> n"
    and freed: "good h \<Longrightarrow> owners h b = Some 0 \<Longrightarrow> contents h b = Some []"
begin

fun run_ops :: "baddr \<Rightarrow> refop list \<Rightarrow> 'h \<Rightarrow> 'h res" where
  "run_ops b [] h = Inr h"
| "run_ops b (OpRetain # ops) h = bind_res (acquire b h) (run_ops b ops)"
| "run_ops b (OpRelease # ops) h = bind_res (dispose b h) (run_ops b ops)"

text \<open>Any sequence the abstract counter allows runs without a fault and keeps count.\<close>

lemma run_ops_refines:
  assumes "good h" and "owners h b = Some n" and "count_refops n ops = Some k"
  shows "\<exists>h'. run_ops b ops h = Inr h' \<and> good h' \<and> owners h' = (owners h)(b \<mapsto> k) \<and>
    contents h' b = (if k = 0 then Some [] else contents h b) \<and>
    (\<forall>a. a \<noteq> b \<longrightarrow> contents h' a = contents h a)"
  using assms
proof (induction ops arbitrary: h n)
  case Nil
  then show ?case using freed by auto
next
  case (Cons op ops)
  show ?case
  proof (cases op)
    case OpRetain
    with Cons.prems have n: "0 < n" "n < 2147483647" and rest: "count_refops (n + 1) ops = Some k"
      by (auto split: if_splits)
    obtain h1 where h1: "acquire b h = Inr h1" "good h1" "owners h1 = (owners h)(b \<mapsto> n + 1)"
      "contents h1 = contents h"
      using acquire_law [OF Cons.prems(1,2) n] by blast
    show ?thesis using Cons.IH [OF h1(2) _ rest] h1 OpRetain by (auto simp: fun_eq_iff)
  next
    case OpRelease
    with Cons.prems have n: "0 < n" and rest: "count_refops (n - 1) ops = Some k"
      by (auto split: if_splits)
    obtain h1 where h1: "dispose b h = Inr h1" "good h1" "owners h1 = (owners h)(b \<mapsto> n - 1)"
      "contents h1 = (if n = 1 then (contents h)(b \<mapsto> []) else contents h)"
      using dispose_law [OF Cons.prems(1,2) n] by blast
    have "n = 1 \<Longrightarrow> k = 0" using rest by (cases ops; cases "hd ops") auto
    with Cons.IH [OF h1(2) _ rest] h1 OpRelease show ?thesis by (auto simp: fun_eq_iff)
  qed
qed

text \<open>Once the count is back to zero, the next release is caught.\<close>

lemma run_ops_over_release:
  assumes "good h" and "owners h b = Some n" and "count_refops n ops = Some 0"
  shows "run_ops b (ops @ [OpRelease]) h = Inl DoubleFree"
proof -
  have app: "run_ops b (ops @ [op]) h = bind_res (run_ops b ops h) (run_ops b [op])" for op
  proof (induction ops arbitrary: h)
    case (Cons o' os)
    then have "run_ops b (os @ [op]) = (\<lambda>h. bind_res (run_ops b os h) (run_ops b [op]))" by auto
    then show ?case by (cases o') (simp_all add: bind_res_assoc)
  qed simp
  show ?thesis using run_ops_refines [OF assms] dispose_dead by (auto simp: app)
qed

end

text \<open>Both build targets keep the contract, and so does the operation the build tags select.\<close>

lemma Release_target:
  "goos m = LinuxCgo \<Longrightarrow> Release b m = Release_linux b m"
  "goos m = OtherTarget \<Longrightarrow> Release b m = Release_other b m"
  by (simp_all add: Release_def)

interpretation buf: refcounted Retain Release refs_of content_of mem_ok
proof (unfold_locales, goal_cases)
  case (1 h b n) then show ?case using Retain_ok [of h b n] by auto
next
  case (2 h b n) then show ?case using Release_ok [of h b n] by auto
next
  case (3 h b) then show ?case by (rule Release_dead)
next
  case (4 h b n) then show ?case by (rule refs_of_nonneg)
next
  case (5 h b) then show ?case by (rule content_of_freed)
qed

interpretation buf_linux: refcounted Retain Release_linux refs_of content_of
  "\<lambda>m. mem_ok m \<and> goos m = LinuxCgo"
proof (unfold_locales, goal_cases)
  case (1 h b n) then show ?case using Retain_ok [of h b n] by auto
next
  case (2 h b n) then show ?case using Release_ok [of h b n] by (auto simp: Release_target)
next
  case (3 h b) then show ?case by (auto simp: Release_linux_def refs_of_def sint_0_iff Let_def)
next
  case (4 h b n) then show ?case using refs_of_nonneg by blast
next
  case (5 h b) then show ?case using content_of_freed by blast
qed

interpretation buf_other: refcounted Retain Release_other refs_of content_of
  "\<lambda>m. mem_ok m \<and> goos m = OtherTarget"
proof (unfold_locales, goal_cases)
  case (1 h b n) then show ?case using Retain_ok [of h b n] by auto
next
  case (2 h b n) then show ?case using Release_ok [of h b n] by (auto simp: Release_target)
next
  case (3 h b) then show ?case by (auto simp: Release_other_def refs_of_def sint_0_iff Let_def)
next
  case (4 h b n) then show ?case using refs_of_nonneg by blast
next
  case (5 h b) then show ?case using content_of_freed by blast
qed

lemma run_refops_eq: "run_refops b ops m = buf.run_ops b ops m"
proof (induction ops arbitrary: m)
  case (Cons op ops)
  then have "run_refops b ops = buf.run_ops b ops" by auto
  then show ?case by (cases op) simp_all
qed simp

subsection \<open>Properties\<close>

text \<open>A memory with one buffer, held once.\<close>

definition heap_with :: "bytes \<Rightarrow> mem" where
  "heap_with d = \<lparr>goos = OtherTarget, bufs = [0 \<mapsto> \<lparr>bdata = d, bptr = None, brefs = 1\<rparr>],
     next_buf = 1, blocks = []\<rparr>"

lemma heap_with_simps [simp]:
  "mem_ok (heap_with d)" "refs_of (heap_with d) 0 = Some 1" "content_of (heap_with d) 0 = Some d"
  by (simp_all add: heap_with_def mem_ok_def refs_of_def content_of_def)

text \<open>An allocator that always finds a block: one above every block in use.\<close>

definition bump_malloc :: malloc where
  "bump_malloc m n = Some (Suc (foldr max (blocks m) 0), replicate n 0)"

lemma foldr_max_ge: "p \<in> set ps \<Longrightarrow> p \<le> foldr max ps (0 :: nat)"
  by (induction ps) auto

lemma bump_malloc_ok [simp]: "malloc_ok bump_malloc"
  using foldr_max_ge by (fastforce simp: malloc_ok_def bump_malloc_def)

text \<open>
  C19 (refinement): on either build target, every sequence of \<open>Retain\<close> and \<open>Release\<close> calls that the
  abstract owner count allows runs without a panic; afterwards the count is the abstract one, the
  contents are intact while there is an owner and gone when there is none, no other buffer changed,
  and the memory invariant (blocks allocated = blocks owned, each once) still holds.
\<close>

theorem buffer_refcount_refines:
  assumes "mem_ok m" and "refs_of m b = Some n" and "count_refops n ops = Some k"
  shows "\<exists>m'. run_refops b ops m = Inr m' \<and> mem_ok m' \<and> refs_of m' = (refs_of m)(b \<mapsto> k) \<and>
    content_of m' b = (if k = 0 then Some [] else content_of m b) \<and>
    (\<forall>a. a \<noteq> b \<longrightarrow> content_of m' a = content_of m a)"
  using buf.run_ops_refines [OF assms] by (simp add: run_refops_eq)

theorem buffer_refcount_refines_witness:
  "\<exists>m'. run_refops 0 [OpRetain, OpRelease, OpRelease] (heap_with [7, 9]) = Inr m' \<and> mem_ok m' \<and>
    refs_of m' = (refs_of (heap_with [7, 9]))(0 \<mapsto> 0) \<and>
    content_of m' 0 = (if (0 :: int) = 0 then Some [] else content_of (heap_with [7, 9]) 0) \<and>
    (\<forall>a. a \<noteq> 0 \<longrightarrow> content_of m' a = content_of (heap_with [7, 9]) a)"
  by (rule buffer_refcount_refines [where n = 1]) simp_all

text \<open>
  C34 (error): one \<open>Release\<close> more than there are references is always caught: it panics with the double
  free instead of returning, on either build target.
\<close>

theorem buffer_double_free_caught:
  assumes "mem_ok m" and "refs_of m b = Some n" and "count_refops n ops = Some 0"
  shows "run_refops b (ops @ [OpRelease]) m = Inl DoubleFree"
  using buf.run_ops_over_release [OF assms] by (simp add: run_refops_eq)

theorem buffer_double_free_caught_witness:
  "run_refops 0 ([OpRetain, OpRelease, OpRelease] @ [OpRelease]) (heap_with [7]) = Inl DoubleFree"
  by (rule buffer_double_free_caught [where n = 1]) simp_all

text \<open>
  C35 (safety): \<open>NewBuffer\<close> panics only when the C allocator refuses a block of that size or, on the
  target without it, the size is more than the run time allocates; otherwise it
  returns a fresh buffer of exactly \<open>n\<close> bytes held once; releasing that reference gives the
  memory back: the allocated blocks are the ones from before.
\<close>

theorem buffer_alloc_free:
  assumes "malloc_ok malloc" and "mem_ok m"
  shows "case NewBuffer malloc n m of
      Inl e \<Rightarrow> (if goos m = LinuxCgo then e = OutOfMemory \<and> 0 < n \<and> malloc m n = None
        else e = InvalidArgument \<and> max_alloc < int n)
    | Inr (b, m1) \<Rightarrow> refs_of m b = None \<and> refs_of m1 b = Some 1 \<and>
        (\<exists>d. content_of m1 b = Some d \<and> length d = n) \<and>
        (\<exists>m2. Release b m1 = Inr m2 \<and> mem_ok m2 \<and> set (blocks m2) = set (blocks m))"
proof (cases "NewBuffer malloc n m")
  case (Inl e)
  then show ?thesis using NewBuffer_refused [OF Inl] by simp
next
  case (Inr bm)
  obtain b m1 where bm: "bm = (b, m1)" by (cases bm)
  with Inr have run: "NewBuffer malloc n m = Inr (b, m1)" by simp
  note new = NewBuffer_ok [OF run assms(2,1)]
  then have r1: "refs_of m1 b = Some 1" and ok1: "mem_ok m1" by auto
  obtain m2 where m2: "Release b m1 = Inr m2" "mem_ok m2" using Release_ok [OF ok1 r1] by auto
  obtain d p where eq: "(b, m1) = put_buffer d p (m\<lparr>blocks := (case p of None \<Rightarrow> blocks m | Some q \<Rightarrow> q # blocks m)\<rparr>)"
    and p: "\<And>q. p = Some q \<Longrightarrow> q \<notin> set (blocks m) \<and> goos m = LinuxCgo"
    using NewBuffer_cases [OF run] assms(1) by metis
  have "bufs m1 b = Some \<lparr>bdata = d, bptr = p, brefs = 1\<rparr>" "goos m1 = goos m"
    "blocks m1 = (case p of None \<Rightarrow> blocks m | Some q \<Rightarrow> q # blocks m)"
    using eq by (auto simp: put_buffer_def)
  then have "blocks m2 = blocks m"
    using m2(1) p by (cases "goos m"; cases p)
      (auto simp: Release_def Release_linux_def Release_other_def Let_def)
  with new r1 m2 refs_of_fresh [OF assms(2)] run show ?thesis by auto
qed

theorem buffer_alloc_free_witness:
  "let r = NewBuffer bump_malloc 3 (empty_mem LinuxCgo); b = fst (projr r); m1 = snd (projr r) in
    r = Inr (b, m1) \<and> refs_of (empty_mem LinuxCgo) b = None \<and> refs_of m1 b = Some 1 \<and>
    (\<exists>d. content_of m1 b = Some d \<and> length d = 3) \<and>
    (\<exists>m2. Release b m1 = Inr m2 \<and> mem_ok m2 \<and> set (blocks m2) = set (blocks (empty_mem LinuxCgo)))"
proof -
  obtain b m1 where "NewBuffer bump_malloc 3 (empty_mem LinuxCgo) = Inr (b, m1)"
    by (simp add: NewBuffer_def NewBuffer_linux_def bump_malloc_def empty_mem_def put_buffer_def)
  with buffer_alloc_free [OF bump_malloc_ok mem_ok_empty, of LinuxCgo 3] show ?thesis by simp
qed

text \<open>
  The two build targets are interchangeable as far as reference counting goes: on
  memories whose counts agree, an operation panics on both or on neither, and leaves equal counts.
\<close>

lemma build_targets_agree:
  assumes "mem_ok m" and "mem_ok m'" and "goos m = LinuxCgo" and "goos m' = OtherTarget"
    and "refs_of m = refs_of m'"
  shows "(\<exists>e. Release b m = Inl e \<and> Release b m' = Inl e) \<or>
    (\<exists>x x'. Release b m = Inr x \<and> Release b m' = Inr x' \<and> refs_of x = refs_of x')"
proof (cases "refs_of m b")
  case None
  moreover have "refs_of m' b = None" using None assms(5) by simp
  ultimately have "bufs m b = None" "bufs m' b = None" by (simp_all add: refs_of_def)
  then show ?thesis using assms(3,4) by (simp add: Release_def Release_linux_def Release_other_def)
next
  case (Some n)
  with assms(1) have n: "0 \<le> n" by (rule refs_of_nonneg)
  show ?thesis
  proof (cases "n = 0")
    case True
    with Some assms(5) show ?thesis using Release_dead by simp
  next
    case False
    with n Some Release_ok [OF assms(1), of b n] Release_ok [OF assms(2), of b n] assms(5)
    show ?thesis by fastforce
  qed
qed

text \<open>
  \<open>Retain\<close> does not detect a buffer that was freed already: it succeeds, and brings the
  count of the dead (empty) buffer back to one. The comment on \<open>Retain\<close> promises a panic.
\<close>

theorem retain_after_free_unnoticed:
  assumes "mem_ok m" and "refs_of m b = Some 0"
  shows "\<exists>m'. Retain b m = Inr m' \<and> refs_of m' b = Some 1 \<and> content_of m' b = Some []"
proof -
  obtain B where "bufs m b = Some B" "brefs B = 0"
    using assms(2) by (auto simp: refs_of_def sint_0_iff)
  moreover from this have "bdata B = []" using mem_okD(3) [OF assms(1)] by blast
  ultimately show ?thesis by (simp add: Retain_def refs_of_def content_of_def)
qed

theorem retain_after_free_unnoticed_witness:
  "let m = projr (Release 0 (heap_with [5])) in
    \<exists>m'. Retain 0 m = Inr m' \<and> refs_of m' 0 = Some 1 \<and> content_of m' 0 = Some []"
proof -
  obtain m where m: "Release 0 (heap_with [5]) = Inr m" "mem_ok m" "refs_of m 0 = Some 0"
    using Release_ok [of "heap_with [5]" 0 1] by auto
  then show ?thesis using retain_after_free_unnoticed [of m 0] by simp
qed

end
