(* ===== verification/Core_Message.thy ===== *)
theory Core_Message
  imports Mem_Buffer
begin

section \<open>internal/core/message.go: the message view\<close>

text \<open>
  A \<open>Message\<close> is a byte slice viewed through fixed offsets: \<open>FromID(32) ToIDsLen(1) ToIDs(N*32)
  DataLen(4) Payload\<close>. The accessors guard every slice expression themselves, because the bytes come
  from the network; in the model each slice expression is \<open>go_slice\<close>, which panics out of range,
  and the lemmas show that no accessor ever does. A nil slice and an empty slice differ only for
  \<open>Payload\<close>, whose result is an \<open>option\<close>. Go's \<open>int\<close> is 64 bits wide: every offset here stays below
  \<open>2 ^ 34\<close>, so the offsets are computed on unbounded integers.
\<close>

type_synonym message = bytes

definition MaxTargetsPerMessage :: nat where
  "MaxTargetsPerMessage = 10"

definition MaxMessageSize :: nat where
  "MaxMessageSize = 512 * 1024"

definition FromID :: "message \<Rightarrow> pubkey res" where
  "FromID m =
     (if 32 \<le> length m then bind_res (go_slice 0 32 m) (\<lambda>s. Inr (go_copy zero_key s))
      else Inr zero_key)"

definition ToIDsLen :: "message \<Rightarrow> byte" where
  "ToIDsLen m = (if 32 < length m then m ! 32 else 0)"

definition ToIDAt :: "message \<Rightarrow> int \<Rightarrow> pubkey res" where
  "ToIDAt m i =
     (let n = uint (ToIDsLen m) in
      if 0 \<le> i \<and> i < n then
        (let start = 33 + i * 32 in
         if start + 32 \<le> int (length m)
         then bind_res (go_slice (nat start) (nat (start + 32)) m) (\<lambda>s. Inr (go_copy zero_key s))
         else Inr zero_key)
      else Inr zero_key)"

definition Payload :: "message \<Rightarrow> bytes option res" where
  "Payload m =
     (let n = unat (ToIDsLen m); offset = 33 + n * 32 in
      if length m < offset + 4 then Inr None
      else
        bind_res (go_slice offset (offset + 4) m) (\<lambda>s.
        bind_res (be_uint32 s) (\<lambda>v.
          let dataLen = unat v; start = offset + 4 in
          if length m < start + dataLen then Inr None
          else bind_res (go_slice start (start + dataLen) m) (\<lambda>p. Inr (Some p)))))"

text \<open>\<open>clear(m[start:end])\<close> writes through the view: the result is the new backing store.\<close>

definition ZeroToIDs :: "message \<Rightarrow> message" where
  "ZeroToIDs m =
     (let n = unat (ToIDsLen m) in
      if n = 0 then m
      else
        (let start = 33; end' = 33 + n * 32 in
         if end' \<le> length m then take start m @ replicate (end' - start) 0 @ drop end' m else m))"

text \<open>
  \<open>OutMessage\<close> is passed by value; its \<open>Buf\<close> is a pointer, nil or the address of a buffer.
\<close>

record out_message =
  RecvTime :: int
  Buf :: "baddr option"

definition Msg :: "out_message \<Rightarrow> mem \<Rightarrow> message res" where
  "Msg o' h = (case Buf o' of None \<Rightarrow> Inr [] | Some b \<Rightarrow> Bytes b h)"

subsection \<open>The layout, as a builder\<close>

text \<open>The bytes of a well-formed in-memory message, from its parts.\<close>

definition build_message :: "pubkey \<Rightarrow> pubkey list \<Rightarrow> bytes \<Rightarrow> message" where
  "build_message from tos payload =
     from @ [of_nat (length tos)] @ concat tos @
     be_put_uint32 (of_nat (length payload)) @ payload"

definition message_parts_ok :: "pubkey \<Rightarrow> pubkey list \<Rightarrow> bytes \<Rightarrow> bool" where
  "message_parts_ok from tos payload \<longleftrightarrow>
     is_key from \<and> list_all is_key tos \<and> length tos < 256 \<and> length payload < 2 ^ 32"

lemma parts_okD:
  assumes "message_parts_ok from tos payload"
  shows "length from = 32" and "\<forall>t \<in> set tos. length t = 32" and "length tos < 256"
    and "length payload < 2 ^ 32" and "length (concat tos) = length tos * 32"
  using assms length_concat_const [of tos 32]
  by (auto simp: message_parts_ok_def is_key_def list_all_iff simp del: length_concat)

lemma length_build_message:
  assumes "message_parts_ok from tos payload"
  shows "length (build_message from tos payload) = 37 + length tos * 32 + length payload"
  unfolding build_message_def
  by (simp only: length_append parts_okD(1,5) [OF assms] length_be_put_uint32) simp

subsection \<open>No accessor panics, whatever the bytes\<close>

lemma FromID_eq [wire_simps]: "FromID m = Inr (if 32 \<le> length m then take 32 m else zero_key)"
  by (simp add: FromID_def zero_key_def)

text \<open>The value \<open>ToIDAt\<close> returns, as a total function.\<close>

definition id_at :: "message \<Rightarrow> nat \<Rightarrow> pubkey" where
  "id_at m i =
     (if i < unat (ToIDsLen m) \<and> 65 + i * 32 \<le> length m then take 32 (drop (33 + i * 32) m)
      else zero_key)"

lemma int_less_uint: "0 \<le> i \<Longrightarrow> i < uint w \<longleftrightarrow> nat i < unat w"
  unfolding unat_eq_nat_uint by (rule nat_less_eq_zless [symmetric])

lemma ToIDAt_eq [wire_simps]: "ToIDAt m i = Inr (if 0 \<le> i then id_at m (nat i) else zero_key)"
proof (cases "0 \<le> i")
  case True
  have n1: "nat (33 + i * 32) = 33 + nat i * 32" and n2: "nat (65 + i * 32) = 65 + nat i * 32"
    using True by simp_all
  have le: "33 + i * 32 + 32 \<le> int (length m) \<longleftrightarrow> 65 + nat i * 32 \<le> length m"
    using True by linarith
  show ?thesis
    unfolding ToIDAt_def id_at_def Let_def
    using True by (auto simp: int_less_uint n1 n2 le zero_key_def)
qed (simp add: ToIDAt_def Let_def)

lemma is_key_id_at [simp]: "is_key (id_at m i)"
  by (auto simp: id_at_def is_key_def zero_key_def)

lemma Payload_not_faulty: "\<not> faulty (Payload m)"
proof (cases "length m < 33 + unat (ToIDsLen m) * 32 + 4")
  case False
  let ?o = "33 + unat (ToIDsLen m) * 32"
  have "length (take 4 (drop ?o m)) = 4" using False by simp
  then obtain v where "be_uint32 (take 4 (drop ?o m)) = Inr v" using be_uint32_total by blast
  with False show ?thesis by (simp add: Payload_def Let_def)
qed (simp add: Payload_def Let_def)

lemma length_ZeroToIDs [simp]: "length (ZeroToIDs m) = length m"
  by (auto simp: ZeroToIDs_def Let_def)

subsection \<open>Reading back a built message\<close>

lemma unat_of_nat_byte: "n < 256 \<Longrightarrow> unat (of_nat n :: byte) = n"
  by (simp add: unat_of_nat)

lemma unat_of_nat_u32: "n < 2 ^ 32 \<Longrightarrow> unat (of_nat n :: u32) = n"
  by (simp add: unat_of_nat)

lemma build_drop33:
  assumes "message_parts_ok from tos payload"
  shows "drop (33 + k) (build_message from tos payload) =
    drop k (concat tos @ be_put_uint32 (of_nat (length payload)) @ payload)"
  using parts_okD(1) [OF assms] by (simp add: build_message_def)

lemma ToIDsLen_build:
  assumes "message_parts_ok from tos payload"
  shows "ToIDsLen (build_message from tos payload) = of_nat (length tos)"
  using parts_okD(1) [OF assms] by (simp add: ToIDsLen_def build_message_def nth_append)

lemma unat_ToIDsLen_build:
  assumes "message_parts_ok from tos payload"
  shows "unat (ToIDsLen (build_message from tos payload)) = length tos"
  using parts_okD(3) [OF assms] by (simp add: ToIDsLen_build [OF assms] unat_of_nat_byte)

lemma FromID_build:
  assumes "message_parts_ok from tos payload"
  shows "FromID (build_message from tos payload) = Inr from"
  using parts_okD(1) [OF assms] by (simp add: FromID_eq build_message_def)

lemma id_at_build:
  assumes ok: "message_parts_ok from tos payload" and i: "i < length tos"
  shows "id_at (build_message from tos payload) i = tos ! i"
proof -
  have "65 + i * 32 \<le> length (build_message from tos payload)"
    using i by (simp add: length_build_message [OF ok])
  moreover have "take 32 (drop (33 + i * 32) (build_message from tos payload)) = tos ! i"
    unfolding build_drop33 [OF ok] by (rule take_drop_concat [OF parts_okD(2) [OF ok] i])
  ultimately show ?thesis using i by (simp add: id_at_def unat_ToIDsLen_build [OF ok])
qed

lemma Payload_build:
  assumes ok: "message_parts_ok from tos payload"
  shows "Payload (build_message from tos payload) = Inr (Some payload)"
proof -
  let ?m = "build_message from tos payload" and ?o = "33 + length tos * 32"
  let ?v = "of_nat (length payload) :: u32"
  have len: "length ?m = ?o + 4 + length payload"
    by (simp add: length_build_message [OF ok])
  have v: "unat ?v = length payload"
    using parts_okD(4) [OF ok] by (rule unat_of_nat_u32)
  have d: "drop ?o ?m = be_put_uint32 ?v @ payload"
    unfolding build_drop33 [OF ok] using parts_okD(5) [OF ok]
    by (simp only: drop_append) simp
  have d4: "drop (?o + 4) ?m = payload"
    using arg_cong [OF d, of "drop 4"] by (simp add: add.commute)
  show ?thesis
    using len v d d4 by (simp add: Payload_def Let_def unat_ToIDsLen_build [OF ok])
qed

lemma ZeroToIDs_build:
  assumes ok: "message_parts_ok from tos payload"
  shows "ZeroToIDs (build_message from tos payload) =
    build_message from (replicate (length tos) zero_key) payload"
proof -
  let ?m = "build_message from tos payload" and ?e = "33 + length tos * 32"
  let ?tail = "be_put_uint32 (of_nat (length payload)) @ payload"
  have c: "concat (replicate n zero_key) = replicate (n * 32) 0" for n
    by (induction n) (simp_all add: zero_key_def replicate_add)
  have t: "take 33 ?m = from @ [of_nat (length tos)]"
    using parts_okD(1) [OF ok] by (simp add: build_message_def)
  have d: "drop ?e ?m = ?tail"
    unfolding build_drop33 [OF ok] using parts_okD(5) [OF ok]
    by (simp only: drop_append) simp
  have le: "?e \<le> length ?m" by (simp add: length_build_message [OF ok])
  show ?thesis
  proof (cases "length tos = 0")
    case True
    then show ?thesis using unat_ToIDsLen_build [OF ok] by (simp add: ZeroToIDs_def Let_def)
  next
    case False
    then have "ZeroToIDs ?m = take 33 ?m @ replicate (length tos * 32) 0 @ drop ?e ?m"
      using le by (simp add: ZeroToIDs_def Let_def unat_ToIDsLen_build [OF ok])
    also have "\<dots> = build_message from (replicate (length tos) zero_key) payload"
      unfolding t d by (simp add: build_message_def c)
    finally show ?thesis .
  qed
qed

lemma message_parts_ok_zeroed:
  "message_parts_ok from tos payload \<Longrightarrow>
    message_parts_ok from (replicate (length tos) zero_key) payload"
  by (auto simp: message_parts_ok_def list_all_iff)

subsection \<open>Clearing the recipient list of any message\<close>

lemma ZeroToIDs_cases:
  obtains "ZeroToIDs m = m" and "unat (ToIDsLen m) = 0 \<or> length m < 33 + unat (ToIDsLen m) * 32"
  | "ZeroToIDs m = take 33 m @ replicate (unat (ToIDsLen m) * 32) 0 @ drop (33 + unat (ToIDsLen m) * 32) m"
    and "33 + unat (ToIDsLen m) * 32 \<le> length m"
  by (cases "unat (ToIDsLen m) = 0 \<or> length m < 33 + unat (ToIDsLen m) * 32")
     (auto simp: ZeroToIDs_def Let_def)

lemma ZeroToIDs_take33: "take 33 (ZeroToIDs m) = take 33 m"
  by (rule ZeroToIDs_cases [of m]) auto

lemma ZeroToIDs_drop: "drop (33 + unat (ToIDsLen m) * 32) (ZeroToIDs m) = drop (33 + unat (ToIDsLen m) * 32) m"
  by (rule ZeroToIDs_cases [of m]) (auto simp: min_def)

lemma ToIDsLen_ZeroToIDs [simp]: "ToIDsLen (ZeroToIDs m) = ToIDsLen m"
proof -
  have "ZeroToIDs m ! 32 = m ! 32" if "32 < length m"
    using arg_cong [OF ZeroToIDs_take33, of "\<lambda>xs. xs ! 32" m] that by simp
  then show ?thesis by (simp add: ToIDsLen_def)
qed

lemma FromID_ZeroToIDs [simp]: "FromID (ZeroToIDs m) = FromID m"
proof -
  have "take 32 (take 33 (ZeroToIDs m)) = take 32 (take 33 m)" by (simp only: ZeroToIDs_take33)
  then show ?thesis by (simp add: FromID_eq)
qed

lemma Payload_ZeroToIDs [simp]: "Payload (ZeroToIDs m) = Payload m"
proof -
  let ?o = "33 + unat (ToIDsLen m) * 32"
  have d: "drop k (drop ?o (ZeroToIDs m)) = drop k (drop ?o m)" for k by (simp only: ZeroToIDs_drop)
  have "drop (37 + unat (ToIDsLen m) * 32) (ZeroToIDs m) = drop (37 + unat (ToIDsLen m) * 32) m"
    using d [of 4] by (simp add: add.commute)
  then have sl: "go_slice (37 + unat (ToIDsLen m) * 32) hi (ZeroToIDs m) =
      go_slice (37 + unat (ToIDsLen m) * 32) hi m" for hi by (simp add: go_slice_def)
  have s4: "go_slice (33 + unat (ToIDsLen m) * 32) hi (ZeroToIDs m) =
      go_slice (33 + unat (ToIDsLen m) * 32) hi m" for hi
    using d [of 0] by (simp add: go_slice_def)
  have o4: "33 + unat (ToIDsLen m) * 32 + 4 = 37 + unat (ToIDsLen m) * 32" by simp
  show ?thesis unfolding Payload_def Let_def ToIDsLen_ZeroToIDs length_ZeroToIDs s4 o4 sl ..
qed

lemma id_at_ZeroToIDs:
  assumes "33 + unat (ToIDsLen m) * 32 \<le> length m"
  shows "id_at (ZeroToIDs m) i = zero_key"
proof (cases "i < unat (ToIDsLen m)")
  case True
  let ?n = "unat (ToIDsLen m)"
  have z: "ZeroToIDs m = take 33 m @ replicate (?n * 32) 0 @ drop (33 + ?n * 32) m"
    using assms by (rule_tac ZeroToIDs_cases [of m]) auto
  have i: "i * 32 + 32 \<le> ?n * 32" using True by linarith
  have "drop (33 + i * 32) (ZeroToIDs m) = replicate (?n * 32 - i * 32) 0 @ drop (33 + ?n * 32) m"
    using assms i by (simp add: z)
  moreover have "32 \<le> ?n * 32 - i * 32" using i by linarith
  ultimately have "take 32 (drop (33 + i * 32) (ZeroToIDs m)) = replicate 32 0" by simp
  then show ?thesis by (simp add: id_at_def zero_key_def)
qed (simp add: id_at_def)

subsection \<open>Properties\<close>

text \<open>
  C33 (roundtrip): the accessors read back exactly the parts a well-formed message was built from.
\<close>

theorem message_roundtrip:
  assumes "message_parts_ok from tos payload"
  shows "FromID (build_message from tos payload) = Inr from \<and>
    unat (ToIDsLen (build_message from tos payload)) = length tos \<and>
    (\<forall>i < length tos. ToIDAt (build_message from tos payload) (int i) = Inr (tos ! i)) \<and>
    Payload (build_message from tos payload) = Inr (Some payload)"
  using assms
  by (simp add: FromID_build unat_ToIDsLen_build ToIDAt_eq id_at_build Payload_build)

theorem message_roundtrip_witness:
  "let m = build_message zero_key [replicate 32 1] [104, 105] in
    FromID m = Inr zero_key \<and> unat (ToIDsLen m) = length [replicate 32 (1 :: byte)] \<and>
    (\<forall>i < length [replicate 32 (1 :: byte)]. ToIDAt m (int i) = Inr ([replicate 32 1] ! i)) \<and>
    Payload m = Inr (Some [104, 105])"
  unfolding Let_def
  by (rule message_roundtrip) (simp add: message_parts_ok_def is_key_def zero_key_def)

text \<open>
  On arbitrary bytes, truncated or hostile, no accessor panics, and every id read has the
  length of a key.
\<close>

theorem message_accessors_total:
  "\<not> faulty (FromID m) \<and> \<not> faulty (Payload m) \<and>
    (\<exists>id. ToIDAt m i = Inr id \<and> is_key id) \<and> length (ZeroToIDs m) = length m"
  by (auto simp: FromID_eq Payload_not_faulty ToIDAt_eq)

text \<open>
  \<open>ZeroToIDs\<close> clears the recipients and nothing else: on any message that holds the
  recipient list it declares, every recipient id reads as zero afterwards, while the sender, the
  recipient count, the payload and the length are unchanged. On a message shorter than its
  declared list it changes nothing.
\<close>

theorem zero_to_ids_private:
  "FromID (ZeroToIDs m) = FromID m \<and> ToIDsLen (ZeroToIDs m) = ToIDsLen m \<and>
    Payload (ZeroToIDs m) = Payload m \<and>
    (if 33 + unat (ToIDsLen m) * 32 \<le> length m then \<forall>i. ToIDAt (ZeroToIDs m) i = Inr zero_key
     else ZeroToIDs m = m)"
proof (cases "33 + unat (ToIDsLen m) * 32 \<le> length m")
  case True
  then show ?thesis by (simp add: ToIDAt_eq id_at_ZeroToIDs)
next
  case False
  then have "ZeroToIDs m = m" by (rule_tac ZeroToIDs_cases [of m]) auto
  with False show ?thesis by simp
qed

end
