(* ===== verification/Io_Reader.thy ===== *)
theory Io_Reader
  imports Core_Message
begin

section \<open>The io.Reader a message is read from\<close>

text \<open>
  \<open>readMessageWithFixedFromID\<close> and \<open>ReadWriteLoop\<close> read a frame through Go's \<open>io\<close> package. The
  reader itself comes from the WebSocket library: it is the argument \<open>read\<close>, one call of
  \<open>Read(p)\<close> for a \<open>p\<close> of the given length. \<open>io.ReadFull\<close> and \<open>io.Copy(io.Discard, r)\<close> are modelled
  as the standard library has them; both loop, so they may fail to return (\<open>None\<close>). The locale
  \<open>io_reader\<close> is the documented contract of \<open>io.Reader\<close>, under which they do return.
\<close>

datatype err =
    EOF
  | ErrUnexpectedEOF
  | IOErr nat
  | ErrSkipMessage
  | ErrInvalidMessage
  | ErrMessageTooLarge

type_synonym 'r reader = "nat \<Rightarrow> 'r \<Rightarrow> bytes \<times> err option \<times> 'r"

partial_function (option) read_full_loop ::
  "'r reader \<Rightarrow> nat \<Rightarrow> bytes \<Rightarrow> 'r \<Rightarrow> (bytes \<times> err option \<times> 'r) option" where
  "read_full_loop read need acc r =
     (if need = 0 then Some (acc, None, r)
      else case read need r of
        (bs, None, r') \<Rightarrow> read_full_loop read (need - length bs) (acc @ bs) r'
      | (bs, Some e, r') \<Rightarrow>
          Some (acc @ bs,
            if need \<le> length bs then None
            else if acc @ bs \<noteq> [] \<and> e = EOF then Some ErrUnexpectedEOF else Some e, r'))"

text \<open>\<open>io.ReadFull(r, buf)\<close> for a \<open>buf\<close> of \<open>n\<close> bytes: the bytes stored, the error, the reader.\<close>

definition ReadFull :: "'r reader \<Rightarrow> nat \<Rightarrow> 'r \<Rightarrow> (bytes \<times> err option \<times> 'r) option" where
  "ReadFull read n r = read_full_loop read n [] r"

text \<open>\<open>io.Copy(io.Discard, r)\<close>, whose results the code ignores, reads 8 KiB at a time to the end.\<close>

partial_function (option) Discard :: "'r reader \<Rightarrow> 'r \<Rightarrow> 'r option" where
  "Discard read r =
     (case read 8192 r of
        (bs, None, r') \<Rightarrow> Discard read r'
      | (bs, Some e, r') \<Rightarrow> Some r')"

text \<open>What is left of the error when the stream ends inside a read of at least one byte.\<close>

definition cut :: "bytes \<Rightarrow> err \<Rightarrow> err" where
  "cut got e = (if got \<noteq> [] \<and> e = EOF then ErrUnexpectedEOF else e)"

declare read_full_loop.simps [code]
declare Discard.simps [code]

subsection \<open>The contract\<close>

text \<open>
  \<open>stream r\<close> is what is left to read and \<open>ending r\<close> the error that ends it. A call stores a prefix of
  the stream of at most the requested length; it may report the ending with the last bytes or
  separately, but not earlier; and it may return nothing without an error only finitely often
  (\<open>patience\<close>), as the documentation of \<open>Read\<close> discourages.
\<close>

locale io_reader =
  fixes read :: "'r reader"
    and stream :: "'r \<Rightarrow> bytes"
    and ending :: "'r \<Rightarrow> err"
    and patience :: "'r \<Rightarrow> nat"
  assumes read_prefix: "read n r = (bs, e, r') \<Longrightarrow>
      length bs \<le> n \<and> stream r = bs @ stream r' \<and> ending r' = ending r \<and> patience r' \<le> patience r"
    and read_end: "read n r = (bs, Some x, r') \<Longrightarrow> stream r' = [] \<and> x = ending r"
    and read_progress: "0 < n \<Longrightarrow> read n r = ([], None, r') \<Longrightarrow> patience r' < patience r"
begin

lemma read_full_loop_ok:
  obtains bs e r' where "read_full_loop read need acc r = Some (acc @ bs, e, r')"
    and "stream r = bs @ stream r'" and "ending r' = ending r" and "patience r' \<le> patience r"
    and "if need \<le> length (stream r) then length bs = need \<and> e = None
         else stream r' = [] \<and> e = Some (cut (acc @ bs) (ending r))"
proof -
  have "\<exists>bs e r'. read_full_loop read need acc r = Some (acc @ bs, e, r') \<and>
    stream r = bs @ stream r' \<and> ending r' = ending r \<and> patience r' \<le> patience r \<and>
    (if need \<le> length (stream r) then length bs = need \<and> e = None
     else stream r' = [] \<and> e = Some (cut (acc @ bs) (ending r)))"
  proof (induction "need + patience r" arbitrary: need acc r rule: less_induct)
    case less
    show ?case
    proof (cases "need = 0")
      case True
      then show ?thesis by (subst read_full_loop.simps) auto
    next
      case False
      obtain bs e r1 where rd: "read need r = (bs, e, r1)" by (cases "read need r")
      note p = read_prefix [OF rd]
      show ?thesis
      proof (cases e)
        case (Some x)
        note q = read_end [OF rd [unfolded Some]]
        have "read_full_loop read need acc r =
          Some (acc @ bs, if need \<le> length bs then None else Some (cut (acc @ bs) (ending r)), r1)"
          using False rd Some q by (subst read_full_loop.simps) (simp add: cut_def)
        then show ?thesis using p q by fastforce
      next
        case None
        have "need - length bs + patience r1 < need + patience r"
          using read_progress [of need r r1] rd p False None by (cases bs) auto
        from less [OF this, of "acc @ bs"] obtain cs e' r' where
          ih: "read_full_loop read (need - length bs) (acc @ bs) r1 = Some ((acc @ bs) @ cs, e', r')"
            "stream r1 = cs @ stream r'" "ending r' = ending r1" "patience r' \<le> patience r1"
            "if need - length bs \<le> length (stream r1) then length cs = need - length bs \<and> e' = None
             else stream r' = [] \<and> e' = Some (cut ((acc @ bs) @ cs) (ending r1))"
          by blast
        have "read_full_loop read need acc r = Some (acc @ (bs @ cs), e', r')"
          using False rd None ih(1) by (subst read_full_loop.simps) simp
        moreover have "need \<le> length (stream r) \<longleftrightarrow> need - length bs \<le> length (stream r1)"
          using p by auto
        moreover have "stream r = (bs @ cs) @ stream r'" using p ih(2) by simp
        moreover have "ending r' = ending r" "patience r' \<le> patience r" using p ih(3,4) by simp_all
        moreover have "if need \<le> length (stream r) then length (bs @ cs) = need \<and> e' = None
             else stream r' = [] \<and> e' = Some (cut (acc @ bs @ cs) (ending r))"
        proof (cases "need \<le> length (stream r)")
          case True
          with calculation(2) ih(5) have "length cs = need - length bs" "e' = None" by simp_all
          with p True show ?thesis by simp
        next
          case False
          with calculation(2) ih(5) p show ?thesis by simp
        qed
        ultimately show ?thesis by blast
      qed
    qed
  qed
  then show thesis using that by blast
qed

text \<open>\<open>ReadFull\<close> returns, and either fills its buffer or fails at the end of the stream.\<close>

lemma ReadFull_ok:
  obtains e r' where "ReadFull read n r = Some (take n (stream r), e, r')"
    and "stream r' = drop n (stream r)" and "ending r' = ending r" and "patience r' \<le> patience r"
    and "e = (if n \<le> length (stream r) then None else Some (cut (stream r) (ending r)))"
proof -
  obtain bs e r' where *: "read_full_loop read n [] r = Some ([] @ bs, e, r')"
    "stream r = bs @ stream r'" "ending r' = ending r" "patience r' \<le> patience r"
    "if n \<le> length (stream r) then length bs = n \<and> e = None
     else stream r' = [] \<and> e = Some (cut ([] @ bs) (ending r))"
    by (rule read_full_loop_ok [of n "[]" r])
  show thesis
  proof (cases "n \<le> length (stream r)")
    case True
    then have "length bs = n" "e = None" using *(5) by simp_all
    moreover from this have "take n (stream r) = bs" "drop n (stream r) = stream r'" using *(2) by auto
    ultimately show thesis using *(1,3,4) True by (intro that [of e r']) (simp_all add: ReadFull_def)
  next
    case False
    then have "stream r' = []" "e = Some (cut bs (ending r))" using *(5) by simp_all
    moreover from this have "stream r = bs" using *(2) by simp
    ultimately show thesis using *(1,3,4) False by (intro that [of e r']) (simp_all add: ReadFull_def)
  qed
qed

text \<open>Discarding returns, at the end of the stream.\<close>

lemma Discard_ok: "\<exists>r'. Discard read r = Some r' \<and> stream r' = [] \<and> ending r' = ending r"
proof (induction "length (stream r) + patience r" arbitrary: r rule: less_induct)
  case less
  obtain bs e r1 where rd: "read 8192 r = (bs, e, r1)" by (cases "read 8192 r")
  note p = read_prefix [OF rd]
  show ?case
  proof (cases e)
    case (Some x)
    with rd read_end [of 8192 r bs x r1] p show ?thesis by (subst Discard.simps) simp
  next
    case None
    have "length (stream r1) + patience r1 < length (stream r) + patience r"
      using read_progress [of 8192 r r1] rd p None by (cases bs) auto
    from less [OF this] p rd None show ?thesis by (subst Discard.simps) auto
  qed
qed

text \<open>A reader that does not idle: at the end of the stream a read of one byte reports the ending.\<close>

lemma read_at_end:
  assumes "patience r = 0" and "0 < n"
  obtains r' where "stream r = []" and "read n r = ([], Some (ending r), r')"
  | b bs e r' where "stream r \<noteq> []" and "read n r = (b # bs, e, r')"
proof -
  obtain bs e r' where rd: "read n r = (bs, e, r')" by (cases "read n r")
  note p = read_prefix [OF rd]
  show thesis
  proof (cases bs)
    case (Cons b bs')
    with p rd that(2) show thesis by auto
  next
    case Nil
    then obtain x where x: "e = Some x" using read_progress [of n r r'] assms rd by (cases e) auto
    with read_end [of n r bs x r'] rd p Nil that(1) show thesis by auto
  qed
qed

end

subsection \<open>A reader of fragments\<close>

text \<open>
  A reader that delivers a message in the fragments it arrives in, and reports the end either
  with the last byte or by a call of its own. An empty fragment is a call that returns nothing.
\<close>

record fragments =
  frags :: "bytes list"
  final :: err
  eager :: bool

fun frag_read :: "fragments reader" where
  "frag_read n r =
     (case frags r of
        [] \<Rightarrow> ([], Some (final r), r)
      | f # fs \<Rightarrow>
          (let r' = r\<lparr>frags := (if length f \<le> n then fs else drop n f # fs)\<rparr> in
           (take n f, if eager r \<and> frags r' = [] then Some (final r) else None, r')))"

definition frag_patience :: "fragments \<Rightarrow> nat" where
  "frag_patience r = length (filter (\<lambda>f. f = []) (frags r))"

interpretation frag: io_reader frag_read "\<lambda>r. concat (frags r)" final frag_patience
proof
  fix n r bs e r'
  assume "frag_read n r = (bs, e, r')"
  then show "length bs \<le> n \<and> concat (frags r) = bs @ concat (frags r') \<and> final r' = final r \<and>
    frag_patience r' \<le> frag_patience r"
    by (auto simp: frag_patience_def Let_def split: list.splits if_splits)
next
  fix n r bs e r'
  assume "frag_read n r = (bs, Some e, r')"
  then show "concat (frags r') = [] \<and> e = final r"
    by (auto simp: Let_def split: list.splits if_splits)
next
  fix n r r'
  assume "0 < n" "frag_read n r = ([], None, r')"
  then show "frag_patience r' < frag_patience r"
    by (auto simp: frag_patience_def Let_def split: list.splits if_splits)
qed

end
