(* ===== verification/Wire_Reader.thy ===== *)
theory Wire_Reader
  imports Io_Reader
begin

section \<open>internal/network: reading one message off the wire\<close>

text \<open>
  \<open>readMessageWithFixedFromID\<close> and \<open>hasDuplicateTarget\<close>. A run of the code is a value of
  \<open>'a run\<close>: \<open>None\<close> when it does not return (the reader's loops), a fault when it panics, and
  otherwise its result. The Go pair \<open>(*mem.Buffer, error)\<close> is \<open>err + baddr\<close>: exactly one of the two
  is not nil. \<open>decode_frame\<close> is the wire format as a pure function of the whole frame; the central
  lemma is that reading in pieces, into a buffer allocated before the data arrives, computes it.
\<close>

type_synonym 'a run = "'a res option"

definition bind_run :: "'a run \<Rightarrow> ('a \<Rightarrow> 'b run) \<Rightarrow> 'b run" where
  "bind_run x f = (case x of None \<Rightarrow> None | Some (Inl e) \<Rightarrow> Some (Inl e) | Some (Inr y) \<Rightarrow> f y)"

lemma bind_run_simps [simp]:
  "bind_run None f = None" "bind_run (Some (Inl e)) f = Some (Inl e)" "bind_run (Some (Inr y)) f = f y"
  by (simp_all add: bind_run_def)

definition calm :: "'a option \<Rightarrow> 'a run" where
  "calm x = map_option Inr x"

lemma calm_simps [simp]: "calm None = None" "calm (Some y) = Some (Inr y)"
  by (simp_all add: calm_def)

subsection \<open>hasDuplicateTarget\<close>

fun dup_inner :: "bytes \<Rightarrow> bytes \<Rightarrow> nat list \<Rightarrow> nat \<Rightarrow> bool res" where
  "dup_inner a toIDs [] off2 = Inr False"
| "dup_inner a toIDs (j # js) off2 =
     bind_res (go_slice off2 (off2 + 32) toIDs) (\<lambda>b.
       if a = b then Inr True else dup_inner a toIDs js (off2 + 32))"

fun dup_outer :: "bytes \<Rightarrow> nat \<Rightarrow> nat list \<Rightarrow> nat \<Rightarrow> bool res" where
  "dup_outer toIDs n [] off = Inr False"
| "dup_outer toIDs n (i # is) off =
     bind_res (go_slice off (off + 32) toIDs) (\<lambda>a.
     bind_res (dup_inner a toIDs [Suc i..<n] (off + 32)) (\<lambda>found.
       if found then Inr True else dup_outer toIDs n is (off + 32)))"

definition hasDuplicateTarget :: "bytes \<Rightarrow> nat \<Rightarrow> bool res" where
  "hasDuplicateTarget toIDs n = dup_outer toIDs n [0..<n - 1] 0"

lemma dup_inner_eq:
  assumes "length toIDs = n * 32" and "j \<le> n"
  shows "dup_inner a toIDs [j..<n] (j * 32) = Inr (a \<in> set (drop j (chunks 32 n toIDs)))"
  using assms(2)
proof (induction "n - j" arbitrary: j)
  case (Suc d)
  then have j: "j < n" by simp
  then have "Suc j * 32 \<le> n * 32" by (intro mult_le_mono1) simp
  then have "go_slice (j * 32) (j * 32 + 32) toIDs = Inr (take 32 (drop (j * 32) toIDs))"
    using assms(1) by simp
  moreover have "drop j (chunks 32 n toIDs) = take 32 (drop (j * 32) toIDs) # drop (Suc j) (chunks 32 n toIDs)"
    using j by (simp add: Cons_nth_drop_Suc [symmetric])
  moreover have "[j..<n] = j # [Suc j..<n]" using j by (rule upt_conv_Cons)
  moreover have "dup_inner a toIDs [Suc j..<n] (Suc j * 32) = Inr (a \<in> set (drop (Suc j) (chunks 32 n toIDs)))"
    using Suc by (intro Suc.hyps(1)) simp_all
  ultimately show ?case by (simp add: add.commute)
qed simp

lemma dup_outer_eq:
  assumes "length toIDs = n * 32" and "i \<le> n - 1"
  shows "dup_outer toIDs n [i..<n - 1] (i * 32) = Inr (\<not> distinct (drop i (chunks 32 n toIDs)))"
  using assms(2)
proof (induction "n - 1 - i" arbitrary: i)
  case 0
  then have "length (drop i (chunks 32 n toIDs)) \<le> 1" "n - 1 \<le> i" by simp_all
  moreover from this(1) have "distinct (drop i (chunks 32 n toIDs))"
    by (cases "drop i (chunks 32 n toIDs)"; cases "tl (drop i (chunks 32 n toIDs))") auto
  ultimately show ?case by simp
next
  case (Suc d)
  then have i: "i < n - 1" "i < n" by simp_all
  then have "Suc i * 32 \<le> n * 32" by (intro mult_le_mono1) simp
  then have "go_slice (i * 32) (i * 32 + 32) toIDs = Inr (take 32 (drop (i * 32) toIDs))"
    using assms(1) by simp
  moreover have "drop i (chunks 32 n toIDs) = take 32 (drop (i * 32) toIDs) # drop (Suc i) (chunks 32 n toIDs)"
    using i(2) by (simp add: Cons_nth_drop_Suc [symmetric])
  moreover have "[i..<n - 1] = i # [Suc i..<n - 1]" using i(1) by (rule upt_conv_Cons)
  moreover have "dup_outer toIDs n [Suc i..<n - 1] (Suc i * 32) =
      Inr (\<not> distinct (drop (Suc i) (chunks 32 n toIDs)))"
    using Suc by (intro Suc.hyps(1)) simp_all
  moreover have "dup_inner (take 32 (drop (i * 32) toIDs)) toIDs [Suc i..<n] (Suc i * 32) =
      Inr (take 32 (drop (i * 32) toIDs) \<in> set (drop (Suc i) (chunks 32 n toIDs)))"
    using i by (intro dup_inner_eq assms(1)) simp
  ultimately show ?case by (simp add: add.commute)
qed

lemma hasDuplicateTarget_eq:
  "length toIDs = n * 32 \<Longrightarrow> hasDuplicateTarget toIDs n = Inr (\<not> distinct (chunks 32 n toIDs))"
  using dup_outer_eq [of toIDs n 0] by (simp add: hasDuplicateTarget_def)

subsection \<open>readMessageWithFixedFromID\<close>

text \<open>\<open>copy(data[lo:hi], src)\<close> and \<open>data[i] = x\<close>.\<close>

definition copy_to :: "nat \<Rightarrow> nat \<Rightarrow> bytes \<Rightarrow> bytes \<Rightarrow> bytes res" where
  "copy_to lo hi src data =
     bind_res (go_slice lo hi data) (\<lambda>w. Inr (take lo data @ go_copy w src @ drop hi data))"

definition set_byte :: "nat \<Rightarrow> byte \<Rightarrow> bytes \<Rightarrow> bytes res" where
  "set_byte i x data = (if i < length data then Inr (data[i := x]) else Inl IndexOutOfRange)"

text \<open>The two error exits that give the buffer back.\<close>

definition release_and_fail :: "baddr \<Rightarrow> err \<Rightarrow> 'r \<Rightarrow> mem \<Rightarrow> ((err + baddr) \<times> 'r \<times> mem) run" where
  "release_and_fail b e r m = Some (bind_res (Release b m) (\<lambda>m'. Inr (Inl e, r, m')))"

text \<open>The EOF probe after the data.\<close>

definition eof_probe :: "'r reader \<Rightarrow> baddr \<Rightarrow> 'r \<Rightarrow> mem \<Rightarrow> ((err + baddr) \<times> 'r \<times> mem) run" where
  "eof_probe read buf r m =
     (case read 1 r of (bs, e, r') \<Rightarrow>
        if bs \<noteq> [] then release_and_fail buf ErrInvalidMessage r' m
        else if e \<noteq> Some EOF then
          (case e of
             None \<Rightarrow> release_and_fail buf ErrInvalidMessage r' m
           | Some x \<Rightarrow> release_and_fail buf x r' m)
        else Some (Inr (Inr buf, r', m)))"

text \<open>Step 3: allocate exactly the message, fill in the header and read the data into it.\<close>

definition read_body ::
  "'r reader \<Rightarrow> malloc \<Rightarrow> pubkey \<Rightarrow> byte \<Rightarrow> bytes \<Rightarrow> nat \<Rightarrow> 'r \<Rightarrow> mem \<Rightarrow>
    ((err + baddr) \<times> 'r \<times> mem) run" where
  "read_body read malloc fromID nToByte tail dataLen r m =
     (let prefixLen = 33 + length tail; totalLen = prefixLen + dataLen in
      bind_run (Some (NewBuffer malloc totalLen m)) (\<lambda>(buf, m1).
      bind_run (Some (Bytes buf m1)) (\<lambda>data0.
      bind_run (Some (copy_to 0 32 fromID data0)) (\<lambda>data1.
      bind_run (Some (set_byte 32 nToByte data1)) (\<lambda>data2.
      bind_run (Some (copy_to 33 prefixLen tail data2)) (\<lambda>data3.
        let m2 = write_bytes buf data3 m1 in
        if dataLen > 0 then
          bind_run (Some (go_slice prefixLen (length data3) data3)) (\<lambda>window.
          bind_run (calm (ReadFull read (length window) r)) (\<lambda>(got, e, r1).
            let m3 = write_bytes buf (take prefixLen data3 @ go_copy window got) m2 in
            case e of
              Some x \<Rightarrow> release_and_fail buf x r1 m3
            | None \<Rightarrow> eof_probe read buf r1 m3))
        else eof_probe read buf r m2))))))"

definition readMessageWithFixedFromID ::
  "'r reader \<Rightarrow> malloc \<Rightarrow> int \<Rightarrow> pubkey \<Rightarrow> 'r \<Rightarrow> mem \<Rightarrow> ((err + baddr) \<times> 'r \<times> mem) run" where
  "readMessageWithFixedFromID read malloc maxDataLen fromID r m =
     bind_run (calm (ReadFull read 1 r)) (\<lambda>(nToBuf, e1, r1).
     case e1 of
       Some x \<Rightarrow> Some (Inr (Inl x, r1, m))
     | None \<Rightarrow>
       bind_run (Some (go_index 0 nToBuf)) (\<lambda>nToByte.
       let nTo = unat nToByte in
       if nTo = 0 then
         bind_run (calm (Discard read r1)) (\<lambda>r2. Some (Inr (Inl ErrSkipMessage, r2, m)))
       else if nTo > MaxTargetsPerMessage then Some (Inr (Inl ErrInvalidMessage, r1, m))
       else
         (let toIDsLen = nTo * 32; tailN = toIDsLen + 4 in
          bind_run (calm (ReadFull read tailN r1)) (\<lambda>(tail, e2, r2).
          case e2 of
            Some x \<Rightarrow> Some (Inr (Inl x, r2, m))
          | None \<Rightarrow>
            bind_run (Some (go_slice 0 toIDsLen tail)) (\<lambda>toIDs.
            bind_run (Some (hasDuplicateTarget toIDs nTo)) (\<lambda>dup.
            if dup then Some (Inr (Inl ErrInvalidMessage, r2, m))
            else
              bind_run (Some (go_slice toIDsLen (toIDsLen + 4) tail)) (\<lambda>lenBytes.
              bind_run (Some (be_uint32 lenBytes)) (\<lambda>v.
              let dataLen = unat v in
              if int dataLen > maxDataLen then Some (Inr (Inl ErrMessageTooLarge, r2, m))
              else read_body read malloc fromID nToByte tail dataLen r2 m))))))))"

subsection \<open>The wire format as a function of the whole frame\<close>

definition decode_frame :: "int \<Rightarrow> bytes \<Rightarrow> err \<Rightarrow> err + (pubkey list \<times> bytes)" where
  "decode_frame maxDataLen bs end_err =
     (case bs of
        [] \<Rightarrow> Inl end_err
      | n # rest \<Rightarrow>
          (let nTo = unat n; idsLen = nTo * 32; ids = chunks 32 nTo rest; body = drop (idsLen + 4) rest in
           if nTo = 0 then Inl ErrSkipMessage
           else if nTo > MaxTargetsPerMessage then Inl ErrInvalidMessage
           else if length rest < idsLen + 4 then Inl (cut rest end_err)
           else if \<not> distinct ids then Inl ErrInvalidMessage
           else
             (case be_uint32 (take 4 (drop idsLen rest)) of
                Inl _ \<Rightarrow> Inl ErrInvalidMessage
              | Inr v \<Rightarrow>
                  if int (unat v) > maxDataLen then Inl ErrMessageTooLarge
                  else if length body < unat v then Inl (cut body end_err)
                  else if unat v < length body then Inl ErrInvalidMessage
                  else if end_err \<noteq> EOF then Inl end_err
                  else Inr (ids, body))))"

lemma chunks_take: "chunks k n (take (n * k) xs) = chunks k n xs"
proof (rule nth_equalityI)
  fix i assume "i < length (chunks k n (take (n * k) xs))"
  then have i: "i < n" by simp
  then have "Suc i * k \<le> n * k" by (intro mult_le_mono1) simp
  then show "chunks k n (take (n * k) xs) ! i = chunks k n xs ! i"
    using i by (simp add: take_drop min_def)
qed simp

lemma header_of_chunks:
  assumes "unat (x :: byte) * 32 + 4 \<le> length rest" and "be_uint32 (take 4 (drop (unat x * 32) rest)) = Inr len"
  shows "x # take (unat x * 32 + 4) rest =
    of_nat (length (chunks 32 (unat x) rest)) # concat (chunks 32 (unat x) rest) @ be_put_uint32 (of_nat (unat len))"
proof -
  have "take (unat x * 32) rest = concat (chunks 32 (unat x) rest)"
    using concat_chunks [of "take (unat x * 32) rest" "unat x" 32] assms(1) by (simp add: chunks_take)
  moreover have "take 4 (drop (unat x * 32) rest) = be_put_uint32 len"
    using be_put_of_uint32 [OF _ assms(2)] assms(1) by simp
  ultimately show ?thesis by (simp add: take_add)
qed

text \<open>
  What reading a message adds to the memory: one buffer at the next address, with \<open>n\<close> references
  and contents \<open>d\<close> (a buffer that is gone again has neither), everything else as before.
\<close>

definition mem_plus :: "mem \<Rightarrow> int \<Rightarrow> bytes \<Rightarrow> mem \<Rightarrow> bool" where
  "mem_plus m n d m' \<longleftrightarrow>
     mem_ok m' \<and> refs_of m' = (refs_of m)(next_buf m \<mapsto> n) \<and>
     content_of m' = (content_of m)(next_buf m \<mapsto> d) \<and>
     next_buf m' = Suc (next_buf m) \<and> goos m' = goos m"

lemma NewBuffer_plus:
  assumes "NewBuffer malloc n m = Inr (b, m')" and "mem_ok m" and "malloc_ok malloc"
  shows "b = next_buf m \<and> (\<exists>d. length d = n \<and> mem_plus m 1 d m')"
  using NewBuffer_ok [OF assms] by (auto simp: mem_plus_def)

lemma write_plus:
  assumes "mem_plus m n d m1" and "length d' = length d"
  shows "mem_plus m n d' (write_bytes (next_buf m) d' m1)"
proof -
  from assms(1) have "mem_ok m1" "content_of m1 (next_buf m) = Some d" by (auto simp: mem_plus_def)
  from write_bytes_ok [OF this assms(2)] assms(1) show ?thesis by (auto simp: mem_plus_def)
qed

lemma release_plus:
  assumes "mem_plus m 1 d m1"
  obtains m2 where "Release (next_buf m) m1 = Inr m2" and "mem_plus m 0 [] m2"
proof -
  from assms have ok: "mem_ok m1" "refs_of m1 (next_buf m) = Some 1" by (auto simp: mem_plus_def)
  obtain m2 where "Release (next_buf m) m1 = Inr m2" "mem_ok m2"
    "refs_of m2 = (refs_of m1)(next_buf m \<mapsto> 1 - 1)" "content_of m2 = (content_of m1)(next_buf m \<mapsto> [])"
    "next_buf m2 = next_buf m1" "goos m2 = goos m1"
    using Release_ok [OF ok] by auto
  with assms show thesis by (intro that [of m2]) (auto simp: mem_plus_def)
qed

lemma release_and_fail_plus:
  assumes "mem_plus m 1 d m1"
  shows "\<exists>m2. release_and_fail (next_buf m) e r m1 = Some (Inr (Inl e, r, m2)) \<and> mem_plus m 0 [] m2"
proof -
  obtain m2 where "Release (next_buf m) m1 = Inr m2" "mem_plus m 0 [] m2"
    by (rule release_plus [OF assms])
  then show ?thesis by (simp add: release_and_fail_def)
qed

text \<open>The result that goes with a verdict: on an error the buffer is gone, otherwise it is returned.\<close>

definition settled :: "mem \<Rightarrow> bytes \<Rightarrow> err + 'x \<Rightarrow> err + baddr \<Rightarrow> mem \<Rightarrow> bool" where
  "settled m d verdict res m' \<longleftrightarrow>
     (case verdict of
        Inl e \<Rightarrow> res = Inl e \<and> mem_plus m 0 [] m'
      | Inr _ \<Rightarrow> res = Inr (next_buf m) \<and> mem_plus m 1 d m')"

lemma settled_simps [simp]:
  "settled m d (Inl e) res m' \<longleftrightarrow> res = Inl e \<and> mem_plus m 0 [] m'"
  "settled m d (Inr v) res m' \<longleftrightarrow> res = Inr (next_buf m) \<and> mem_plus m 1 d m'"
  by (simp_all add: settled_def)

lemma copy_to_eq:
  "lo \<le> hi \<Longrightarrow> hi \<le> length data \<Longrightarrow> length src = hi - lo \<Longrightarrow>
    copy_to lo hi src data = Inr (take lo data @ src @ drop hi data)"
  by (simp add: copy_to_def)

lemma header_writes:
  assumes "is_key fromID" and "33 + length tail \<le> length data"
  shows "copy_to 0 32 fromID data = Inr (fromID @ drop 32 data)"
    and "set_byte 32 x (fromID @ drop 32 data) = Inr (fromID @ x # drop 33 data)"
    and "copy_to 33 (33 + length tail) tail (fromID @ x # drop 33 data) =
      Inr (fromID @ x # tail @ drop (33 + length tail) data)"
proof -
  have l: "length fromID = 32" using assms(1) by (simp add: is_key_def)
  show "copy_to 0 32 fromID data = Inr (fromID @ drop 32 data)"
    using assms l by (simp add: copy_to_eq)
  have "drop 32 data = data ! 32 # drop 33 data"
    using assms(2) by (simp add: Cons_nth_drop_Suc [of 32 data, symmetric])
  then show "set_byte 32 x (fromID @ drop 32 data) = Inr (fromID @ x # drop 33 data)"
    using assms(2) l by (simp add: set_byte_def list_update_append)
  show "copy_to 33 (33 + length tail) tail (fromID @ x # drop 33 data) =
      Inr (fromID @ x # tail @ drop (33 + length tail) data)"
    using assms(2) l by (simp add: copy_to_eq add.commute)
qed

text \<open>The bytes of the message a verdict carries.\<close>

definition frame_message :: "pubkey \<Rightarrow> err + (pubkey list \<times> bytes) \<Rightarrow> bytes" where
  "frame_message fromID verdict =
     (case verdict of Inl _ \<Rightarrow> [] | Inr (ids, body) \<Rightarrow> build_message fromID ids body)"

lemma frame_message_simps [simp]:
  "frame_message fromID (Inr (ids, body)) = build_message fromID ids body"
  by (simp add: frame_message_def)

text \<open>
  A reader may idle, returning no bytes and no error. When the probe hits such a read the frame is
  refused whatever it is, so with patience \<open>p\<close> left the outcome is the verdict \<open>v\<close> or that refusal.
\<close>

definition near :: "nat \<Rightarrow> err + 'x \<Rightarrow> err + 'x \<Rightarrow> bool" where
  "near p v w \<longleftrightarrow> w = v \<or> p \<noteq> 0 \<and> w = Inl ErrInvalidMessage"

lemma near_refl [simp]: "near p v v"
  by (simp add: near_def)

lemma near_zero [simp]: "near 0 v w \<longleftrightarrow> w = v"
  by (simp add: near_def)

lemma near_mono: "near p v w \<Longrightarrow> p \<le> q \<Longrightarrow> near q v w"
  by (auto simp: near_def)

context io_reader
begin

text \<open>The verdict on what follows the header, when \<open>n\<close> bytes of data were announced.\<close>

definition tail_verdict :: "nat \<Rightarrow> 'r \<Rightarrow> err + unit" where
  "tail_verdict n r =
     (if length (stream r) < n then Inl (cut (stream r) (ending r))
      else if n < length (stream r) then Inl ErrInvalidMessage
      else if ending r \<noteq> EOF then Inl (ending r) else Inr ())"

lemma eof_probe_near:
  assumes plus: "mem_plus m 1 d m1"
  shows "\<exists>w res r' m'. near (patience r) (tail_verdict 0 r) w \<and>
    eof_probe read (next_buf m) r m1 = Some (Inr (res, r', m')) \<and> settled m d w res m'"
proof -
  obtain bs e r' where rd: "read 1 r = (bs, e, r')" by (cases "read 1 r")
  note p = read_prefix [OF rd]
  note fail = release_and_fail_plus [OF plus, of _ r']
  show ?thesis
  proof (cases bs)
    case (Cons b bs')
    then have "tail_verdict 0 r = Inl ErrInvalidMessage" using p by (simp add: tail_verdict_def)
    with Cons rd fail [of ErrInvalidMessage] show ?thesis
      by (intro exI [of _ "Inl ErrInvalidMessage"]) (auto simp: eof_probe_def)
  next
    case Nil
    show ?thesis
    proof (cases e)
      case None
      then have "patience r \<noteq> 0" using read_progress [of 1 r r'] rd Nil by simp
      with None Nil rd fail [of ErrInvalidMessage] show ?thesis
        by (intro exI [of _ "Inl ErrInvalidMessage"]) (auto simp: eof_probe_def near_def)
    next
      case (Some x)
      then have "stream r = []" "x = ending r" using read_end [of 1 r bs x r'] rd p Nil by simp_all
      with Some Nil rd fail [of x] plus show ?thesis
        by (intro exI [of _ "tail_verdict 0 r"]) (auto simp: eof_probe_def tail_verdict_def)
    qed
  qed
qed

lemma read_body_near:
  assumes key: "is_key fromID" and mal: "malloc_ok malloc" and ok: "mem_ok m"
    and new: "NewBuffer malloc (33 + length tail + n) m = Inr (b, m1)"
  shows "\<exists>w res r' m'. near (patience r) (tail_verdict n r) w \<and>
    read_body read malloc fromID x tail n r m = Some (Inr (res, r', m')) \<and>
    settled m (fromID @ x # tail @ take n (stream r)) w res m'"
proof -
  let ?p = "33 + length tail"
  obtain d where b: "b = next_buf m" and d: "length d = ?p + n" "mem_plus m 1 d m1"
    using NewBuffer_plus [OF new ok mal] by blast
  have B: "Bytes b m1 = Inr d" using d(2) b by (simp add: Bytes_eq mem_plus_def)
  let ?h = "fromID @ x # tail"
  let ?d = "?h @ drop ?p d"
  have l: "length fromID = 32" using key by (simp add: is_key_def)
  have ld: "length ?d = length d" using d(1) l by simp
  note w = header_writes [OF key, of tail d]
  let ?m2 = "write_bytes b ?d m1"
  have m2: "mem_plus m 1 ?d ?m2" using write_plus [OF d(2) ld] b by simp
  have body: "read_body read malloc fromID x tail n r m =
    (if n > 0 then
       bind_run (calm (ReadFull read n r)) (\<lambda>(got, e, r1).
         let m3 = write_bytes b (?h @ go_copy (drop ?p d) got) ?m2 in
         case e of Some x \<Rightarrow> release_and_fail b x r1 m3 | None \<Rightarrow> eof_probe read b r1 m3)
     else eof_probe read b r ?m2)"
    using new B w d(1) l by (simp add: read_body_def Let_def)
  show ?thesis
  proof (cases "n = 0")
    case True
    then have "?d = fromID @ x # tail @ take n (stream r)" using d(1) by simp
    with eof_probe_near [OF m2, of r] body True b show ?thesis by simp
  next
    case False
    obtain e r1 where rf: "ReadFull read n r = Some (take n (stream r), e, r1)"
      "stream r1 = drop n (stream r)" "ending r1 = ending r" "patience r1 \<le> patience r"
      "e = (if n \<le> length (stream r) then None else Some (cut (stream r) (ending r)))"
      by (rule ReadFull_ok [of n r])
    let ?m3 = "write_bytes b (?h @ go_copy (drop ?p d) (take n (stream r))) ?m2"
    have m3: "mem_plus m 1 (?h @ go_copy (drop ?p d) (take n (stream r))) ?m3"
      using write_plus [OF m2, of "?h @ go_copy (drop ?p d) (take n (stream r))"] b by simp
    show ?thesis
    proof (cases "n \<le> length (stream r)")
      case True
      then have "go_copy (drop ?p d) (take n (stream r)) = take n (stream r)" using d(1) by simp
      moreover have "tail_verdict 0 r1 = tail_verdict n r"
        using True by (auto simp: tail_verdict_def rf(2,3))
      ultimately show ?thesis
        using eof_probe_near [OF m3, of r1] near_mono [OF _ rf(4)] body False True b rf(1,5) by auto
    next
      case short: False
      then show ?thesis
        using release_and_fail_plus [OF m3, of "cut (stream r) (ending r)" r1] body False b rf(1,5)
        by (intro exI [of _ "tail_verdict n r"]) (auto simp: tail_verdict_def)
    qed
  qed
qed

text \<open>
  The whole function: it returns, its verdict is that of the wire format, and it leaves one buffer
  with one reference (the message) or no reference at all. Only the allocator can make it panic.
\<close>

lemma read_payload_near:
  assumes key: "is_key fromID" and mal: "malloc_ok malloc" and ok: "mem_ok m"
    and long: "unat x * 32 + 4 \<le> length rest" and len: "be_uint32 (take 4 (drop (unat x * 32) rest)) = Inr len"
    and v: "v = (case tail_verdict (unat len) r of Inl e \<Rightarrow> Inl e | Inr _ \<Rightarrow> Inr (chunks 32 (unat x) rest, stream r))"
  shows "read_body read malloc fromID x (take (unat x * 32 + 4) rest) (unat len) r m = Some (Inl OutOfMemory) \<and>
      (\<exists>n. malloc m n = None) \<or>
    (\<exists>w res r' m'. near (patience r) v w \<and> read_body read malloc fromID x (take (unat x * 32 + 4) rest) (unat len) r m = Some (Inr (res, r', m')) \<and>
      settled m (frame_message fromID v) w res m')"
proof -
  let ?tail = "take (unat x * 32 + 4) rest"
  show ?thesis
  proof (cases "NewBuffer malloc (33 + length ?tail + unat len) m")
    case (Inl f)
    have "length ?tail \<le> 8164" using unsigned_less [of x, where ?'a = nat] by simp
    then have f: "f = OutOfMemory" "malloc m (33 + length ?tail + unat len) = None"
      using NewBuffer_fault [OF Inl] unsigned_less [of len, where ?'a = nat] by simp_all
    with Inl have "read_body read malloc fromID x ?tail (unat len) r m = Some (Inl OutOfMemory)"
      using f(1) by (simp add: read_body_def Let_def)
    with f(2) show ?thesis by blast
  next
    case (Inr bm)
    obtain b m1 where bm: "NewBuffer malloc (33 + length ?tail + unat len) m = Inr (b, m1)"
      using Inr by (cases bm) simp
    from read_body_near [OF key mal ok bm, where x = x and r = r] obtain u res r' m' where
      rb: "read_body read malloc fromID x ?tail (unat len) r m = Some (Inr (res, r', m'))"
        "settled m (fromID @ x # ?tail @ take (unat len) (stream r)) u res m'"
      and u: "near (patience r) (tail_verdict (unat len) r) u"
      by blast
    let ?w = "case u of Inl e \<Rightarrow> Inl e | Inr _ \<Rightarrow> Inr (chunks 32 (unat x) rest, stream r)"
    have near: "near (patience r) v ?w" using u v by (auto simp: near_def)
    have "settled m (frame_message fromID v) ?w res m'"
    proof (cases u)
      case (Inl e)
      then show ?thesis using rb(2) by simp
    next
      case (Inr z)
      then have t: "tail_verdict (unat len) r = Inr z" using u by (auto simp: near_def)
      then have l: "length (stream r) = unat len" by (auto simp: tail_verdict_def split: if_splits)
      have "fromID @ x # ?tail @ take (unat len) (stream r) = build_message fromID (chunks 32 (unat x) rest) (stream r)"
        using header_of_chunks [OF long len] l by (simp add: build_message_def)
      then show ?thesis using Inr t rb(2) v by simp
    qed
    with rb(1) near show ?thesis by blast
  qed
qed

lemma read_message_near:
  assumes key: "is_key fromID" and mal: "malloc_ok malloc" and ok: "mem_ok m"
    and v: "v = decode_frame maxDataLen (stream r) (ending r)"
  shows "readMessageWithFixedFromID read malloc maxDataLen fromID r m = Some (Inl OutOfMemory) \<and>
      (\<exists>n. malloc m n = None) \<or>
    (\<exists>w res r' m'. near (patience r) v w \<and> readMessageWithFixedFromID read malloc maxDataLen fromID r m = Some (Inr (res, r', m')) \<and>
      ((\<exists>e. w = Inl e) \<and> res = Inl (projl w) \<and> m' = m \<or> settled m (frame_message fromID v) w res m'))"
proof -
  note def = readMessageWithFixedFromID_def [of read malloc maxDataLen fromID r m]
  obtain e1 r1 where rf1: "ReadFull read 1 r = Some (take 1 (stream r), e1, r1)"
    "stream r1 = drop 1 (stream r)" "ending r1 = ending r" "patience r1 \<le> patience r"
    "e1 = (if 1 \<le> length (stream r) then None else Some (cut (stream r) (ending r)))"
    by (rule ReadFull_ok [of 1 r])
  show ?thesis
  proof (cases "stream r")
    case Nil
    then show ?thesis using rf1(1,5) v by (intro disjI2 exI [of _ v]) (simp add: def decode_frame_def cut_def)
  next
    case (Cons x rest)
    let ?n = "unat x" and ?k = "unat x * 32"
    have s1: "stream r1 = rest" using rf1(2) Cons by simp
    show ?thesis
    proof (cases "?n = 0 \<or> MaxTargetsPerMessage < ?n")
      case True
      obtain r2 where "Discard read r1 = Some r2" using Discard_ok [of r1] by blast
      then show ?thesis using True rf1(1,5) Cons v
        by (intro disjI2 exI [of _ v], cases "?n = 0") (simp_all add: def decode_frame_def Let_def)
    next
      case False
      obtain e2 r2 where rf2: "ReadFull read (?k + 4) r1 = Some (take (?k + 4) rest, e2, r2)"
        "stream r2 = drop (?k + 4) rest" "ending r2 = ending r1" "patience r2 \<le> patience r1"
        "e2 = (if ?k + 4 \<le> length rest then None else Some (cut rest (ending r1)))"
        using ReadFull_ok [of "?k + 4" r1] unfolding s1 by metis
      show ?thesis
      proof (cases "?k + 4 \<le> length rest")
        case short: False
        then show ?thesis using False rf1(1,3,5) rf2(1,5) Cons v
          by (intro disjI2 exI [of _ v]) (simp add: def decode_frame_def Let_def)
      next
        case long: True
        let ?tail = "take (?k + 4) rest" and ?ids = "chunks 32 ?n rest"
        have lt: "length ?tail = ?k + 4" using long by simp
        have ids: "hasDuplicateTarget (take ?k rest) ?n = Inr (\<not> distinct ?ids)"
          using hasDuplicateTarget_eq [of "take ?k rest" ?n] long by (simp add: chunks_take)
        have g1: "go_slice 0 ?k ?tail = Inr (take ?k rest)" using long by (simp add: min_def)
        have g2: "go_slice ?k (?k + 4) ?tail = Inr (take 4 (drop ?k rest))" using long by (simp add: take_drop)
        obtain len where len: "be_uint32 (take 4 (drop ?k rest)) = Inr len"
          using be_uint32_total [of "take 4 (drop ?k rest)"] long by auto
        have red: "readMessageWithFixedFromID read malloc maxDataLen fromID r m =
          (if \<not> distinct ?ids then Some (Inr (Inl ErrInvalidMessage, r2, m))
           else if int (unat len) > maxDataLen then Some (Inr (Inl ErrMessageTooLarge, r2, m))
           else read_body read malloc fromID x ?tail (unat len) r2 m)"
          using False rf1(1,5) rf2(1,5) Cons long g1 g2 ids len by (simp add: def Let_def)
        have v': "v = (if \<not> distinct ?ids then Inl ErrInvalidMessage
           else if int (unat len) > maxDataLen then Inl ErrMessageTooLarge
           else case tail_verdict (unat len) r2 of Inl e \<Rightarrow> Inl e | Inr _ \<Rightarrow> Inr (?ids, stream r2))"
          using False Cons long len v rf2(2,3) rf1(3)
          by (simp add: decode_frame_def Let_def tail_verdict_def del: length_drop)
        show ?thesis
        proof (cases "distinct ?ids \<and> int (unat len) \<le> maxDataLen")
          case bad: False
          then show ?thesis using red v' by (intro disjI2 exI [of _ v]) auto
        next
          case good: True
          have "patience r2 \<le> patience r" using rf1(4) rf2(4) by simp
          with read_payload_near [OF key mal ok long len refl, of r2] good red v' show ?thesis
            by (auto dest: near_mono)
        qed
      qed
    qed
  qed
qed

text \<open>For a reader that does not idle the outcome is the verdict.\<close>

lemma read_message_ok:
  assumes "patience r = 0" and "is_key fromID" and "malloc_ok malloc" and "mem_ok m"
    and "v = decode_frame maxDataLen (stream r) (ending r)"
  shows "readMessageWithFixedFromID read malloc maxDataLen fromID r m = Some (Inl OutOfMemory) \<and>
      (\<exists>n. malloc m n = None) \<or>
    (\<exists>res r' m'. readMessageWithFixedFromID read malloc maxDataLen fromID r m = Some (Inr (res, r', m')) \<and>
      ((\<exists>e. v = Inl e) \<and> res = Inl (projl v) \<and> m' = m \<or> settled m (frame_message fromID v) v res m'))"
  using read_message_near [OF assms(2-5)] unfolding assms(1) near_zero by blast

lemma read_message_total:
  assumes "patience r = 0" and "is_key fromID" and "malloc_ok malloc" and "mem_ok m"
    and "v = decode_frame maxDataLen (stream r) (ending r)" and "\<forall>m n. malloc m n \<noteq> None"
  shows "\<exists>res r' m'. readMessageWithFixedFromID read malloc maxDataLen fromID r m = Some (Inr (res, r', m')) \<and>
    ((\<exists>e. v = Inl e) \<and> res = Inl (projl v) \<and> m' = m \<or> settled m (frame_message fromID v) v res m')"
  using read_message_ok [OF assms(1-5)] assms(6) by blast

end

subsection \<open>Valid frames\<close>

text \<open>The frame that carries a message, and which messages the server takes.\<close>

definition frame_bytes :: "pubkey list \<Rightarrow> bytes \<Rightarrow> bytes" where
  "frame_bytes tos payload =
     of_nat (length tos) # concat tos @ be_put_uint32 (of_nat (length payload)) @ payload"

definition frame_ok :: "int \<Rightarrow> pubkey list \<Rightarrow> bytes \<Rightarrow> bool" where
  "frame_ok maxDataLen tos payload \<longleftrightarrow>
     1 \<le> length tos \<and> length tos \<le> MaxTargetsPerMessage \<and> distinct tos \<and> list_all is_key tos \<and>
     int (length payload) \<le> maxDataLen \<and> length payload < 2 ^ 32"

lemma build_message_frame: "build_message from tos payload = from @ frame_bytes tos payload"
  by (simp add: build_message_def frame_bytes_def)

lemma frame_ok_parts:
  "frame_ok maxDataLen tos payload \<Longrightarrow> is_key from \<Longrightarrow> message_parts_ok from tos payload"
  by (simp add: frame_ok_def message_parts_ok_def MaxTargetsPerMessage_def)

text \<open>What becomes of a frame built from any list of keys.\<close>

lemma decode_keys:
  assumes "list_all is_key tos" and "length tos \<le> MaxTargetsPerMessage" and "int (length payload) \<le> maxDataLen"
    and "length payload < 2 ^ 32"
  shows "decode_frame maxDataLen (frame_bytes tos payload) EOF =
    (if tos = [] then Inl ErrSkipMessage else if \<not> distinct tos then Inl ErrInvalidMessage else Inr (tos, payload))"
proof -
  let ?rest = "concat tos @ be_put_uint32 (of_nat (length payload)) @ payload"
  have n: "unat (of_nat (length tos) :: byte) = length tos"
    using assms(2) by (intro unat_of_nat_byte) (simp add: MaxTargetsPerMessage_def)
  have v: "unat (of_nat (length payload) :: u32) = length payload"
    using assms(4) by (intro unat_of_nat_u32) simp
  have keys: "\<forall>t \<in> set tos. length t = 32" using assms(1) by (simp add: list_all_iff is_key_def)
  have lc: "length (concat tos) = length tos * 32" by (rule length_concat_const [OF keys])
  have ids: "chunks 32 (length tos) ?rest = tos" by (rule chunks_concat [OF keys refl])
  have d: "drop (length tos * 32) ?rest = be_put_uint32 (of_nat (length payload)) @ payload"
    by (simp only: drop_append lc) (simp add: lc)
  have d4: "drop (length tos * 32 + 4) ?rest = payload"
    by (simp only: drop_append lc length_be_put_uint32) (simp add: lc)
  have "length tos * 32 + 4 \<le> length ?rest" by (simp only: length_append lc) simp
  then show ?thesis using assms n v ids d d4
    by (simp add: frame_bytes_def decode_frame_def Let_def)
qed

lemma decode_frame_bytes:
  "frame_ok maxDataLen tos payload \<Longrightarrow> decode_frame maxDataLen (frame_bytes tos payload) EOF = Inr (tos, payload)"
  by (subst decode_keys) (auto simp: frame_ok_def)

lemma decode_frame_InrD:
  assumes "decode_frame maxDataLen bs e = Inr (ids, body)"
  shows "e = EOF \<and> bs = frame_bytes ids body \<and> frame_ok maxDataLen ids body"
proof -
  obtain x rest where bs: "bs = x # rest" using assms by (cases bs) (auto simp: decode_frame_def)
  let ?k = "unat x * 32"
  note d = assms [unfolded decode_frame_def bs, simplified, unfolded Let_def]
  have long: "?k + 4 \<le> length rest" using d by (auto split: if_splits)
  obtain len where len: "be_uint32 (take 4 (drop ?k rest)) = Inr len"
    using be_uint32_total [of "take 4 (drop ?k rest)"] long by auto
  note d' = d [unfolded len sum.case]
  have c: "unat x \<noteq> 0" "unat x \<le> MaxTargetsPerMessage" "distinct ids" "ids = chunks 32 (unat x) rest"
    "body = drop (?k + 4) rest" "int (unat len) \<le> maxDataLen" "length body = unat len" "e = EOF"
    using d' by (auto split: if_splits)
  have "list_all is_key ids"
    using length_in_chunks [of "take ?k rest" "unat x" 32] long
    by (auto simp: c(4) list_all_iff is_key_def chunks_take)
  moreover have "unat len < 2 ^ 32" using unsigned_less [of len, where ?'a = nat] by simp
  moreover have "bs = frame_bytes ids body"
    using header_of_chunks [OF long len] c(4,5,7) append_take_drop_id [of "?k + 4" rest]
    by (simp add: bs frame_bytes_def)
  ultimately show ?thesis using c by (simp add: frame_ok_def)
qed

subsection \<open>Properties\<close>

text \<open>
  The duplicate check answers whether some 32-byte id occurs twice in the list, and
  never reads outside it.
\<close>

theorem has_duplicate_target_correct:
  assumes "length toIDs = n * 32"
  shows "hasDuplicateTarget toIDs n = Inr (\<exists>i j. i < j \<and> j < n \<and>
    take 32 (drop (i * 32) toIDs) = take 32 (drop (j * 32) toIDs))"
proof -
  have "(\<not> distinct (chunks 32 n toIDs)) = (\<exists>i j. i < j \<and> j < n \<and>
    take 32 (drop (i * 32) toIDs) = take 32 (drop (j * 32) toIDs))"
    (is "?l = (\<exists>i j. ?r i j)")
  proof
    assume ?l
    then obtain i j where ij: "i < n" "j < n" "i \<noteq> j" "chunks 32 n toIDs ! i = chunks 32 n toIDs ! j"
      by (auto simp: distinct_conv_nth)
    then have "?r i j \<or> ?r j i" by (cases "i < j") auto
    then show "\<exists>i j. ?r i j" by blast
  next
    assume "\<exists>i j. ?r i j"
    then obtain i j where ij: "i < j" "j < n" "chunks 32 n toIDs ! i = chunks 32 n toIDs ! j" by auto
    then show ?l using nth_eq_iff_index_eq [of "chunks 32 n toIDs" i j] by auto
  qed
  then show ?thesis by (simp add: hasDuplicateTarget_eq [OF assms])
qed

theorem has_duplicate_target_correct_witness:
  "hasDuplicateTarget (replicate 64 1) 2 = Inr (\<exists>i j. i < j \<and> j < 2 \<and>
    take 32 (drop (i * 32) (replicate 64 1)) = take 32 (drop (j * 32) (replicate 64 (1 :: byte))))"
  by (rule has_duplicate_target_correct) simp

text \<open>
  C10 (equivalence): for every conforming reader that does not idle, in whatever pieces it delivers the
  frame, and every allocator that does not fail, \<open>readMessageWithFixedFromID\<close> returns the verdict of
  the wire format on the whole frame. On acceptance it hands out a new buffer, held once, whose bytes
  are the message with the authenticated sender in front; on an error no buffer is left held; no
  other buffer is touched.
\<close>

theorem read_message_decodes:
  assumes "io_reader read stream ending patience" and "patience r = 0"
    and "malloc_ok malloc" and "\<forall>m n. malloc m n \<noteq> None"
    and "is_key fromID" and "mem_ok m"
  shows "\<exists>res r' m'. readMessageWithFixedFromID read malloc maxDataLen fromID r m = Some (Inr (res, r', m')) \<and>
    mem_ok m' \<and> refs_of m (next_buf m) = None \<and>
    (\<forall>b. b \<noteq> next_buf m \<longrightarrow> refs_of m' b = refs_of m b \<and> content_of m' b = content_of m b) \<and>
    (case decode_frame maxDataLen (stream r) (ending r) of
       Inl e \<Rightarrow> res = Inl e \<and> refs_of m' (next_buf m) \<in> {None, Some 0}
     | Inr (ids, body) \<Rightarrow> res = Inr (next_buf m) \<and> refs_of m' (next_buf m) = Some 1 \<and>
         content_of m' (next_buf m) = Some (build_message fromID ids body))"
proof -
  let ?v = "decode_frame maxDataLen (stream r) (ending r)"
  obtain res r' m' where
    run: "readMessageWithFixedFromID read malloc maxDataLen fromID r m = Some (Inr (res, r', m'))"
    and s: "(\<exists>e. ?v = Inl e) \<and> res = Inl (projl ?v) \<and> m' = m \<or> settled m (frame_message fromID ?v) ?v res m'"
    using io_reader.read_message_total [OF assms(1,2,5,3,6) refl assms(4), of maxDataLen] by blast
  have fresh: "refs_of m (next_buf m) = None" using assms(6) by (rule refs_of_fresh)
  have "mem_ok m' \<and> (\<forall>b. b \<noteq> next_buf m \<longrightarrow> refs_of m' b = refs_of m b \<and> content_of m' b = content_of m b) \<and>
    (case ?v of
       Inl e \<Rightarrow> res = Inl e \<and> refs_of m' (next_buf m) \<in> {None, Some 0}
     | Inr (ids, body) \<Rightarrow> res = Inr (next_buf m) \<and> refs_of m' (next_buf m) = Some 1 \<and>
         content_of m' (next_buf m) = Some (build_message fromID ids body))"
  proof (cases ?v)
    case (Inl e)
    with s fresh assms(6) show ?thesis by (auto simp: mem_plus_def)
  next
    case (Inr p)
    with s show ?thesis by (cases p) (auto simp: mem_plus_def)
  qed
  with run fresh show ?thesis by blast
qed

theorem read_message_decodes_witness:
  "let r = \<lparr>frags = [[1, 7], replicate 30 7 @ [7, 0, 0], [0, 2], [65, 66]], final = EOF, eager = True\<rparr>;
      m = empty_mem LinuxCgo in
    \<exists>res r' m'. readMessageWithFixedFromID frag_read bump_malloc 4 zero_key r m = Some (Inr (res, r', m')) \<and>
    mem_ok m' \<and> refs_of m (next_buf m) = None \<and>
    (\<forall>b. b \<noteq> next_buf m \<longrightarrow> refs_of m' b = refs_of m b \<and> content_of m' b = content_of m b) \<and>
    (case decode_frame 4 (concat (frags r)) (final r) of
       Inl e \<Rightarrow> res = Inl e \<and> refs_of m' (next_buf m) \<in> {None, Some 0}
     | Inr (ids, body) \<Rightarrow> res = Inr (next_buf m) \<and> refs_of m' (next_buf m) = Some 1 \<and>
         content_of m' (next_buf m) = Some (build_message zero_key ids body))"
  unfolding Let_def
  by (rule read_message_decodes [OF frag.io_reader_axioms]) (simp_all add: frag_patience_def bump_malloc_def)

text \<open>Two well-formed messages from one sender with the same bytes are the same.\<close>

lemma frame_bytes_inj:
  assumes "frame_bytes tos payload = frame_bytes ids body"
    and "list_all is_key tos" "length tos < 256" and "list_all is_key ids" "length ids < 256"
  shows "tos = ids \<and> payload = body"
proof -
  have "unat (of_nat (length tos) :: byte) = unat (of_nat (length ids) :: byte)"
    and rest: "concat tos @ be_put_uint32 (of_nat (length payload)) @ payload =
      concat ids @ be_put_uint32 (of_nat (length body)) @ body"
    using assms(1) by (simp_all add: frame_bytes_def)
  then have n: "length tos = length ids" using assms(3,5) by (simp add: unat_of_nat_byte)
  have keys: "\<forall>t \<in> set tos. length t = 32" "\<forall>t \<in> set ids. length t = 32"
    using assms(2,4) by (simp_all add: list_all_iff is_key_def)
  have "tos = ids"
    using arg_cong [OF rest, of "chunks 32 (length ids)"] chunks_concat [OF keys(1) n [symmetric]]
      chunks_concat [OF keys(2) refl] by metis
  with rest show ?thesis by (simp add: append_eq_append_conv)
qed

text \<open>
  C21 (roundtrip): the wire format of \<open>readMessageWithFixedFromID\<close> is unambiguous and complete: from a reader
  that does not idle and with memory to be had, it returns the message with recipients \<open>tos\<close> and payload
  \<open>payload\<close> under the sender's key exactly when what it reads is, byte for byte, the encoding of that message
  and then the end, and the message is valid: one to ten distinct recipients and a payload within the limit.
\<close>

theorem frame_accepted_iff:
  assumes "io_reader read stream ending patience" and "patience r = 0"
    and "malloc_ok malloc" and "\<forall>m n. malloc m n \<noteq> None"
    and "is_key fromID" and "mem_ok m" and "list_all is_key tos" and "length tos < 256"
  shows "(\<exists>b r' m'. readMessageWithFixedFromID read malloc maxDataLen fromID r m = Some (Inr (Inr b, r', m')) \<and>
      content_of m' b = Some (build_message fromID tos payload)) \<longleftrightarrow>
    stream r = frame_bytes tos payload \<and> ending r = EOF \<and> frame_ok maxDataLen tos payload"
proof -
  let ?v = "decode_frame maxDataLen (stream r) (ending r)"
  obtain res r' m' where run: "readMessageWithFixedFromID read malloc maxDataLen fromID r m = Some (Inr (res, r', m'))"
    and s: "(\<exists>e. ?v = Inl e) \<and> res = Inl (projl ?v) \<and> m' = m \<or> settled m (frame_message fromID ?v) ?v res m'"
    using io_reader.read_message_total [OF assms(1,2,5,3,6) refl assms(4), of maxDataLen] by blast
  show ?thesis
  proof (cases ?v)
    case (Inl e)
    then have "res = Inl e" using s by auto
    moreover have "\<not> (stream r = frame_bytes tos payload \<and> ending r = EOF \<and> frame_ok maxDataLen tos payload)"
      using Inl decode_frame_bytes by fastforce
    ultimately show ?thesis using run by auto
  next
    case (Inr p)
    obtain ids body where p: "p = (ids, body)" by (cases p)
    with Inr have v: "ending r = EOF" "stream r = frame_bytes ids body" "frame_ok maxDataLen ids body"
      using decode_frame_InrD by blast+
    have "res = Inr (next_buf m)" "content_of m' (next_buf m) = Some (build_message fromID ids body)"
      using s Inr p by (auto simp: mem_plus_def)
    moreover have "build_message fromID ids body = build_message fromID tos payload \<longleftrightarrow> ids = tos \<and> body = payload"
      using frame_bytes_inj [of ids body tos payload] v(3) assms(7,8)
      by (auto simp: build_message_frame frame_ok_def MaxTargetsPerMessage_def)
    moreover have "frame_bytes ids body = frame_bytes tos payload \<longleftrightarrow> ids = tos \<and> body = payload"
      using frame_bytes_inj [of ids body tos payload] v(3) assms(7,8)
      by (auto simp: frame_ok_def MaxTargetsPerMessage_def)
    ultimately show ?thesis using run v by auto
  qed
qed

theorem frame_accepted_iff_witness:
  "let r = \<lparr>frags = [[1] @ replicate 30 7, [7, 7, 0, 0, 0, 2, 65], [66]], final = EOF, eager = False\<rparr>; m = empty_mem LinuxCgo;
       tos = [replicate 32 7] in
   (\<exists>b r' m'. readMessageWithFixedFromID frag_read bump_malloc 4 zero_key r m = Some (Inr (Inr b, r', m')) \<and>
      content_of m' b = Some (build_message zero_key tos [65, 66])) \<longleftrightarrow>
    concat (frags r) = frame_bytes tos [65, 66] \<and> final r = EOF \<and> frame_ok 4 tos [65, 66]"
  unfolding Let_def
  by (rule frame_accepted_iff [OF frag.io_reader_axioms]) (simp_all add: frag_patience_def bump_malloc_def is_key_def zero_key_def)

text \<open>
  C22 (safety): on hostile input from any conforming reader, idling or not, and with an allocator that may
  fail, the parser always returns; the only panic it can end in is the one for want of memory, after the
  allocator refused a block; an error leaves no buffer held and acceptance exactly one, held once, with the
  bytes of a message the wire format accepts; no other buffer is touched.
\<close>

theorem read_message_safe:
  assumes "io_reader read stream ending patience" and "malloc_ok malloc" and "is_key fromID" and "mem_ok m"
  shows "\<exists>out. readMessageWithFixedFromID read malloc maxDataLen fromID r m = Some out \<and>
    (case out of
       Inl e \<Rightarrow> e = OutOfMemory \<and> (\<exists>n. malloc m n = None)
     | Inr (res, r', m') \<Rightarrow>
         (\<forall>b. b \<noteq> next_buf m \<longrightarrow> refs_of m' b = refs_of m b \<and> content_of m' b = content_of m b) \<and>
         (case res of
            Inl e \<Rightarrow> refs_of m' (next_buf m) \<in> {None, Some 0}
          | Inr b \<Rightarrow> b = next_buf m \<and> refs_of m' b = Some 1 \<and>
              (case decode_frame maxDataLen (stream r) (ending r) of
                 Inl e \<Rightarrow> False
               | Inr (ids, body) \<Rightarrow> content_of m' b = Some (build_message fromID ids body))))"
proof -
  let ?v = "decode_frame maxDataLen (stream r) (ending r)"
  have fresh: "refs_of m (next_buf m) = None" using assms(4) by (rule refs_of_fresh)
  from io_reader.read_message_near [OF assms(1,3,2,4) refl, of maxDataLen r] consider
    (oom) "readMessageWithFixedFromID read malloc maxDataLen fromID r m = Some (Inl OutOfMemory)" "\<exists>n. malloc m n = None"
  | (refused) e r' where "readMessageWithFixedFromID read malloc maxDataLen fromID r m = Some (Inr (Inl e, r', m))"
  | (settled) w res r' m' where "readMessageWithFixedFromID read malloc maxDataLen fromID r m = Some (Inr (res, r', m'))"
      "near (patience r) ?v w" "settled m (frame_message fromID ?v) w res m'"
    by (elim disjE conjE exE) (blast, simp_all)
  then show ?thesis
  proof cases
    case settled
    show ?thesis
    proof (cases w)
      case (Inl e)
      with settled show ?thesis by (auto simp: mem_plus_def)
    next
      case (Inr p)
      then have "?v = Inr p" using settled(2) by (auto simp: near_def)
      with Inr settled show ?thesis by (cases p) (auto simp: mem_plus_def)
    qed
  qed (simp_all add: fresh)
qed

theorem read_message_safe_witness:
  "let r = \<lparr>frags = [[1] @ replicate 32 7, [0, 0, 0], [0], []], final = EOF, eager = False\<rparr>; m = empty_mem LinuxCgo in
   \<exists>out. readMessageWithFixedFromID frag_read bump_malloc 4 zero_key r m = Some out \<and>
    (case out of
       Inl e \<Rightarrow> e = OutOfMemory \<and> (\<exists>n. bump_malloc m n = None)
     | Inr (res, r', m') \<Rightarrow>
         (\<forall>b. b \<noteq> next_buf m \<longrightarrow> refs_of m' b = refs_of m b \<and> content_of m' b = content_of m b) \<and>
         (case res of
            Inl e \<Rightarrow> refs_of m' (next_buf m) \<in> {None, Some 0}
          | Inr b \<Rightarrow> b = next_buf m \<and> refs_of m' b = Some 1 \<and>
              (case decode_frame 4 (concat (frags r)) (final r) of
                 Inl e \<Rightarrow> False
               | Inr (ids, body) \<Rightarrow> content_of m' b = Some (build_message zero_key ids body))))"
  unfolding Let_def
  by (rule read_message_safe [OF frag.io_reader_axioms]) simp_all

end
