(* ===== verification/Core_Protocol.thy ===== *)
theory Core_Protocol
  imports Core_Message
begin

section \<open>internal/core/protocol.go and connector.go: routing primitives\<close>

text \<open>
  \<open>ExtractTargets\<close> and \<open>DeliverTo\<close>, the two primitives every \<open>App\<close> builds its routing on, and the
  \<open>Connector\<close> interface \<open>DeliverTo\<close> pushes to. A \<open>Connector\<close> value is a reference of type \<open>'c\<close> into a
  store of connectors of type \<open>'s\<close>; its method \<open>SafePush\<close> is an argument of \<open>DeliverTo\<close>, as the
  receiver of an interface call is.
\<close>

subsection \<open>ExtractTargets\<close>

text \<open>
  The loop over \<open>i\<close> from 0 to \<open>nTo\<close>: \<open>dst\<close> is the caller's fixed-size array, written in place at \<open>n\<close>;
  a write past its end panics.
\<close>

fun extract_loop ::
  "message \<Rightarrow> pubkey \<Rightarrow> nat list \<Rightarrow> nat \<Rightarrow> pubkey list \<Rightarrow> (nat \<times> pubkey list) res" where
  "extract_loop msg self [] n dst = Inr (n, dst)"
| "extract_loop msg self (i # rest) n dst =
     bind_res (ToIDAt msg (int i)) (\<lambda>id.
       if id = self then extract_loop msg self rest n dst
       else if n < length dst then extract_loop msg self rest (Suc n) (dst[n := id])
       else Inl IndexOutOfRange)"

definition ExtractTargets :: "message \<Rightarrow> pubkey \<Rightarrow> pubkey list \<Rightarrow> (nat \<times> pubkey list) res" where
  "ExtractTargets msg self dst =
     (let nTo = unat (ToIDsLen msg);
          nTo = (if nTo > MaxTargetsPerMessage then MaxTargetsPerMessage else nTo)
      in extract_loop msg self [0..<nTo] 0 dst)"

text \<open>What it computes: the declared recipients, at most ten, without the sender, in order.\<close>

definition targets_of :: "message \<Rightarrow> pubkey \<Rightarrow> pubkey list" where
  "targets_of msg self =
     filter (\<lambda>id. id \<noteq> self)
       (map (id_at msg) [0..<min MaxTargetsPerMessage (unat (ToIDsLen msg))])"

lemma extract_loop_eq:
  assumes "n + length is \<le> length dst"
  shows "extract_loop msg self is n dst =
    (let ts = filter (\<lambda>id. id \<noteq> self) (map (id_at msg) is) in
     Inr (n + length ts, take n dst @ ts @ drop (n + length ts) dst))"
  using assms
proof (induction "is" arbitrary: n dst)
  case (Cons i rest)
  show ?case
  proof (cases "id_at msg i = self")
    case True
    with Cons show ?thesis by (simp add: ToIDAt_eq)
  next
    case False
    let ?dst = "dst[n := id_at msg i]"
    have n: "n < length dst" using Cons.prems by simp
    have "take (Suc n) ?dst = take n dst @ [id_at msg i]"
      using n by (simp add: take_Suc_conv_app_nth)
    moreover have "extract_loop msg self rest (Suc n) ?dst =
      (let ts = filter (\<lambda>id. id \<noteq> self) (map (id_at msg) rest) in
       Inr (Suc n + length ts, take (Suc n) ?dst @ ts @ drop (Suc n + length ts) ?dst))"
      by (rule Cons.IH) (use Cons.prems in simp)
    ultimately show ?thesis
      using False n by (simp add: ToIDAt_eq Let_def)
  qed
qed simp

lemma ExtractTargets_eq:
  assumes "length dst = MaxTargetsPerMessage"
  shows "ExtractTargets msg self dst =
    Inr (length (targets_of msg self),
         targets_of msg self @ drop (length (targets_of msg self)) dst)"
proof -
  let ?k = "min MaxTargetsPerMessage (unat (ToIDsLen msg))"
  have "(if unat (ToIDsLen msg) > MaxTargetsPerMessage then MaxTargetsPerMessage
         else unat (ToIDsLen msg)) = ?k" by simp
  moreover have "0 + length [0..<?k] \<le> length dst" using assms by simp
  ultimately show ?thesis
    using extract_loop_eq [of 0 "[0..<?k]" dst msg self]
    by (simp add: ExtractTargets_def targets_of_def Let_def)
qed

lemma length_targets_of: "length (targets_of msg self) \<le> MaxTargetsPerMessage"
  unfolding targets_of_def
  by (rule order_trans [OF length_filter_le]) simp

lemma self_not_target: "self \<notin> set (targets_of msg self)"
  by (simp add: targets_of_def)

lemma targets_are_keys: "t \<in> set (targets_of msg self) \<Longrightarrow> is_key t"
  by (auto simp: targets_of_def)

lemma targets_of_build:
  assumes ok: "message_parts_ok from tos payload"
  shows "targets_of (build_message from tos payload) self =
    filter (\<lambda>id. id \<noteq> self) (take MaxTargetsPerMessage tos)"
proof -
  let ?m = "build_message from tos payload"
  have "map (id_at ?m) [0..<min MaxTargetsPerMessage (length tos)] = take MaxTargetsPerMessage tos"
    by (rule nth_equalityI) (simp_all add: id_at_build [OF ok])
  then show ?thesis by (simp add: targets_of_def unat_ToIDsLen_build [OF ok])
qed

subsection \<open>The Connector interface\<close>

text \<open>
  What \<open>connector.go\<close> asks of an implementation. \<open>queued\<close> is the abstract view of a connector: the
  messages it has accepted and not yet consumed. In a good store an operation on a known connector
  does not panic; \<open>SafePush\<close> either appends its message to that queue or changes nothing and returns
  false; after \<open>Close\<close> it always returns false; \<open>Close\<close> may be called again; no operation on one
  connector touches another.
\<close>

locale connector =
  fixes push :: "'c \<Rightarrow> out_message \<Rightarrow> 's \<Rightarrow> (bool \<times> 's) res"
    and close :: "'c \<Rightarrow> 's \<Rightarrow> 's res"
    and queued :: "'s \<Rightarrow> 'c \<Rightarrow> out_message list"
    and closed :: "'s \<Rightarrow> 'c \<Rightarrow> bool"
    and known :: "'s \<Rightarrow> 'c \<Rightarrow> bool"
    and good :: "'s \<Rightarrow> bool"
  assumes push_total: "good s \<Longrightarrow> known s c \<Longrightarrow> \<exists>ok s'. push c m s = Inr (ok, s') \<and> good s'"
    and push_accepts: "push c m s = Inr (True, s') \<Longrightarrow>
      queued s' = (queued s)(c := queued s c @ [m]) \<and> closed s' = closed s \<and> known s' = known s"
    and push_drops: "push c m s = Inr (False, s') \<Longrightarrow> s' = s"
    and push_closed: "closed s c \<Longrightarrow> push c m s \<noteq> Inr (True, s')"
    and close_total: "good s \<Longrightarrow> known s c \<Longrightarrow> \<exists>s'. close c s = Inr s' \<and> good s'"
    and close_closes: "close c s = Inr s' \<Longrightarrow> closed s' c \<and> queued s' = queued s \<and> known s' = known s"
    and close_frame: "close c s = Inr s' \<Longrightarrow> c' \<noteq> c \<Longrightarrow> closed s' c' = closed s c'"
    and close_again: "close c s = Inr s' \<Longrightarrow> close c s' = Inr s'"

subsection \<open>DeliverTo\<close>

definition DeliverTo ::
  "('c \<Rightarrow> out_message \<Rightarrow> 's \<Rightarrow> (bool \<times> 's) res) \<Rightarrow> 'c \<Rightarrow> out_message \<Rightarrow> mem \<Rightarrow> 's \<Rightarrow>
    (bool \<times> mem \<times> 's) res" where
  "DeliverTo push dest m h s =
     (case Buf m of
        None \<Rightarrow> Inl NilDeref
      | Some b \<Rightarrow>
          bind_res (Retain b h) (\<lambda>h1.
          bind_res (push dest m s) (\<lambda>(ok, s').
            if ok then Inr (True, h1, s')
            else bind_res (Release b h1) (\<lambda>h2. Inr (False, h2, s')))))"

text \<open>
  On a buffer somebody owns, \<open>DeliverTo\<close> faults only if the push does, leaves the contents of all
  buffers alone, and changes the count by exactly the reference the queue now holds.
\<close>

lemma DeliverTo_ok:
  assumes "Buf m = Some b" and "mem_ok h" and "refs_of h b = Some n" and "0 < n" and "n < 2147483647"
    and p: "push dest m s = Inr (ok, s')"
  shows "\<exists>h'. DeliverTo push dest m h s = Inr (ok, h', s') \<and>
    mem_ok h' \<and> content_of h' = content_of h \<and> next_buf h' = next_buf h \<and> goos h' = goos h \<and>
    refs_of h' = (refs_of h)(b \<mapsto> (if ok then n + 1 else n))"
proof -
  obtain h1 where h1: "Retain b h = Inr h1" "mem_ok h1" "refs_of h1 = (refs_of h)(b \<mapsto> n + 1)"
    "content_of h1 = content_of h" "next_buf h1 = next_buf h" "goos h1 = goos h"
    using Retain_ok [OF assms(2-5)] by blast
  have "refs_of h1 b = Some (n + 1)" using h1(3) by simp
  then obtain h2 where h2: "Release b h1 = Inr h2" "mem_ok h2" "refs_of h2 = (refs_of h)(b \<mapsto> n)"
    "content_of h2 = content_of h1" "next_buf h2 = next_buf h" "goos h2 = goos h"
    using Release_ok [OF h1(2), of b "n + 1"] h1(3,5,6) assms(4) by auto
  show ?thesis
    using assms(1) h1 h2 p by (cases ok) (auto simp: DeliverTo_def)
qed

text \<open>How many references to a buffer a queue holds.\<close>

definition held :: "baddr \<Rightarrow> out_message list \<Rightarrow> nat" where
  "held b q = length (filter (\<lambda>m. Buf m = Some b) q)"

lemma held_simps [simp]:
  "held b [] = 0"
  "held b (m # q) = (if Buf m = Some b then Suc (held b q) else held b q)"
  "held b (q @ q') = held b q + held b q'"
  by (auto simp: held_def)

context connector
begin

text \<open>
  For any connector that keeps the interface: the references a delivery adds to the buffer are the
  references the destination's queue gained, the other queues are as before, and a closed
  connector costs nothing.
\<close>

lemma deliver_balance:
  assumes "Buf m = Some b" and "mem_ok h" and "refs_of h b = Some n" and "0 < n" and "n < 2147483647"
    and "good s" and "known s dest"
  obtains ok h' s' where "DeliverTo push dest m h s = Inr (ok, h', s')"
    and "refs_of h' = (refs_of h)(b \<mapsto> n + int (held b (queued s' dest)) - int (held b (queued s dest)))"
    and "queued s' = (queued s)(dest := queued s dest @ (if ok then [m] else []))"
    and "content_of h' = content_of h" and "mem_ok h'" and "next_buf h' = next_buf h" and "goos h' = goos h"
    and "good s'" and "closed s dest \<Longrightarrow> \<not> ok"
proof -
  obtain ok s' where p: "push dest m s = Inr (ok, s')" "good s'"
    using push_total [OF assms(6,7), of m] by blast
  have q: "queued s' = (queued s)(dest := queued s dest @ (if ok then [m] else []))"
    using p push_accepts [of dest m s s'] push_drops [of dest m s s'] by (cases ok) simp_all
  have cl: "closed s dest \<Longrightarrow> \<not> ok" using push_closed [of s dest m s'] p by auto
  obtain h' where h': "DeliverTo push dest m h s = Inr (ok, h', s')" "mem_ok h'"
    "content_of h' = content_of h" "next_buf h' = next_buf h" "goos h' = goos h"
    "refs_of h' = (refs_of h)(b \<mapsto> (if ok then n + 1 else n))"
    using DeliverTo_ok [where push = push and dest = dest and m = m and s = s and h = h, OF assms(1-5) p(1)] by auto
  have n': "(if ok then n + 1 else n) = n + int (held b (queued s' dest)) - int (held b (queued s dest))"
    using q assms(1) by simp
  show thesis by (rule that [OF h'(1) _ q h'(3,2,4,5) p(2) cl]) (simp only: h'(6) n')
qed

end

subsection \<open>Properties\<close>

text \<open>
  C23 (functional): on any bytes and a destination array of the required size, \<open>ExtractTargets\<close> never
  writes out of range (even when the declared count exceeds the array): it returns the number of
  targets and writes them, in order, to the front of the array: the declared recipients clamped to
  \<open>MaxTargetsPerMessage\<close>, without the sender, the rest of the array untouched.
\<close>

theorem extract_targets_correct:
  assumes "length dst = MaxTargetsPerMessage"
  shows "\<exists>n dst'. ExtractTargets msg self dst = Inr (n, dst') \<and>
    n \<le> MaxTargetsPerMessage \<and> length dst' = MaxTargetsPerMessage \<and>
    take n dst' = filter (\<lambda>id. id \<noteq> self)
      (map (id_at msg) [0..<min MaxTargetsPerMessage (unat (ToIDsLen msg))]) \<and>
    drop n dst' = drop n dst \<and> self \<notin> set (take n dst')"
  using ExtractTargets_eq [OF assms, of msg self] length_targets_of [of msg self] assms
  by (auto simp: targets_of_def)

theorem extract_targets_correct_witness:
  "let msg = build_message zero_key [replicate 32 1, replicate 32 2] []; self = replicate 32 2;
       dst = replicate 10 zero_key in
    \<exists>n dst'. ExtractTargets msg self dst = Inr (n, dst') \<and>
    n \<le> MaxTargetsPerMessage \<and> length dst' = MaxTargetsPerMessage \<and>
    take n dst' = filter (\<lambda>id. id \<noteq> self)
      (map (id_at msg) [0..<min MaxTargetsPerMessage (unat (ToIDsLen msg))]) \<and>
    drop n dst' = drop n dst \<and> self \<notin> set (take n dst')"
  unfolding Let_def by (rule extract_targets_correct) (simp add: MaxTargetsPerMessage_def)

text \<open>
  C24 (invariant): \<open>DeliverTo\<close> of a buffer somebody owns to a connector whose push returns never faults
  and manages only the reference it makes itself: the count rises by one when the destination
  accepted the message and is unchanged when it was dropped, and no bytes change. On a message
  without a buffer it panics before pushing.
\<close>

theorem deliver_to_balanced:
  assumes "mem_ok h" and "refs_of h b = Some n" and "0 < n" and "n < 2147483647"
    and "push dest \<lparr>RecvTime = t, Buf = Some b\<rparr> s = Inr (ok, s')"
  shows "\<exists>h'. DeliverTo push dest \<lparr>RecvTime = t, Buf = Some b\<rparr> h s = Inr (ok, h', s') \<and>
    mem_ok h' \<and> content_of h' = content_of h \<and>
    refs_of h' = (refs_of h)(b \<mapsto> (if ok then n + 1 else n)) \<and>
    DeliverTo push dest \<lparr>RecvTime = t, Buf = None\<rparr> h s = Inl NilDeref"
proof -
  obtain h' where "DeliverTo push dest \<lparr>RecvTime = t, Buf = Some b\<rparr> h s = Inr (ok, h', s')"
    "mem_ok h'" "content_of h' = content_of h"
    "refs_of h' = (refs_of h)(b \<mapsto> (if ok then n + 1 else n))"
    using DeliverTo_ok [of "\<lparr>RecvTime = t, Buf = Some b\<rparr>" b h n push dest s ok s'] assms by auto
  then show ?thesis by (auto simp: DeliverTo_def)
qed

theorem deliver_to_balanced_witness:
  "let push = (\<lambda>c m s. Inr (c, s + 1)); h = heap_with [1]; s = 0 :: nat in
    \<exists>h'. DeliverTo push True \<lparr>RecvTime = 5, Buf = Some 0\<rparr> h s = Inr (True, h', 1) \<and>
    mem_ok h' \<and> content_of h' = content_of h \<and>
    refs_of h' = (refs_of h)(0 \<mapsto> (if True then 1 + 1 else 1)) \<and>
    DeliverTo push True \<lparr>RecvTime = 5, Buf = None\<rparr> h s = Inl NilDeref"
  using deliver_to_balanced [of "heap_with [1]" 0 1 "\<lambda>c m s. Inr (c, s + 1)" True 5 "0 :: nat" True 1]
  by (simp only: Let_def) simp

end
