(* ===== verification/WS_Connector.thy ===== *)
theory WS_Connector
  imports Core_Protocol
begin

section \<open>internal/network: the WebSocket connector\<close>

text \<open>
  \<open>WSConnector\<close> with its bounded outbound channel. \<open>mu\<close> makes the check of \<open>isClosed\<close> together
  with the send (\<open>SafePush\<close>), and the setting of \<open>isClosed\<close> together with the close of the channel
  (\<open>Close\<close>), atomic, so each is a function of the connector. The channel keeps its own closed flag:
  a send on, or a second close of, a closed channel is the panic it is in Go. The WebSocket
  connection is a library object: the record keeps the status codes it was closed with.
\<close>

datatype status_code = StatusNormalClosure | StatusMessageTooBig | StatusUnsupportedData

record wsconn =
  cpub :: pubkey
  outChan :: "out_message list"
  outCap :: nat
  chanClosed :: bool
  isClosed :: bool
  connCloses :: "status_code list"

text \<open>
  \<open>make(chan core.OutMessage, outBufSize)\<close>: the default size for a size that is not positive, and a panic
  when the buffer of 32-byte elements and the channel's header are more than the run time allocates.
\<close>

definition queue_fits :: "int \<Rightarrow> bool" where
  "queue_fits outBufSize \<longleftrightarrow> makes 32 (if outBufSize \<le> 0 then 256 else outBufSize) 96"

definition new_wsconn :: "pubkey \<Rightarrow> int \<Rightarrow> wsconn" where
  "new_wsconn pubKey outBufSize =
     (let outBufSize = (if outBufSize \<le> 0 then 256 else outBufSize) in
      \<lparr>cpub = pubKey, outChan = [], outCap = nat outBufSize, chanClosed = False,
       isClosed = False, connCloses = []\<rparr>)"

definition NewWSConnector :: "pubkey \<Rightarrow> int \<Rightarrow> wsconn res" where
  "NewWSConnector pubKey outBufSize =
     (if queue_fits outBufSize then Inr (new_wsconn pubKey outBufSize) else Inl InvalidArgument)"

definition ID :: "wsconn \<Rightarrow> pubkey" where
  "ID c = cpub c"

definition SafePush :: "out_message \<Rightarrow> wsconn \<Rightarrow> (bool \<times> wsconn) res" where
  "SafePush msg c =
     (if isClosed c then Inr (False, c)
      else if chanClosed c then Inl SendOnClosedChan
      else if length (outChan c) < outCap c then Inr (True, c\<lparr>outChan := outChan c @ [msg]\<rparr>)
      else Inr (False, c))"

definition Close_conn :: "wsconn \<Rightarrow> wsconn res" where
  "Close_conn c =
     (if isClosed c then Inr c
      else if chanClosed c then Inl CloseOfClosedChan
      else Inr (c\<lparr>isClosed := True, chanClosed := True,
                  connCloses := connCloses c @ [StatusNormalClosure]\<rparr>))"

text \<open>One receive of \<open>range c.outChan\<close>: a message, the end of a closed channel, or a wait.\<close>

datatype received = Received out_message | Finished | WouldBlock

definition recv :: "wsconn \<Rightarrow> received \<times> wsconn" where
  "recv c =
     (case outChan c of
        m # q \<Rightarrow> (Received m, c\<lparr>outChan := q\<rparr>)
      | [] \<Rightarrow> (if chanClosed c then Finished else WouldBlock, c))"

definition conn_ok :: "wsconn \<Rightarrow> bool" where
  "conn_ok c \<longleftrightarrow> isClosed c = chanClosed c \<and> length (outChan c) \<le> outCap c \<and> 0 < outCap c"

lemma conn_ok_new [simp]: "conn_ok (new_wsconn k n)"
  by (simp add: conn_ok_def new_wsconn_def Let_def)

lemma SafePush_cases:
  assumes "conn_ok c"
  obtains "SafePush m c = Inr (False, c)" and "isClosed c \<or> length (outChan c) = outCap c"
  | "SafePush m c = Inr (True, c\<lparr>outChan := outChan c @ [m]\<rparr>)"
    and "\<not> isClosed c" and "conn_ok (c\<lparr>outChan := outChan c @ [m]\<rparr>)"
  using assms by (cases "isClosed c"; cases "length (outChan c) < outCap c")
    (auto simp: SafePush_def conn_ok_def)

lemma SafePush_True:
  "SafePush m c = Inr (True, c') \<Longrightarrow> c' = c\<lparr>outChan := outChan c @ [m]\<rparr> \<and> \<not> isClosed c \<and> \<not> chanClosed c"
  by (auto simp: SafePush_def split: if_splits)

lemma SafePush_False: "SafePush m c = Inr (False, c') \<Longrightarrow> c' = c"
  by (auto simp: SafePush_def split: if_splits)

lemma Close_conn_ok:
  assumes "conn_ok c"
  shows "\<exists>c'. Close_conn c = Inr c' \<and> conn_ok c' \<and> isClosed c' \<and> outChan c' = outChan c \<and>
    cpub c' = cpub c \<and> outCap c' = outCap c"
  using assms by (auto simp: Close_conn_def conn_ok_def)

lemma Close_conn_Inr:
  "Close_conn c = Inr c' \<Longrightarrow> isClosed c' \<and> outChan c' = outChan c \<and> cpub c' = cpub c"
  by (auto simp: Close_conn_def split: if_splits)

subsection \<open>A store of connectors\<close>

type_synonym conns = "nat \<Rightarrow> wsconn option"

definition push_in :: "nat \<Rightarrow> out_message \<Rightarrow> conns \<Rightarrow> (bool \<times> conns) res" where
  "push_in c m s =
     (case s c of
        None \<Rightarrow> Inl NilDeref
      | Some w \<Rightarrow> bind_res (SafePush m w) (\<lambda>(ok, w'). Inr (ok, s(c \<mapsto> w'))))"

definition close_in :: "nat \<Rightarrow> conns \<Rightarrow> conns res" where
  "close_in c s =
     (case s c of
        None \<Rightarrow> Inl NilDeref
      | Some w \<Rightarrow> bind_res (Close_conn w) (\<lambda>w'. Inr (s(c \<mapsto> w'))))"

definition queued_in :: "conns \<Rightarrow> nat \<Rightarrow> out_message list" where
  "queued_in s c = (case s c of None \<Rightarrow> [] | Some w \<Rightarrow> outChan w)"

definition closed_in :: "conns \<Rightarrow> nat \<Rightarrow> bool" where
  "closed_in s c = (case s c of None \<Rightarrow> True | Some w \<Rightarrow> isClosed w)"

definition known_in :: "conns \<Rightarrow> nat \<Rightarrow> bool" where
  "known_in s c \<longleftrightarrow> s c \<noteq> None"

definition conns_ok :: "conns \<Rightarrow> bool" where
  "conns_ok s \<longleftrightarrow> (\<forall>c w. s c = Some w \<longrightarrow> conn_ok w)"

lemma push_in_eq:
  "push_in c m s = Inr (ok, s') \<longleftrightarrow> (\<exists>w w'. s c = Some w \<and> SafePush m w = Inr (ok, w') \<and> s' = s(c \<mapsto> w'))"
  by (auto simp: push_in_def bind_res_eq_Inr split: option.splits)

lemma close_in_eq:
  "close_in c s = Inr s' \<longleftrightarrow> (\<exists>w w'. s c = Some w \<and> Close_conn w = Inr w' \<and> s' = s(c \<mapsto> w'))"
  by (auto simp: close_in_def bind_res_eq_Inr split: option.splits)

interpretation ws: connector push_in close_in queued_in closed_in known_in conns_ok
proof (unfold_locales, goal_cases)
  case (1 s c m)
  then obtain w where w: "s c = Some w" "conn_ok w" by (auto simp: known_in_def conns_ok_def)
  from w(2) show ?case
  proof (cases rule: SafePush_cases [of w m])
    case 1
    then have "push_in c m s = Inr (False, s(c \<mapsto> w))" using w(1) by (simp add: push_in_eq)
    then show ?thesis using \<open>conns_ok s\<close> w by (auto simp: conns_ok_def)
  next
    case 2
    then have "push_in c m s = Inr (True, s(c \<mapsto> w\<lparr>outChan := outChan w @ [m]\<rparr>))"
      using w(1) by (auto simp: push_in_eq)
    then show ?thesis using \<open>conns_ok s\<close> 2(3) by (auto simp: conns_ok_def)
  qed
next
  case (2 c m s s')
  then show ?case
    by (auto simp: push_in_eq queued_in_def closed_in_def known_in_def intro!: ext dest!: SafePush_True split: if_splits)
next
  case (3 c m s s')
  then show ?case by (auto simp: push_in_eq fun_eq_iff dest!: SafePush_False)
next
  case (4 s c m s')
  then show ?case by (auto simp: push_in_eq closed_in_def dest!: SafePush_True)
next
  case (5 s c)
  then obtain w where w: "s c = Some w" "conn_ok w" by (auto simp: known_in_def conns_ok_def)
  then show ?case using Close_conn_ok [of w] 5(1) by (fastforce simp: close_in_eq conns_ok_def)
next
  case (6 c s s')
  then show ?case
    by (auto simp: close_in_eq closed_in_def queued_in_def known_in_def intro!: ext dest!: Close_conn_Inr split: if_splits)
next
  case (7 c s s' c')
  then show ?case by (auto simp: close_in_eq closed_in_def)
next
  case (8 c s s')
  then obtain w w' where w: "s' c = Some w'" "Close_conn w = Inr w'" by (auto simp: close_in_eq)
  then have "Close_conn w' = Inr w'" by (auto simp: Close_conn_def split: if_splits)
  with w(1) show ?case by (auto simp: close_in_eq fun_eq_iff)
qed

subsection \<open>Properties\<close>

text \<open>A program of calls on one connector, by its producers, its owner and its write pump.\<close>

datatype conn_op = OpPush out_message | OpClose | OpRecv

fun run_conn :: "conn_op list \<Rightarrow> wsconn \<Rightarrow> (out_message list \<times> out_message list \<times> wsconn) res" where
  "run_conn [] c = Inr ([], [], c)"
| "run_conn (OpPush m # ops) c =
     bind_res (SafePush m c) (\<lambda>(ok, c1).
     bind_res (run_conn ops c1) (\<lambda>(accepted, taken, c2). Inr (if ok then m # accepted else accepted, taken, c2)))"
| "run_conn (OpClose # ops) c = bind_res (Close_conn c) (run_conn ops)"
| "run_conn (OpRecv # ops) c =
     (case recv c of
        (Received m, c1) \<Rightarrow>
          bind_res (run_conn ops c1) (\<lambda>(accepted, taken, c2). Inr (accepted, m # taken, c2))
      | (_, c1) \<Rightarrow> run_conn ops c1)"

lemma run_conn_fifo:
  assumes "conn_ok c"
  shows "\<exists>accepted taken c'. run_conn ops c = Inr (accepted, taken, c') \<and> conn_ok c' \<and>
    outChan c @ accepted = taken @ outChan c' \<and> outCap c' = outCap c \<and> (isClosed c \<longrightarrow> accepted = [] \<and> isClosed c')"
  using assms
proof (induction ops arbitrary: c)
  case (Cons op ops)
  show ?case
  proof (cases op)
    case (OpPush m)
    show ?thesis using Cons.prems
    proof (cases rule: SafePush_cases [of c m])
      case 1
      with Cons.IH [OF Cons.prems] OpPush show ?thesis by auto
    next
      case 2
      with Cons.IH [OF 2(3)] OpPush show ?thesis by auto
    qed
  next
    case OpClose
    obtain c1 where "Close_conn c = Inr c1" "conn_ok c1" "isClosed c1" "outChan c1 = outChan c" "outCap c1 = outCap c"
      using Close_conn_ok [OF Cons.prems] by blast
    with Cons.IH [of c1] OpClose show ?thesis by auto
  next
    case OpRecv
    show ?thesis
    proof (cases "outChan c")
      case Nil
      with Cons.IH [OF Cons.prems] OpRecv show ?thesis by (auto simp: recv_def)
    next
      case (Cons m q)
      have "conn_ok (c\<lparr>outChan := q\<rparr>)" using Cons.prems Cons by (simp add: conn_ok_def)
      from Cons.IH [OF this] OpRecv Cons show ?thesis by (auto simp: recv_def)
    qed
  qed
qed simp

text \<open>
  C20 (invariant): a new connector comes to be unless its queue is too large for the run time to allocate,
  and then whatever pushes, closes and receives are made on it, in any order: none panics (no send on a
  closed channel, no second close), the queue never exceeds its capacity, which is the configured size
  or 256, and the messages taken out followed by the ones still queued are exactly the accepted
  ones, in the order they were accepted.
\<close>

theorem connector_fifo_bounded:
  "if queue_fits n
   then \<exists>c0 accepted taken c. NewWSConnector k n = Inr c0 \<and> run_conn ops c0 = Inr (accepted, taken, c) \<and>
     taken @ outChan c = accepted \<and> length (outChan c) \<le> (if n \<le> 0 then 256 else nat n)
   else NewWSConnector k n = Inl InvalidArgument"
proof -
  obtain accepted taken c where *: "run_conn ops (new_wsconn k n) = Inr (accepted, taken, c)" "conn_ok c"
    "outChan (new_wsconn k n) @ accepted = taken @ outChan c" "outCap c = outCap (new_wsconn k n)"
    using run_conn_fifo [OF conn_ok_new] by blast
  then show ?thesis by (auto simp: NewWSConnector_def conn_ok_def new_wsconn_def Let_def)
qed

text \<open>
  Once a connector is closed, every push on it is refused and changes nothing, whatever
  else is called in between; what was queued can still be taken out.
\<close>

lemma closed_connector_refuses:
  assumes "conn_ok c"
  shows "\<exists>taken c'. run_conn (OpClose # ops) c = Inr ([], taken, c') \<and>
    isClosed c' \<and> SafePush m c' = Inr (False, c') \<and> taken @ outChan c' = outChan c"
proof -
  obtain c1 where c1: "Close_conn c = Inr c1" "conn_ok c1" "isClosed c1" "outChan c1 = outChan c"
    using Close_conn_ok [OF assms] by blast
  obtain taken c' where "run_conn ops c1 = Inr ([], taken, c')" "outChan c1 = taken @ outChan c'" "isClosed c'"
    using run_conn_fifo [OF c1(2), of ops] c1(3) by auto
  with c1 show ?thesis by (intro exI [of _ taken] exI [of _ c']) (simp add: SafePush_def)
qed

end
