(* ===== verification/Latency_Stats.thy ===== *)
theory Latency_Stats
  imports Prelude Complex_Main "HOL-Library.Multiset"
begin

section \<open>internal/domains/relayer: latency statistics\<close>

text \<open>
  The part of \<open>Relayer\<close> that aggregates latencies: the buffered channel \<open>RecordLatency\<close> feeds, the
  background worker (Welford's algorithm and a reservoir sample), \<open>Close\<close> and \<open>LatencySnapshot\<close>.
  The mutex \<open>latencyMu\<close> makes one worker iteration and one snapshot atomic, so each is a function
  of the state. Go's \<open>float64\<close> operations are the fields of \<open>float64_ops\<close>, an argument of the
  definitions: what holds for every choice of it does not depend on rounding; \<open>exact\<close> is the choice
  without rounding, on which the statistics are what their names say.
\<close>

record 'f float64_ops =
  f_of_int :: "int \<Rightarrow> 'f"
  f_lit :: "rat \<Rightarrow> 'f"
  f_add :: "'f \<Rightarrow> 'f \<Rightarrow> 'f"
  f_sub :: "'f \<Rightarrow> 'f \<Rightarrow> 'f"
  f_mul :: "'f \<Rightarrow> 'f \<Rightarrow> 'f"
  f_div :: "'f \<Rightarrow> 'f \<Rightarrow> 'f"
  f_sqrt :: "'f \<Rightarrow> 'f"
  f_floor :: "'f \<Rightarrow> 'f"
  f_to_int :: "'f \<Rightarrow> int"
  f_eq :: "'f \<Rightarrow> 'f \<Rightarrow> bool"
  f_less :: "'f \<Rightarrow> 'f \<Rightarrow> bool"

record 'f latency =
  latencyCount :: u64
  latencyMean :: 'f
  latencyM2 :: 'f
  latencySamples :: "u64 list"
  latencyReservoir :: nat
  latencyCh :: "u64 list"
  latencyChCap :: nat
  latencyChClosed :: bool

text \<open>
  One iteration of the worker for the value \<open>us\<close>. \<open>rand.Int63n(n)\<close> panics unless \<open>n\<close> is positive; the
  number it draws is \<open>rnd\<close>, an argument.
\<close>

definition worker_step ::
  "'f float64_ops \<Rightarrow> (u64 \<Rightarrow> int \<Rightarrow> int) \<Rightarrow> u64 \<Rightarrow> ('f, 'z) latency_scheme \<Rightarrow>
    ('f, 'z) latency_scheme res" where
  "worker_step F rnd us r =
     (let cnt = latencyCount r + 1;
          count = f_of_int F (uint cnt);
          x = f_of_int F (uint us);
          delta = f_sub F x (latencyMean r);
          mean = f_add F (latencyMean r) (f_div F delta count);
          m2 = f_add F (latencyM2 r) (f_mul F delta (f_sub F x mean));
          r' = r\<lparr>latencyCount := cnt, latencyMean := mean, latencyM2 := m2\<rparr>
      in if length (latencySamples r) < latencyReservoir r
         then Inr (r'\<lparr>latencySamples := latencySamples r @ [us]\<rparr>)
         else if sint cnt \<le> 0 then Inl InvalidArgument
         else (let randIdx = rnd cnt (sint cnt) in
               if randIdx < int (length (latencySamples r))
               then (if randIdx < 0 then Inl IndexOutOfRange
                     else Inr (r'\<lparr>latencySamples := (latencySamples r)[nat randIdx := us]\<rparr>))
               else Inr r'))"

text \<open>The documented range of \<open>rand.Int63n\<close>.\<close>

definition rnd_ok :: "(u64 \<Rightarrow> int \<Rightarrow> int) \<Rightarrow> bool" where
  "rnd_ok rnd \<longleftrightarrow> (\<forall>c n. 0 < n \<longrightarrow> 0 \<le> rnd c n \<and> rnd c n < n)"

text \<open>The worker receiving every value in turn.\<close>

fun worker_run ::
  "'f float64_ops \<Rightarrow> (u64 \<Rightarrow> int \<Rightarrow> int) \<Rightarrow> u64 list \<Rightarrow> ('f, 'z) latency_scheme \<Rightarrow>
    ('f, 'z) latency_scheme res" where
  "worker_run F rnd [] r = Inr r"
| "worker_run F rnd (us # rest) r = bind_res (worker_step F rnd us r) (worker_run F rnd rest)"

text \<open>One receive of \<open>for us := range r.latencyCh\<close>: the head of the channel, if there is one.\<close>

definition worker_recv ::
  "'f float64_ops \<Rightarrow> (u64 \<Rightarrow> int \<Rightarrow> int) \<Rightarrow> ('f, 'z) latency_scheme \<Rightarrow> ('f, 'z) latency_scheme res" where
  "worker_recv F rnd r =
     (case latencyCh r of
        [] \<Rightarrow> Inr r
      | us # rest \<Rightarrow> worker_step F rnd us (r\<lparr>latencyCh := rest\<rparr>))"

text \<open>
  \<open>Close\<close> closes the channel, which panics when it is closed already, and waits for the worker, which
  first receives everything that was sent.
\<close>

definition Close ::
  "'f float64_ops \<Rightarrow> (u64 \<Rightarrow> int \<Rightarrow> int) \<Rightarrow> ('f, 'z) latency_scheme \<Rightarrow> ('f, 'z) latency_scheme res" where
  "Close F rnd r =
     (if latencyChClosed r then Inl CloseOfClosedChan
      else worker_run F rnd (latencyCh r) (r\<lparr>latencyChClosed := True, latencyCh := []\<rparr>))"

text \<open>
  \<open>d.Microseconds()\<close> divides the 64-bit nanosecond count truncating towards zero. A \<open>select\<close> whose
  send case names a closed channel panics, default case or not.
\<close>

definition microseconds :: "64 word \<Rightarrow> u64" where
  "microseconds d = word_of_int (sgn (sint d) * (\<bar>sint d\<bar> div 1000))"

definition RecordLatency :: "64 word \<Rightarrow> ('f, 'z) latency_scheme \<Rightarrow> ('f, 'z) latency_scheme res" where
  "RecordLatency d r =
     (let us = microseconds d in
      if latencyChClosed r then Inl SendOnClosedChan
      else if length (latencyCh r) < latencyChCap r then Inr (r\<lparr>latencyCh := latencyCh r @ [us]\<rparr>)
      else Inr r)"

definition quantile :: "'f float64_ops \<Rightarrow> u64 list \<Rightarrow> rat \<Rightarrow> 'f res" where
  "quantile F samples q =
     (let n = f_of_int F (int (length samples)) in
      if f_eq F n (f_lit F 0) then Inr (f_lit F 0)
      else
        (let h = f_add F (f_lit F 1) (f_mul F (f_sub F n (f_lit F 1)) (f_lit F q));
             hf = f_floor F h;
             hi = f_to_int F hf - 1
         in if hi < 0 then bind_res (go_index 0 samples) (\<lambda>v. Inr (f_of_int F (uint v)))
            else if hi \<ge> int (length samples) - 1
            then bind_res (go_index (int (length samples) - 1) samples) (\<lambda>v. Inr (f_of_int F (uint v)))
            else
              bind_res (go_index hi samples) (\<lambda>lo.
              bind_res (go_index (hi + 1) samples) (\<lambda>up.
                let lower = f_of_int F (uint lo); upper = f_of_int F (uint up) in
                Inr (f_add F lower (f_mul F (f_sub F h hf) (f_sub F upper lower)))))))"

record 'f latency_snapshot =
  snapCount :: u64
  snapMeanMs :: 'f
  snapStdMs :: 'f
  snapP50Ms :: 'f
  snapP95Ms :: 'f
  snapP99Ms :: 'f

definition LatencySnapshot ::
  "'f float64_ops \<Rightarrow> ('f, 'z) latency_scheme \<Rightarrow> 'f latency_snapshot res" where
  "LatencySnapshot F r =
     (let zero = f_lit F 0; ms = (\<lambda>x. f_div F x (f_lit F 1000)) in
      if latencyCount r = 0
      then Inr \<lparr>snapCount = 0, snapMeanMs = zero, snapStdMs = zero,
                snapP50Ms = zero, snapP95Ms = zero, snapP99Ms = zero\<rparr>
      else
        (let meanMs = ms (latencyMean r);
             variance = (if 1 < latencyCount r
                         then f_div F (latencyM2 r) (f_of_int F (uint (latencyCount r - 1))) else zero);
             stdMs = ms (f_sqrt F variance)
         in if latencySamples r = []
            then Inr \<lparr>snapCount = latencyCount r, snapMeanMs = meanMs, snapStdMs = stdMs,
                      snapP50Ms = zero, snapP95Ms = zero, snapP99Ms = zero\<rparr>
            else
              (let sorted = sort (latencySamples r) in
               bind_res (quantile F sorted (50 / 100)) (\<lambda>p50.
               bind_res (quantile F sorted (95 / 100)) (\<lambda>p95.
               bind_res (quantile F sorted (99 / 100)) (\<lambda>p99.
                 Inr \<lparr>snapCount = latencyCount r, snapMeanMs = meanMs, snapStdMs = stdMs,
                      snapP50Ms = ms p50, snapP95Ms = ms p95, snapP99Ms = ms p99\<rparr>))))))"

subsection \<open>The worker and the reservoir\<close>

definition lat_frame :: "('f, 'z) latency_scheme \<Rightarrow> ('f, 'z) latency_scheme \<Rightarrow> bool" where
  "lat_frame r r' \<longleftrightarrow>
     latencyReservoir r' = latencyReservoir r \<and> latencyCh r' = latencyCh r \<and>
     latencyChCap r' = latencyChCap r \<and> latencyChClosed r' = latencyChClosed r \<and>
     latency.more r' = latency.more r"

lemma worker_step_closed: "worker_step F rnd us r = Inr r' \<Longrightarrow> latencyChClosed r' = latencyChClosed r"
  by (auto simp: worker_step_def Let_def split: if_splits)

lemma worker_run_closed: "worker_run F rnd uss r = Inr r' \<Longrightarrow> latencyChClosed r' = latencyChClosed r"
  by (induction uss arbitrary: r) (auto simp: bind_res_eq_Inr dest: worker_step_closed)

lemma Close_closes: "Close F rnd r = Inr r' \<Longrightarrow> latencyChClosed r'"
  by (auto simp: Close_def dest: worker_run_closed split: if_splits)

text \<open>The reservoir is filled first and never grows past its size.\<close>

definition reservoir_full :: "('f, 'z) latency_scheme \<Rightarrow> bool" where
  "reservoir_full r \<longleftrightarrow>
     length (latencySamples r) = min (unat (latencyCount r)) (latencyReservoir r)"

lemma mset_update_sub:
  assumes "mset xs \<subseteq># H" and "i < length xs"
  shows "mset (xs[i := x]) \<subseteq># add_mset x H"
proof -
  have "mset (xs[i := x]) = add_mset x (mset xs - {#xs ! i#})"
    using assms(2) by (rule mset_update)
  moreover have "mset xs - {#xs ! i#} \<subseteq># H"
    using assms(1) by (meson diff_subset_eq_self subset_mset.order_trans)
  ultimately show ?thesis by simp
qed

lemma worker_step_ok:
  assumes rnd: "rnd_ok rnd" and cnt: "unat (latencyCount r) < 2 ^ 63 - 1"
    and full: "reservoir_full r" and H: "mset (latencySamples r) \<subseteq># H"
  shows "\<exists>r'. worker_step F rnd us r = Inr r' \<and> unat (latencyCount r') = unat (latencyCount r) + 1 \<and>
    reservoir_full r' \<and> mset (latencySamples r') \<subseteq># add_mset us H \<and> lat_frame r r' \<and>
    latencyMean r' = f_add F (latencyMean r) (f_div F (f_sub F (f_of_int F (uint us)) (latencyMean r))
        (f_of_int F (uint (latencyCount r + 1)))) \<and>
    latencyM2 r' = f_add F (latencyM2 r) (f_mul F (f_sub F (f_of_int F (uint us)) (latencyMean r))
        (f_sub F (f_of_int F (uint us)) (latencyMean r')))"
proof -
  let ?c = "latencyCount r + 1" and ?s = "latencySamples r"
  have c: "unat ?c = unat (latencyCount r) + 1" using cnt by (intro unat_add_one) simp
  have "sint ?c = int (unat ?c)" using c cnt by (intro sint_pos_small) simp_all
  then have pos: "0 < sint ?c" using c by linarith
  show ?thesis
  proof (cases "length ?s < latencyReservoir r")
    case True
    with full c H show ?thesis
      by (auto simp: worker_step_def Let_def reservoir_full_def lat_frame_def subset_mset.add_mono)
  next
    case False
    define i where "i = rnd ?c (sint ?c)"
    have i: "0 \<le> i" using rnd pos by (simp add: rnd_ok_def i_def)
    have sub: "mset ?s \<subseteq># add_mset us H" using H by (metis add_mset_add_single subset_mset.add_increasing2 subset_mset.zero_le)
    have "mset (?s[nat i := us]) \<subseteq># add_mset us H" if "i < int (length ?s)"
      using mset_update_sub [OF H, of "nat i" us] that i by simp
    with False full c pos i sub show ?thesis
      by (auto simp: worker_step_def Let_def reservoir_full_def lat_frame_def i_def [symmetric])
  qed
qed

lemma lat_frame_refl [simp]: "lat_frame r r"
  by (simp add: lat_frame_def)

lemma lat_frame_trans: "lat_frame r r' \<Longrightarrow> lat_frame r' r'' \<Longrightarrow> lat_frame r r''"
  by (simp add: lat_frame_def)

lemma worker_run_ok:
  assumes "rnd_ok rnd" and "unat (latencyCount r) + length xs < 2 ^ 63"
    and "reservoir_full r" and "mset (latencySamples r) \<subseteq># H"
  shows "\<exists>r'. worker_run F rnd xs r = Inr r' \<and> unat (latencyCount r') = unat (latencyCount r) + length xs \<and>
    reservoir_full r' \<and> mset (latencySamples r') \<subseteq># H + mset xs \<and> lat_frame r r'"
  using assms(2-)
proof (induction xs arbitrary: r H)
  case (Cons us xs)
  then have "unat (latencyCount r) < 2 ^ 63 - 1" by simp
  from worker_step_ok [OF assms(1) this Cons.prems(2,3), of F us]
  obtain r1 where r1: "worker_step F rnd us r = Inr r1" "unat (latencyCount r1) = unat (latencyCount r) + 1"
    "reservoir_full r1" "mset (latencySamples r1) \<subseteq># add_mset us H" "lat_frame r r1" by blast
  have "unat (latencyCount r1) + length xs < 2 ^ 63" using Cons.prems(1) r1(2) by simp
  from Cons.IH [OF this r1(3,4)] r1 show ?case by (auto intro: lat_frame_trans)
qed simp

subsection \<open>Without rounding: Welford's mean and variance\<close>

definition exact :: "real float64_ops" where
  "exact = \<lparr>f_of_int = of_int, f_lit = of_rat, f_add = (+), f_sub = (-), f_mul = (*), f_div = (/),
     f_sqrt = sqrt, f_floor = (\<lambda>x. of_int \<lfloor>x\<rfloor>), f_to_int = (\<lambda>x. if 0 \<le> x then \<lfloor>x\<rfloor> else \<lceil>x\<rceil>),
     f_eq = (=), f_less = (<)\<rparr>"

lemma exact_simps [simp]:
  "f_of_int exact = real_of_int" "f_lit exact = real_of_rat" "f_add exact = (+)" "f_sub exact = (-)"
  "f_mul exact = (*)" "f_div exact = (/)" "f_sqrt exact = sqrt" "f_floor exact = (\<lambda>x. real_of_int \<lfloor>x\<rfloor>)"
  "f_to_int exact = (\<lambda>x. if 0 \<le> x then \<lfloor>x\<rfloor> else \<lceil>x\<rceil>)" "f_eq exact = (=)" "f_less exact = (<)"
  by (simp_all add: exact_def)

text \<open>The values received so far, as real numbers, and what the running fields must hold for them.\<close>

definition us_real :: "u64 \<Rightarrow> real" where
  "us_real us = real_of_int (uint us)"

definition sum_us :: "u64 list \<Rightarrow> real" where
  "sum_us xs = sum_list (map us_real xs)"

definition sumsq_us :: "u64 list \<Rightarrow> real" where
  "sumsq_us xs = sum_list (map (\<lambda>u. (us_real u)\<^sup>2) xs)"

definition mean_us :: "u64 list \<Rightarrow> real" where
  "mean_us xs = sum_us xs / real (length xs)"

definition sqdev_us :: "u64 list \<Rightarrow> real" where
  "sqdev_us xs = sum_list (map (\<lambda>u. (us_real u - mean_us xs)\<^sup>2) xs)"

lemma sum_sq_shift:
  "sum_list (map (\<lambda>u. (us_real u - c)\<^sup>2) xs) = sumsq_us xs - 2 * c * sum_us xs + real (length xs) * c\<^sup>2"
  by (induction xs) (simp_all add: sumsq_us_def sum_us_def power2_eq_square algebra_simps)

lemma sqdev_us_eq: "xs \<noteq> [] \<Longrightarrow> sqdev_us xs = sumsq_us xs - (sum_us xs)\<^sup>2 / real (length xs)"
  unfolding sqdev_us_def sum_sq_shift mean_us_def
  by (simp add: power2_eq_square field_simps)

definition welford_inv :: "u64 list \<Rightarrow> (real, 'z) latency_scheme \<Rightarrow> bool" where
  "welford_inv xs r \<longleftrightarrow>
     unat (latencyCount r) = length xs \<and>
     latencyMean r = (if xs = [] then 0 else sum_us xs / real (length xs)) \<and>
     latencyM2 r = (if xs = [] then 0 else sumsq_us xs - (sum_us xs)\<^sup>2 / real (length xs))"

text \<open>The algebra of one Welford step.\<close>

lemma welford_algebra:
  fixes n S Q x :: real
  assumes "0 < n"
  defines "mean \<equiv> S / n + (x - S / n) / (n + 1)"
  shows "mean = (S + x) / (n + 1)"
    and "Q - S\<^sup>2 / n + (x - S / n) * (x - mean) = Q + x\<^sup>2 - (S + x)\<^sup>2 / (n + 1)"
proof -
  have nz: "n \<noteq> 0" "n + 1 \<noteq> 0" using assms(1) by simp_all
  show m: "mean = (S + x) / (n + 1)"
    using nz unfolding mean_def by (simp add: divide_simps) (simp add: algebra_simps)
  have "x - mean = (n * x - S) / (n + 1)" "x - S / n = (n * x - S) / n"
    using nz unfolding m by (simp_all add: divide_simps) (simp_all add: algebra_simps)
  then have "(x - S / n) * (x - mean) = (n * x - S)\<^sup>2 / (n * (n + 1))"
    by (simp add: power2_eq_square)
  moreover have "x\<^sup>2 - (S + x)\<^sup>2 / (n + 1) + S\<^sup>2 / n = (n * x - S)\<^sup>2 / (n * (n + 1))"
    using nz by (simp add: divide_simps power2_eq_square) (simp add: algebra_simps)
  ultimately show "Q - S\<^sup>2 / n + (x - S / n) * (x - mean) = Q + x\<^sup>2 - (S + x)\<^sup>2 / (n + 1)"
    by (simp add: algebra_simps)
qed

lemma worker_step_welford:
  assumes inv: "welford_inv xs r" and cnt: "length xs < 2 ^ 63 - 1"
    and step: "worker_step exact rnd us r = Inr r'"
    and rnd: "rnd_ok rnd" and full: "reservoir_full r"
  shows "welford_inv (xs @ [us]) r'"
proof -
  have c: "unat (latencyCount r) < 2 ^ 63 - 1" using inv cnt by (simp add: welford_inv_def)
  have u: "unat (latencyCount r + 1) = length xs + 1"
    using inv c by (simp add: welford_inv_def unat_add_one)
  then have uc: "unsigned (latencyCount r + 1) = real (length xs) + 1"
    using arg_cong [OF u, of real] by simp
  from worker_step_ok [OF rnd c full subset_mset.order_refl, of exact us] step
  have r': "unat (latencyCount r') = length xs + 1"
    "latencyMean r' = latencyMean r + (us_real us - latencyMean r) / (real (length xs) + 1)"
    "latencyM2 r' = latencyM2 r + (us_real us - latencyMean r) * (us_real us - latencyMean r')"
    using inv by (auto simp: welford_inv_def us_real_def uc)
  have s: "sum_us (xs @ [us]) = sum_us xs + us_real us" "sumsq_us (xs @ [us]) = sumsq_us xs + (us_real us)\<^sup>2"
    by (simp_all add: sum_us_def sumsq_us_def)
  show ?thesis
  proof (cases "xs = []")
    case True
    with inv r' show ?thesis
      by (simp add: welford_inv_def sum_us_def sumsq_us_def power2_eq_square)
  next
    case False
    then have pos: "0 < real (length xs)" by simp
    note w = welford_algebra(1) [OF pos, where S = "sum_us xs" and x = "us_real us"]
      welford_algebra(2) [OF pos, where S = "sum_us xs" and x = "us_real us" and Q = "sumsq_us xs"]
    show ?thesis
      using inv False r' w unfolding welford_inv_def by (simp add: s add.commute)
  qed
qed

lemma worker_run_welford:
  assumes "rnd_ok rnd" and "welford_inv hs r" and "length hs + length xs < 2 ^ 63"
    and "reservoir_full r" and "worker_run exact rnd xs r = Inr r'"
  shows "welford_inv (hs @ xs) r'"
  using assms(2-)
proof (induction xs arbitrary: r hs)
  case (Cons us xs)
  from Cons.prems(4) obtain r1 where r1: "worker_step exact rnd us r = Inr r1" "worker_run exact rnd xs r1 = Inr r'"
    by (auto simp: bind_res_eq_Inr)
  have c: "unat (latencyCount r) < 2 ^ 63 - 1" using Cons.prems(1,2) by (simp add: welford_inv_def)
  have "reservoir_full r1"
    using worker_step_ok [OF assms(1) c Cons.prems(3) subset_mset.order_refl, of exact us] r1(1) by auto
  moreover have "welford_inv (hs @ [us]) r1"
    by (rule worker_step_welford [OF Cons.prems(1) _ r1(1) assms(1) Cons.prems(3)]) (use Cons.prems(2) in simp)
  ultimately show ?case using Cons.IH [of "hs @ [us]" r1] Cons.prems(2) r1(2) by simp
qed simp

subsection \<open>Quantiles\<close>

text \<open>Every index is in range for a non-empty sample, whatever the arithmetic returns.\<close>

lemma quantile_total: "samples \<noteq> [] \<Longrightarrow> \<exists>v. quantile F samples q = Inr v"
  by (auto simp: quantile_def Let_def)

lemma LatencySnapshot_total: "\<exists>s. LatencySnapshot F r = Inr s"
proof (cases "latencyCount r = 0 \<or> latencySamples r = []")
  case True
  then show ?thesis by (cases "latencyCount r = 0") (simp_all add: LatencySnapshot_def Let_def)
next
  case False
  let ?xs = "sort (latencySamples r)"
  have "?xs \<noteq> []" using False by (metis length_0_conv length_sort)
  then obtain a b c where "quantile F ?xs (50 / 100) = Inr a"
    "quantile F ?xs (95 / 100) = Inr b" "quantile F ?xs (99 / 100) = Inr c"
    using quantile_total by metis
  with False show ?thesis unfolding LatencySnapshot_def Let_def by simp
qed

text \<open>Linear interpolation at the 1-based position \<open>h\<close> of a sorted sample.\<close>

definition interp :: "u64 list \<Rightarrow> real \<Rightarrow> real" where
  "interp xs h =
     (let k = nat (\<lfloor>h\<rfloor> - 1) in
      if length xs - 1 \<le> k then us_real (xs ! (length xs - 1))
      else us_real (xs ! k) + (h - of_int \<lfloor>h\<rfloor>) * (us_real (xs ! Suc k) - us_real (xs ! k)))"

lemma quantile_exact:
  assumes "xs \<noteq> []" and "0 \<le> q" and "q \<le> 1"
  shows "quantile exact xs q = Inr (interp xs (1 + (real (length xs) - 1) * of_rat q))"
proof -
  let ?n = "length xs" and ?h = "1 + (real (length xs) - 1) * real_of_rat q"
  have n: "1 \<le> ?n" using assms(1) by (cases xs) auto
  then have h: "1 \<le> ?h" using assms(2) by simp
  define k where "k = \<lfloor>?h\<rfloor>"
  have k: "1 \<le> k" using h by (simp add: le_floor_iff k_def)
  have eq: "(int ?n - 1 \<le> k - 1) = (?n - 1 \<le> nat (k - 1))" "\<not> k - 1 < 0" "0 \<le> k"
    "nat (k - 1 + 1) = Suc (nat (k - 1))" "nat (int ?n - 1) = ?n - 1" "0 \<le> int ?n - 1" "int ?n - 1 < int ?n"
    using n k by linarith+
  have in1: "\<not> int ?n - 1 \<le> k - 1 \<Longrightarrow> 0 \<le> k - 1 \<and> k - 1 < int ?n \<and> 0 \<le> k - 1 + 1 \<and> k - 1 + 1 < int ?n"
    using k by linarith
  have nz: "real_of_int (int ?n) \<noteq> 0" using assms(1) by simp
  show ?thesis
  proof (cases "int ?n - 1 \<le> k - 1")
    case True
    then show ?thesis
      using eq nz by (simp add: quantile_def Let_def interp_def us_real_def k_def [symmetric])
  next
    case False
    then show ?thesis
      using eq nz in1 [OF False] by (simp add: quantile_def Let_def interp_def us_real_def k_def [symmetric])
  qed
qed

lemma us_real_mono: "a \<le> b \<Longrightarrow> us_real a \<le> us_real b"
  unfolding us_real_def word_le_def by (simp only: of_int_le_iff)

lemma us_real_nth_mono:
  "sorted xs \<Longrightarrow> i \<le> j \<Longrightarrow> j < length xs \<Longrightarrow> us_real (xs ! i) \<le> us_real (xs ! j)"
  by (intro us_real_mono sorted_nth_mono)

lemma interp_bounds:
  assumes "sorted xs" and "xs \<noteq> []"
  shows "us_real (xs ! min (nat (\<lfloor>h\<rfloor> - 1)) (length xs - 1)) \<le> interp xs h"
    and "interp xs h \<le> us_real (xs ! min (Suc (nat (\<lfloor>h\<rfloor> - 1))) (length xs - 1))"
proof -
  let ?k = "nat (\<lfloor>h\<rfloor> - 1)" and ?f = "h - of_int \<lfloor>h\<rfloor>"
  have f: "0 \<le> ?f" "?f \<le> 1" by linarith+
  show "us_real (xs ! min ?k (length xs - 1)) \<le> interp xs h"
  proof (cases "length xs - 1 \<le> ?k")
    case False
    then have "us_real (xs ! ?k) \<le> us_real (xs ! Suc ?k)" by (intro us_real_nth_mono assms) auto
    with False f(1) show ?thesis by (simp add: interp_def Let_def)
  qed (simp add: interp_def)
  show "interp xs h \<le> us_real (xs ! min (Suc ?k) (length xs - 1))"
  proof (cases "length xs - 1 \<le> ?k")
    case False
    then have "us_real (xs ! ?k) \<le> us_real (xs ! Suc ?k)" by (intro us_real_nth_mono assms) auto
    then have "?f * (us_real (xs ! Suc ?k) - us_real (xs ! ?k)) \<le> us_real (xs ! Suc ?k) - us_real (xs ! ?k)"
      using f by (intro mult_left_le_one_le) simp_all
    with False show ?thesis by (simp add: interp_def Let_def)
  qed (simp add: interp_def)
qed

lemma interp_mono:
  assumes "sorted xs" and "xs \<noteq> []" and "1 \<le> h" and "h \<le> h'"
  shows "interp xs h \<le> interp xs h'"
proof (cases "\<lfloor>h\<rfloor> = \<lfloor>h'\<rfloor>")
  case True
  show ?thesis
  proof (cases "length xs - 1 \<le> nat (\<lfloor>h'\<rfloor> - 1)")
    case False
    then have "us_real (xs ! nat (\<lfloor>h'\<rfloor> - 1)) \<le> us_real (xs ! Suc (nat (\<lfloor>h'\<rfloor> - 1)))"
      by (intro us_real_nth_mono assms) auto
    then show ?thesis
      using False True assms(4) by (simp add: interp_def Let_def mult_right_mono)
  qed (simp add: interp_def True)
next
  case False
  then have "\<lfloor>h\<rfloor> < \<lfloor>h'\<rfloor>" using assms(4) by (simp add: floor_mono order_neq_le_trans)
  then have "Suc (nat (\<lfloor>h\<rfloor> - 1)) \<le> nat (\<lfloor>h'\<rfloor> - 1)"
    using le_floor_iff [of 1 h] assms(3) by simp linarith
  then have "us_real (xs ! min (Suc (nat (\<lfloor>h\<rfloor> - 1))) (length xs - 1)) \<le>
    us_real (xs ! min (nat (\<lfloor>h'\<rfloor> - 1)) (length xs - 1))"
    using assms(1,2) by (intro us_real_nth_mono) (auto simp: min_less_iff_disj)
  then show ?thesis
    using interp_bounds(2) [OF assms(1,2), of h] interp_bounds(1) [OF assms(1,2), of h'] by linarith
qed

lemma interp_range:
  assumes "sorted xs" and "xs \<noteq> []"
  shows "us_real (xs ! 0) \<le> interp xs h" and "interp xs h \<le> us_real (xs ! (length xs - 1))"
proof -
  have "us_real (xs ! 0) \<le> us_real (xs ! min (nat (\<lfloor>h\<rfloor> - 1)) (length xs - 1))"
    using assms by (intro us_real_nth_mono) (auto simp: min_less_iff_disj)
  then show "us_real (xs ! 0) \<le> interp xs h"
    using interp_bounds(1) [OF assms, of h] by linarith
  have "us_real (xs ! min (Suc (nat (\<lfloor>h\<rfloor> - 1))) (length xs - 1)) \<le> us_real (xs ! (length xs - 1))"
    using assms by (intro us_real_nth_mono) (auto simp: min_less_iff_disj)
  then show "interp xs h \<le> us_real (xs ! (length xs - 1))"
    using interp_bounds(2) [OF assms, of h] by linarith
qed

subsection \<open>Properties\<close>

definition fresh_latency :: "nat \<Rightarrow> nat \<Rightarrow> 'f float64_ops \<Rightarrow> 'f latency" where
  "fresh_latency cap reservoir F =
     \<lparr>latencyCount = 0, latencyMean = f_lit F 0, latencyM2 = f_lit F 0, latencySamples = [],
      latencyReservoir = reservoir, latencyCh = [], latencyChCap = cap, latencyChClosed = False\<rparr>"

lemma reservoir_full_fresh [simp]: "reservoir_full (fresh_latency cap res F)"
  by (simp add: reservoir_full_def fresh_latency_def)

lemma welford_inv_fresh [simp]: "welford_inv [] (fresh_latency cap res exact)"
  by (simp add: welford_inv_def fresh_latency_def)

lemma worker_run_fresh:
  assumes "rnd_ok rnd" and "length xs < 2 ^ 63"
  shows "\<exists>r'. worker_run F rnd xs (fresh_latency cap res F) = Inr r' \<and> unat (latencyCount r') = length xs \<and>
    reservoir_full r' \<and> mset (latencySamples r') \<subseteq># mset xs \<and> lat_frame (fresh_latency cap res F) r'"
proof -
  have "unat (latencyCount (fresh_latency cap res F)) + length xs < 2 ^ 63"
    using assms(2) by (simp add: fresh_latency_def)
  from worker_run_ok [OF assms(1) this reservoir_full_fresh, of "{#}" F]
  show ?thesis by (simp add: fresh_latency_def)
qed

text \<open>
  C37 (safety): the latency worker never panics on any stream of fewer than \<open>2 ^ 63\<close> latencies, with
  any floating-point arithmetic: it counts every value, the reservoir holds exactly
  \<open>min(count, latencyReservoir)\<close> samples, and they are a sub-multiset of the values received (no
  sample is made up or duplicated).
\<close>

theorem latency_worker_reservoir:
  assumes "rnd_ok rnd" and "length xs < 2 ^ 63"
  shows "\<exists>r'. worker_run F rnd xs (fresh_latency cap res F) = Inr r' \<and>
    unat (latencyCount r') = length xs \<and>
    length (latencySamples r') = min (length xs) res \<and>
    mset (latencySamples r') \<subseteq># mset xs"
proof -
  show ?thesis
    using worker_run_fresh [OF assms, of F cap res]
    by (auto simp: reservoir_full_def lat_frame_def fresh_latency_def)
qed

theorem latency_worker_reservoir_witness:
  "\<exists>r'. worker_run exact (\<lambda>c n. n - 1) [7, 3, 9] (fresh_latency 8 2 exact) = Inr r' \<and>
    unat (latencyCount r') = length [7 :: u64, 3, 9] \<and>
    length (latencySamples r') = min (length [7 :: u64, 3, 9]) 2 \<and>
    mset (latencySamples r') \<subseteq># mset [7, 3, 9]"
  by (rule latency_worker_reservoir) (simp_all add: rnd_ok_def)

text \<open>What the snapshot makes of the online fields.\<close>

lemma snapshot_moments:
  assumes "latencyCount r \<noteq> 0"
  shows "\<exists>s. LatencySnapshot exact r = Inr s \<and> snapCount s = latencyCount r \<and> snapMeanMs s = latencyMean r / 1000 \<and>
    snapStdMs s = sqrt (if 1 < latencyCount r then latencyM2 r / of_int (uint (latencyCount r - 1)) else 0) / 1000"
proof (cases "latencySamples r = []")
  case True
  with assms show ?thesis by (simp add: LatencySnapshot_def Let_def)
next
  case False
  then have "sort (latencySamples r) \<noteq> []" by (metis length_0_conv length_sort)
  with quantile_exact [OF this] assms False show ?thesis by (simp add: LatencySnapshot_def Let_def)
qed

text \<open>
  C36 (functional): without rounding, the reported statistics are the exact ones of the values the worker
  received: \<open>latencyMean\<close> is their mean and \<open>latencyM2\<close> the sum of their squared deviations from it, and
  \<open>LatencySnapshot\<close> reports their number, their mean and the square root of their unbiased variance, with
  \<open>n - 1\<close> in the denominator, both in milliseconds; for a single value the deviation is 0.
\<close>

theorem welford_mean_variance:
  assumes "rnd_ok rnd" and "xs \<noteq> []" and "length xs < 2 ^ 63"
  shows "\<exists>r' s. worker_run exact rnd xs (fresh_latency cap res exact) = Inr r' \<and>
    latencyMean r' = mean_us xs \<and> latencyM2 r' = sqdev_us xs \<and>
    LatencySnapshot exact r' = Inr s \<and> unat (snapCount s) = length xs \<and>
    snapMeanMs s = mean_us xs / 1000 \<and>
    snapStdMs s = (if length xs = 1 then 0 else sqrt (sqdev_us xs / (real (length xs) - 1)) / 1000)"
proof -
  obtain r' where r': "worker_run exact rnd xs (fresh_latency cap res exact) = Inr r'" "unat (latencyCount r') = length xs"
    using worker_run_fresh [OF assms(1,3), of exact cap res] by (auto simp: lat_frame_def)
  from worker_run_welford [OF assms(1) welford_inv_fresh _ reservoir_full_fresh r'(1)] assms(3)
  have "welford_inv xs r'" by simp
  then have m: "latencyMean r' = mean_us xs" "latencyM2 r' = sqdev_us xs"
    using assms(2) by (simp_all add: welford_inv_def mean_us_def sqdev_us_eq)
  have c0: "latencyCount r' \<noteq> 0" using r'(2) assms(2) by (auto simp: unat_eq_0 [symmetric])
  have c1: "1 < latencyCount r' \<longleftrightarrow> length xs \<noteq> 1" using r'(2) assms(2) by (cases xs) (auto simp: word_less_nat_alt)
  have "int (unat (latencyCount r' - 1)) = int (length xs) - 1"
    using unat_minus_one [OF c0] r'(2) assms(2) by (cases xs) simp_all
  then have "uint (latencyCount r' - 1) = int (length xs) - 1" by simp
  with snapshot_moments [OF c0] r' m c1 show ?thesis by auto
qed

theorem welford_mean_variance_witness:
  "\<exists>r' s. worker_run exact (\<lambda>c n. 0) [2, 4, 9] (fresh_latency 8 2 exact) = Inr r' \<and>
    latencyMean r' = 5 \<and> latencyM2 r' = 26 \<and> LatencySnapshot exact r' = Inr s \<and> unat (snapCount s) = 3 \<and>
    snapMeanMs s = 5 / 1000 \<and> snapStdMs s = sqrt 13 / 1000"
  using welford_mean_variance [of "\<lambda>c n. 0" "[2, 4, 9]" 8 2]
  by (simp add: rnd_ok_def mean_us_def sqdev_us_def sum_us_def us_real_def numeral_3_eq_3)

text \<open>
  C38 (bounds): without rounding, the percentiles of a non-empty reservoir are ordered,
  p50 <= p95 <= p99, and lie between the smallest and the largest sample.
\<close>

theorem snapshot_percentiles_ordered:
  assumes "latencyCount r \<noteq> 0" and "latencySamples r \<noteq> []"
  shows "\<exists>s. LatencySnapshot exact r = Inr s \<and> snapCount s = latencyCount r \<and>
    us_real (Min (set (latencySamples r))) / 1000 \<le> snapP50Ms s \<and>
    snapP50Ms s \<le> snapP95Ms s \<and> snapP95Ms s \<le> snapP99Ms s \<and>
    snapP99Ms s \<le> us_real (Max (set (latencySamples r))) / 1000"
proof -
  let ?xs = "sort (latencySamples r)"
  have xs: "?xs \<noteq> []" "sorted ?xs" using assms(2) by (metis length_0_conv length_sort, simp)
  define p where "p q = interp ?xs (1 + (real (length ?xs) - 1) * real_of_rat q)" for q
  have q: "quantile exact ?xs q = Inr (p q)" if "0 \<le> q" "q \<le> 1" for q
    unfolding p_def by (rule quantile_exact [OF xs(1) that])
  have n: "0 \<le> real (length ?xs) - 1" using xs(1) by (cases ?xs) auto
  have mono: "p a \<le> p b" if "0 \<le> a" "a \<le> b" for a b
    unfolding p_def using that n by (intro interp_mono xs) (simp_all add: mult_left_mono of_rat_less_eq)
  have "?xs ! 0 \<in> set (latencySamples r)" "?xs ! (length ?xs - 1) \<in> set (latencySamples r)"
    using xs(1) by (metis length_greater_0_conv nth_mem set_sort,
        metis diff_less length_greater_0_conv nth_mem set_sort zero_less_one)
  then have "us_real (Min (set (latencySamples r))) \<le> p (50 / 100)"
    "p (99 / 100) \<le> us_real (Max (set (latencySamples r)))"
    using interp_range [OF xs(2,1)] unfolding p_def
    by (meson List.finite_set Min_le order_trans us_real_mono, meson List.finite_set Max_ge order_trans us_real_mono)
  moreover have "p (50 / 100) \<le> p (95 / 100)" "p (95 / 100) \<le> p (99 / 100)"
    by (intro mono; simp)+
  ultimately show ?thesis
    using assms q [of "50 / 100"] q [of "95 / 100"] q [of "99 / 100"]
    by (simp add: LatencySnapshot_def Let_def divide_right_mono)
qed

theorem snapshot_percentiles_ordered_witness:
  "let r = (fresh_latency 8 4 exact)\<lparr>latencyCount := 3, latencySamples := [9, 2, 4]\<rparr> in
    \<exists>s. LatencySnapshot exact r = Inr s \<and> snapCount s = latencyCount r \<and>
    us_real (Min (set (latencySamples r))) / 1000 \<le> snapP50Ms s \<and>
    snapP50Ms s \<le> snapP95Ms s \<and> snapP95Ms s \<le> snapP99Ms s \<and>
    snapP99Ms s \<le> us_real (Max (set (latencySamples r))) / 1000"
  unfolding Let_def by (rule snapshot_percentiles_ordered) simp_all

end
