(* ===== verification/Relayer.thy ===== *)
theory Relayer
  imports Core_Protocol Latency_Stats
begin

section \<open>internal/domains/relayer: the registry and the routing decision\<close>

text \<open>
  \<open>Relayer\<close>, the shipped \<open>core.App\<close>: a registry of connectors by public key, 64-bit counters, and
  \<open>HandleMessage\<close>, the targeted multicast. Its latency fields are those of \<open>Latency_Stats\<close>, which the
  record extends. Connectors are references of type \<open>'c\<close>, compared by identity as Go compares
  interface values holding pointers.
\<close>

record ('c, 'f) relayer = "'f latency" +
  connectors :: "pubkey \<rightharpoonup> 'c"
  connCount :: "64 word"
  processed :: u64
  delivered :: u64
  noRecip :: u64

definition NewRelayer :: "'f float64_ops \<Rightarrow> ('c, 'f) relayer" where
  "NewRelayer F =
     \<lparr>latencyCount = 0, latencyMean = f_lit F 0, latencyM2 = f_lit F 0, latencySamples = [],
      latencyReservoir = 65536 * 2 ^ 2, latencyCh = [], latencyChCap = 65536, latencyChClosed = False,
      connectors = Map.empty, connCount = 0, processed = 0, delivered = 0, noRecip = 0\<rparr>"

subsection \<open>sync.Map\<close>

definition map_Swap :: "'k \<Rightarrow> 'v \<Rightarrow> ('k \<rightharpoonup> 'v) \<Rightarrow> 'v option \<times> ('k \<rightharpoonup> 'v)" where
  "map_Swap k v m = (m k, m(k \<mapsto> v))"

definition map_CompareAndDelete :: "'k \<Rightarrow> 'v \<Rightarrow> ('k \<rightharpoonup> 'v) \<Rightarrow> bool \<times> ('k \<rightharpoonup> 'v)" where
  "map_CompareAndDelete k v m = (if m k = Some v then (True, m(k := None)) else (False, m))"

definition map_Load :: "'k \<Rightarrow> ('k \<rightharpoonup> 'v) \<Rightarrow> 'v option" where
  "map_Load k m = m k"

text \<open>The contract of a concurrent map, as the relayer uses it.\<close>

locale registry =
  fixes swap :: "'k \<Rightarrow> 'v \<Rightarrow> 'm \<Rightarrow> 'v option \<times> 'm"
    and evict :: "'k \<Rightarrow> 'v \<Rightarrow> 'm \<Rightarrow> bool \<times> 'm"
    and find :: "'k \<Rightarrow> 'm \<Rightarrow> 'v option"
  assumes swap_old: "fst (swap k v m) = find k m"
    and swap_new: "find k' (snd (swap k v m)) = (if k' = k then Some v else find k' m)"
    and evict_hit: "fst (evict k v m) = (find k m = Some v)"
    and evict_new: "find k' (snd (evict k v m)) = (if k' = k \<and> find k m = Some v then None else find k' m)"
begin

definition keys :: "'m \<Rightarrow> 'k set" where
  "keys m = {k. find k m \<noteq> None}"

lemma keys_swap: "keys (snd (swap k v m)) = insert k (keys m)"
  by (auto simp: keys_def swap_new)

lemma keys_evict: "keys (snd (evict k v m)) = (if fst (evict k v m) then keys m - {k} else keys m)"
  by (auto simp: keys_def evict_new evict_hit)

lemma card_swap:
  "finite (keys m) \<Longrightarrow>
    card (keys (snd (swap k v m))) = card (keys m) + (if fst (swap k v m) = None then 1 else 0)"
  unfolding keys_swap swap_old by (auto simp: keys_def card_insert_if)

lemma card_evict:
  "finite (keys m) \<Longrightarrow>
    card (keys (snd (evict k v m))) + (if fst (evict k v m) then 1 else 0) = card (keys m)"
proof (cases "fst (evict k v m)")
  case True
  assume fin: "finite (keys m)"
  have "k \<in> keys m" using True by (simp add: evict_hit keys_def)
  then have "Suc (card (keys m - {k})) = card (keys m)" using fin by (metis card.remove)
  then show ?thesis using True by (simp add: keys_evict)
qed (simp add: keys_evict)

text \<open>A connector that was replaced cannot evict its replacement.\<close>

lemma stale_evict: "find k m \<noteq> Some v \<Longrightarrow> fst (evict k v m) = False \<and> find k' (snd (evict k v m)) = find k' m"
  by (simp add: evict_hit evict_new)

end

interpretation sync_map: registry map_Swap map_CompareAndDelete map_Load
  by unfold_locales (simp_all add: map_Swap_def map_CompareAndDelete_def map_Load_def)

lemma sync_map_keys: "sync_map.keys m = dom m"
  by (auto simp: sync_map.keys_def map_Load_def)

subsection \<open>Registration\<close>

definition OnConnect :: "pubkey \<Rightarrow> 'c \<Rightarrow> ('c, 'f) relayer \<Rightarrow> ('c, 'f) relayer" where
  "OnConnect pubKey c r =
     (case map_Swap pubKey c (connectors r) of
        (None, m) \<Rightarrow> r\<lparr>connectors := m, connCount := connCount r + 1\<rparr>
      | (Some _, m) \<Rightarrow> r\<lparr>connectors := m\<rparr>)"

definition OnDisconnect :: "pubkey \<Rightarrow> 'c \<Rightarrow> ('c, 'f) relayer \<Rightarrow> ('c, 'f) relayer" where
  "OnDisconnect pubKey c r =
     (case map_CompareAndDelete pubKey c (connectors r) of
        (True, m) \<Rightarrow> r\<lparr>connectors := m, connCount := connCount r - 1\<rparr>
      | (False, m) \<Rightarrow> r\<lparr>connectors := m\<rparr>)"

definition GetConnectorByKey :: "pubkey \<Rightarrow> ('c, 'f) relayer \<Rightarrow> 'c option" where
  "GetConnectorByKey pubKey r = map_Load pubKey (connectors r)"

definition Count :: "('c, 'f) relayer \<Rightarrow> int" where
  "Count r = sint (connCount r)"

subsection \<open>Counters\<close>

definition IncrementProcessed :: "('c, 'f) relayer \<Rightarrow> ('c, 'f) relayer" where
  "IncrementProcessed r = r\<lparr>processed := processed r + 1\<rparr>"

definition IncrementDeliverySuccess :: "('c, 'f) relayer \<Rightarrow> ('c, 'f) relayer" where
  "IncrementDeliverySuccess r = r\<lparr>delivered := delivered r + 1\<rparr>"

definition IncrementDeliveryFailure :: "('c, 'f) relayer \<Rightarrow> ('c, 'f) relayer" where
  "IncrementDeliveryFailure r = r\<lparr>noRecip := noRecip r + 1\<rparr>"

subsection \<open>HandleMessage\<close>

text \<open>The loop over the extracted targets; \<open>matched\<close> counts the pushes that were accepted.\<close>

fun route_loop ::
  "('c \<Rightarrow> out_message \<Rightarrow> 's \<Rightarrow> (bool \<times> 's) res) \<Rightarrow> out_message \<Rightarrow> pubkey list \<Rightarrow> nat \<Rightarrow>
    mem \<Rightarrow> 's \<Rightarrow> ('c, 'f) relayer \<Rightarrow> (nat \<times> mem \<times> 's \<times> ('c, 'f) relayer) res" where
  "route_loop push m [] matched h s r = Inr (matched, h, s, r)"
| "route_loop push m (target # rest) matched h s r =
     (case GetConnectorByKey target r of
        None \<Rightarrow> route_loop push m rest matched h s r
      | Some dest \<Rightarrow>
          bind_res (DeliverTo push dest m h s) (\<lambda>(ok, h', s').
            if ok then route_loop push m rest (matched + 1) h' s' r
            else route_loop push m rest matched h' s' (IncrementDeliveryFailure r)))"

definition HandleMessage ::
  "('c \<Rightarrow> out_message \<Rightarrow> 's \<Rightarrow> (bool \<times> 's) res) \<Rightarrow> pubkey \<Rightarrow> out_message \<Rightarrow>
    mem \<Rightarrow> 's \<Rightarrow> ('c, 'f) relayer \<Rightarrow> (mem \<times> 's \<times> ('c, 'f) relayer) res" where
  "HandleMessage push from_id m h s r =
     bind_res (Msg m h) (\<lambda>msg.
     bind_res (ExtractTargets msg from_id (replicate MaxTargetsPerMessage zero_key)) (\<lambda>(targetN, targets).
       if targetN = 0 then Inr (h, s, r)
       else
         (let r1 = IncrementProcessed r;
              h1 = (case Buf m of None \<Rightarrow> h | Some b \<Rightarrow> write_bytes b (ZeroToIDs msg) h)
          in bind_res (go_slice 0 targetN targets) (\<lambda>ts.
             bind_res (route_loop push m ts 0 h1 s r1) (\<lambda>(matched, h2, s2, r2).
               Inr (h2, s2, if matched = 0 then IncrementDeliveryFailure r2 else r2))))))"

text \<open>\<open>core.Metrics\<close>: starting and stopping the collection does nothing yet.\<close>

definition StartRecording :: "('c, 'f) relayer \<Rightarrow> ('c, 'f) relayer" where
  "StartRecording r = r"

definition StopRecording :: "('c, 'f) relayer \<Rightarrow> ('c, 'f) relayer" where
  "StopRecording r = r"

definition FetchMetrics ::
  "'f float64_ops \<Rightarrow> ('c, 'f) relayer \<Rightarrow> (u64 \<times> u64 \<times> u64 \<times> 'f latency_snapshot) res" where
  "FetchMetrics F r =
     bind_res (LatencySnapshot F r) (\<lambda>snap. Inr (processed r, delivered r, noRecip r, snap))"

subsection \<open>What routing computes\<close>

text \<open>
  The destinations of a message are the registered connectors of its targets, in order; pushing to
  all of them yields the number accepted and the new store.
\<close>

definition dests :: "pubkey list \<Rightarrow> ('c, 'f) relayer \<Rightarrow> 'c list" where
  "dests ts r = List.map_filter (connectors r) ts"

fun push_all ::
  "('c \<Rightarrow> out_message \<Rightarrow> 's \<Rightarrow> (bool \<times> 's) res) \<Rightarrow> out_message \<Rightarrow> 'c list \<Rightarrow> 's \<Rightarrow> (nat \<times> 's) res" where
  "push_all push m [] s = Inr (0, s)"
| "push_all push m (d # ds) s =
     bind_res (push d m s) (\<lambda>(ok, s1).
     bind_res (push_all push m ds s1) (\<lambda>(k, s2). Inr (if ok then Suc k else k, s2)))"

lemma push_all_ConsE:
  assumes "push_all push m (d # ds) s = Inr (k, s2)"
  obtains ok s1 k' where "push d m s = Inr (ok, s1)" and "push_all push m ds s1 = Inr (k', s2)"
    and "k = (if ok then Suc k' else k')"
  using assms by (fastforce simp: bind_res_eq_Inr split: prod.splits)

lemma push_all_le: "push_all push m ds s = Inr (k, s') \<Longrightarrow> k \<le> length ds"
proof (induction ds arbitrary: s k)
  case (Cons d ds)
  from Cons.prems obtain ok s1 k' where "push_all push m ds s1 = Inr (k', s')"
    "k = (if ok then Suc k' else k')" by (rule push_all_ConsE)
  with Cons.IH show ?case by fastforce
qed simp

lemma dests_simps [simp]:
  "dests [] r = []"
  "dests (t # ts) r = (case connectors r t of None \<Rightarrow> dests ts r | Some d \<Rightarrow> d # dests ts r)"
  by (simp_all add: dests_def List.map_filter_simps split: option.split)

lemma dests_cong [simp]: "dests ts (noRecip_update f r) = dests ts r" "dests ts (processed_update f r) = dests ts r"
  by (simp_all add: dests_def)

lemma length_dests: "length (dests ts r) \<le> length ts"
  by (induction ts) (auto split: option.split)

text \<open>The routing loop on a buffer the caller owns.\<close>

lemma route_loop_ok:
  assumes "Buf m = Some b" and "mem_ok h" and "refs_of h b = Some n" and "0 < n"
    and "n + int (length ts) \<le> 2147483647" and "push_all push m (dests ts r) s = Inr (a, s')"
  shows "\<exists>h'. route_loop push m ts k h s r =
      Inr (k + a, h', s', r\<lparr>noRecip := noRecip r + of_nat (length (dests ts r) - a)\<rparr>) \<and>
    mem_ok h' \<and> content_of h' = content_of h \<and> next_buf h' = next_buf h \<and> goos h' = goos h \<and>
    refs_of h' = (refs_of h)(b \<mapsto> n + int a)"
  using assms(2-)
proof (induction ts arbitrary: k h s r n a)
  case Nil
  then show ?case by (auto simp: fun_eq_iff)
next
  case (Cons t ts)
  show ?case
  proof (cases "connectors r t")
    case None
    with Cons.IH [OF Cons.prems(1-3), of r s a k] Cons.prems(4,5) show ?thesis
      by (simp add: GetConnectorByKey_def map_Load_def)
  next
    case (Some d)
    with Cons.prems(5) have "push_all push m (d # dests ts r) s = Inr (a, s')" by simp
    then obtain ok s1 a' where p: "push d m s = Inr (ok, s1)" "push_all push m (dests ts r) s1 = Inr (a', s')"
      "a = (if ok then Suc a' else a')" by (rule push_all_ConsE)
    have n: "n < 2147483647" using Cons.prems(4) by simp
    from DeliverTo_ok [where push = push and dest = d and m = m, OF assms(1) Cons.prems(1-3) n p(1)]
    obtain h1 where h1: "DeliverTo push d m h s = Inr (ok, h1, s1)" "mem_ok h1" "content_of h1 = content_of h"
      "next_buf h1 = next_buf h" "goos h1 = goos h" "refs_of h1 = (refs_of h)(b \<mapsto> (if ok then n + 1 else n))"
      by auto
    let ?n = "if ok then n + 1 else n"
    have bnd: "refs_of h1 b = Some ?n" "0 < ?n" "?n + int (length ts) \<le> 2147483647"
      using Cons.prems(3,4) h1(6) by auto
    show ?thesis
    proof (cases ok)
      case True
      with Cons.IH [OF h1(2) bnd p(2), of "k + 1"] Some p h1 show ?thesis
        by (auto simp: GetConnectorByKey_def map_Load_def fun_eq_iff)
    next
      case False
      let ?r = "IncrementDeliveryFailure r"
      have ds: "dests ts ?r = dests ts r" by (simp add: IncrementDeliveryFailure_def)
      have le: "a' \<le> length (dests ts r)" by (rule push_all_le [OF p(2)])
      have cnt: "noRecip r + 1 + of_nat (length (dests ts r) - a') =
        noRecip r + of_nat (Suc (length (dests ts r)) - a')"
        using le by (simp add: Suc_diff_le)
      from Cons.IH [OF h1(2) bnd, of ?r s1 a' k] False Some p h1 cnt show ?thesis
        by (auto simp: GetConnectorByKey_def map_Load_def ds IncrementDeliveryFailure_def fun_eq_iff)
    qed
  qed
qed

text \<open>The state of the relayer after a message that had targets.\<close>

definition routed_relayer :: "nat \<Rightarrow> nat \<Rightarrow> ('c, 'f) relayer \<Rightarrow> ('c, 'f) relayer" where
  "routed_relayer resolved accepted r =
     r\<lparr>processed := processed r + 1,
       noRecip := noRecip r + of_nat (resolved - accepted) + (if accepted = 0 then 1 else 0)\<rparr>"

lemma HandleMessage_ok:
  assumes buf: "Buf m = Some b" and ok: "mem_ok h" and refs: "refs_of h b = Some n" and n: "0 < n"
    and bnd: "n + int MaxTargetsPerMessage \<le> 2147483647"
    and c: "content_of h b = Some msg"
    and ts_def: "ts = targets_of msg self"
    and push: "push_all push m (dests ts r) s = Inr (a, s')"
  shows "HandleMessage push self m h s r = Inr (h, s, r) \<and> ts = [] \<or>
    ts \<noteq> [] \<and>
    (\<exists>h'. HandleMessage push self m h s r = Inr (h', s', routed_relayer (length (dests ts r)) a r) \<and>
      mem_ok h' \<and> content_of h' = (content_of h)(b \<mapsto> ZeroToIDs msg) \<and>
      next_buf h' = next_buf h \<and> goos h' = goos h \<and> refs_of h' = (refs_of h)(b \<mapsto> n + int a))"
proof -
  have M: "Msg m h = Inr msg" using buf c by (simp add: Msg_def Bytes_eq)
  have E: "ExtractTargets msg self (replicate MaxTargetsPerMessage zero_key) =
    Inr (length ts, ts @ drop (length ts) (replicate MaxTargetsPerMessage zero_key))"
    unfolding ts_def by (rule ExtractTargets_eq) simp
  show ?thesis
  proof (cases "ts = []")
    case True
    then show ?thesis using M E by (simp add: HandleMessage_def)
  next
    case False
    let ?h1 = "write_bytes b (ZeroToIDs msg) h" and ?r1 = "IncrementProcessed r"
    note w = write_bytes_ok [OF ok c length_ZeroToIDs]
    have d: "dests ts ?r1 = dests ts r" by (simp add: IncrementProcessed_def)
    have "n + int (length ts) \<le> 2147483647"
      using bnd length_targets_of [of msg self] by (simp add: ts_def)
    then obtain h' where h': "route_loop push m ts 0 ?h1 s ?r1 =
        Inr (0 + a, h', s', ?r1\<lparr>noRecip := noRecip ?r1 + of_nat (length (dests ts ?r1) - a)\<rparr>)"
      "mem_ok h'" "content_of h' = content_of ?h1" "next_buf h' = next_buf ?h1" "goos h' = goos ?h1"
      "refs_of h' = (refs_of ?h1)(b \<mapsto> n + int a)"
      using route_loop_ok [OF buf, of ?h1 n ts push ?r1 s a s' 0] w refs n d push by auto
    have "HandleMessage push self m h s r =
      bind_res (route_loop push m ts 0 ?h1 s ?r1) (\<lambda>(matched, h2, s2, r2).
        Inr (h2, s2, if matched = 0 then IncrementDeliveryFailure r2 else r2))"
      using M E False buf by (simp add: HandleMessage_def)
    also have "\<dots> = Inr (h', s', routed_relayer (length (dests ts r)) a r)"
      using h'(1) by (simp add: d routed_relayer_def IncrementProcessed_def IncrementDeliveryFailure_def)
    finally show ?thesis using False h' w d by auto
  qed
qed

subsection \<open>The registry and its counter\<close>

definition count_inv :: "('c, 'f) relayer \<Rightarrow> bool" where
  "count_inv r \<longleftrightarrow> finite (dom (connectors r)) \<and> Count r = int (card (dom (connectors r)))"

lemma sint_64_add_one: "sint (w :: 64 word) < 2 ^ 63 - 1 \<Longrightarrow> sint (w + 1) = sint w + 1"
  by (rule sint_add_one) simp_all

lemma sint_64_sub_one: "0 < sint (w :: 64 word) \<Longrightarrow> sint (w - 1) = sint w - 1"
  by (rule sint_sub_one) simp_all

lemma connectors_OnConnect [simp]: "connectors (OnConnect k c r) = (connectors r)(k \<mapsto> c)"
  by (simp add: OnConnect_def map_Swap_def split: option.split)

lemma connectors_OnDisconnect [simp]:
  "connectors (OnDisconnect k c r) =
    (if connectors r k = Some c then (connectors r)(k := None) else connectors r)"
  by (simp add: OnDisconnect_def map_CompareAndDelete_def)

lemma OnConnect_count_inv:
  assumes "count_inv r" and "card (dom (connectors r)) < 2 ^ 63 - 1"
  shows "count_inv (OnConnect k c r)"
proof -
  have fin: "finite (sync_map.keys (connectors r))" using assms(1) by (simp add: count_inv_def sync_map_keys)
  have "sint (connCount r) < 2 ^ 63 - 1" using assms by (simp add: count_inv_def Count_def)
  then have "Count (OnConnect k c r) = Count r + (if fst (map_Swap k c (connectors r)) = None then 1 else 0)"
    by (simp add: Count_def OnConnect_def map_Swap_def sint_64_add_one split: option.split)
  moreover have "card (dom (connectors (OnConnect k c r))) = card (dom (connectors r)) +
      (if fst (map_Swap k c (connectors r)) = None then 1 else 0)"
    using sync_map.card_swap [OF fin, of k c] by (simp add: sync_map_keys map_Swap_def)
  ultimately show ?thesis using assms(1) by (simp add: count_inv_def)
qed

lemma OnDisconnect_count_inv:
  assumes "count_inv r"
  shows "count_inv (OnDisconnect k c r)"
proof -
  have fin: "finite (sync_map.keys (connectors r))" using assms by (simp add: count_inv_def sync_map_keys)
  let ?hit = "fst (map_CompareAndDelete k c (connectors r))"
  have card: "card (dom (connectors (OnDisconnect k c r))) + (if ?hit then 1 else 0) = card (dom (connectors r))"
    using sync_map.card_evict [OF fin, of k c] by (auto simp: sync_map_keys map_CompareAndDelete_def)
  have "?hit \<Longrightarrow> 0 < sint (connCount r)" using card assms by (simp add: count_inv_def Count_def)
  then have "Count (OnDisconnect k c r) = Count r - (if ?hit then 1 else 0)"
    by (auto simp: Count_def OnDisconnect_def map_CompareAndDelete_def sint_64_sub_one)
  with card assms show ?thesis by (auto simp: count_inv_def)
qed

datatype 'c reg_event = Conn pubkey 'c | Disc pubkey 'c

fun reg_step :: "'c reg_event \<Rightarrow> ('c, 'f) relayer \<Rightarrow> ('c, 'f) relayer" where
  "reg_step (Conn k c) r = OnConnect k c r"
| "reg_step (Disc k c) r = OnDisconnect k c r"

definition reg_run :: "'c reg_event list \<Rightarrow> ('c, 'f) relayer \<Rightarrow> ('c, 'f) relayer" where
  "reg_run es r = fold reg_step es r"

lemma reg_run_snoc [simp]: "reg_run (es @ [e]) r = reg_step e (reg_run es r)"
  by (simp add: reg_run_def)

lemma reg_run_count_inv:
  assumes "length es < 2 ^ 63"
  shows "count_inv (reg_run es (NewRelayer F)) \<and> card (dom (connectors (reg_run es (NewRelayer F)))) \<le> length es"
  using assms
proof (induction es rule: rev_induct)
  case Nil
  then show ?case by (simp add: reg_run_def count_inv_def Count_def NewRelayer_def)
next
  case (snoc e es)
  then have inv: "count_inv (reg_run es (NewRelayer F))"
    and le: "card (dom (connectors (reg_run es (NewRelayer F)))) \<le> length es" by simp_all
  have fin: "finite (dom (connectors (reg_run es (NewRelayer F))))" using inv by (simp add: count_inv_def)
  show ?case
  proof (cases e)
    case (Conn k c)
    have "dom (connectors (OnConnect k c (reg_run es (NewRelayer F)))) =
      insert k (dom (connectors (reg_run es (NewRelayer F))))"
      unfolding connectors_OnConnect by simp
    then have "card (dom (connectors (OnConnect k c (reg_run es (NewRelayer F))))) \<le> Suc (length es)"
      using le fin by (simp only: card_insert_if) simp
    then show ?thesis
      using OnConnect_count_inv [OF inv, of k c] le snoc.prems by (simp add: Conn del: connectors_OnConnect)
  next
    case (Disc k c)
    then show ?thesis
      using OnDisconnect_count_inv [OF inv, of k c] le fin
      by (auto intro: order_trans [OF card_Diff1_le])
  qed
qed

text \<open>The connector a history leaves registered: connected, not replaced and not disconnected since.\<close>

definition registered_by :: "'c reg_event list \<Rightarrow> pubkey \<Rightarrow> 'c \<Rightarrow> bool" where
  "registered_by es k c \<longleftrightarrow>
     (\<exists>pre post. es = pre @ Conn k c # post \<and> (\<forall>c'. Conn k c' \<notin> set post) \<and> Disc k c \<notin> set post)"

lemma registered_by_Nil [simp]: "\<not> registered_by [] k c"
  by (simp add: registered_by_def)

lemma registered_by_snoc:
  "registered_by (es @ [e]) k c \<longleftrightarrow>
     e = Conn k c \<or> (registered_by es k c \<and> (\<forall>c'. e \<noteq> Conn k c') \<and> e \<noteq> Disc k c)"
  (is "?l \<longleftrightarrow> ?r")
proof
  assume ?l
  then obtain pre post where p: "es @ [e] = pre @ Conn k c # post" "\<forall>c'. Conn k c' \<notin> set post" "Disc k c \<notin> set post"
    by (auto simp: registered_by_def)
  show ?r
  proof (cases post rule: rev_cases)
    case Nil
    with p(1) show ?thesis by simp
  next
    case (snoc post' x)
    with p(1) have "es = pre @ Conn k c # post'" "e = x"
      by (simp_all flip: append_assoc append_Cons)
    with p snoc show ?thesis by (auto simp: registered_by_def)
  qed
next
  assume ?r
  then show ?l
  proof
    assume "e = Conn k c"
    then have "es @ [e] = es @ Conn k c # []" by simp
    then show ?l unfolding registered_by_def by fastforce
  next
    assume r: "registered_by es k c \<and> (\<forall>c'. e \<noteq> Conn k c') \<and> e \<noteq> Disc k c"
    then obtain pre post where "es = pre @ Conn k c # post" "\<forall>c'. Conn k c' \<notin> set post" "Disc k c \<notin> set post"
      by (auto simp: registered_by_def)
    with r show ?l unfolding registered_by_def
      by (intro exI [of _ pre] exI [of _ "post @ [e]"]) auto
  qed
qed

lemma reg_run_lookup:
  "GetConnectorByKey k (reg_run es (NewRelayer F)) = Some c \<longleftrightarrow> registered_by es k c"
proof (induction es arbitrary: k c rule: rev_induct)
  case Nil
  then show ?case by (simp add: reg_run_def NewRelayer_def GetConnectorByKey_def map_Load_def)
next
  case (snoc e es)
  have uniq: "registered_by es k x \<Longrightarrow> registered_by es k y \<Longrightarrow> x = y" for k x y
    using snoc.IH [of k x] snoc.IH [of k y] by simp
  show ?case
    using snoc.IH by (cases e) (auto simp: registered_by_snoc GetConnectorByKey_def map_Load_def dest: uniq)
qed

subsection \<open>Properties\<close>

text \<open>
  C18 (invariant): after any history of fewer than \<open>2 ^ 63\<close> connects and disconnects, in any order and
  with any reconnects under the same key, a key resolves to connector \<open>c\<close> exactly when \<open>c\<close> connected
  under it, no later connect replaced it and it has not disconnected since (a replaced connector's
  late disconnect never evicts its replacement), and \<open>Count\<close> is the number of keys that resolve.
\<close>

theorem registry_history:
  assumes "length es < 2 ^ 63"
  shows "(GetConnectorByKey k (reg_run es (NewRelayer F)) = Some c \<longleftrightarrow> registered_by es k c) \<and>
    Count (reg_run es (NewRelayer F)) = int (card {k. \<exists>c. registered_by es k c})"
proof -
  have "dom (connectors (reg_run es (NewRelayer F))) = {k. \<exists>c. registered_by es k c}"
    unfolding dom_def reg_run_lookup [where F = F, symmetric]
    by (auto simp: GetConnectorByKey_def map_Load_def)
  then show ?thesis
    using reg_run_count_inv [OF assms, of F] by (simp add: reg_run_lookup count_inv_def)
qed

theorem registry_history_witness:
  "let es = [Conn zero_key (1 :: nat), Conn zero_key 2, Disc zero_key 1] in
    (GetConnectorByKey zero_key (reg_run es (NewRelayer exact)) = Some 2 \<longleftrightarrow> registered_by es zero_key 2) \<and>
    Count (reg_run es (NewRelayer exact)) = int (card {k. \<exists>c. registered_by es k c})"
  unfolding Let_def by (rule registry_history) simp

text \<open>
  C8 (functional): \<open>HandleMessage\<close> on a well-formed message of at most ten recipients, at least one of
  them not the sender, in a buffer the caller owns, with pushes that return: it returns; the message
  is pushed, in order, to the registered connectors of its recipients other than the sender and to
  nobody else; every recipient id in the delivered bytes is zeroed while sender, count and payload are
  kept; the buffer gains one reference per accepted push and the caller keeps its own; \<open>processed\<close>
  counts the message once, and \<open>noRecip\<close> each refused push plus one if nothing was accepted.
\<close>

theorem handle_message_multicast:
  assumes "mem_ok h" and "refs_of h b = Some n" and "0 < n" and "n + 10 \<le> 2147483647"
    and "content_of h b = Some (build_message from tos payload)" and "message_parts_ok from tos payload"
    and "length tos \<le> 10" and "filter (\<lambda>id. id \<noteq> self) tos \<noteq> []"
    and "push_all push \<lparr>RecvTime = t, Buf = Some b\<rparr> (dests (filter (\<lambda>id. id \<noteq> self) tos) r) s = Inr (accepted, s')"
  shows "\<exists>h'. HandleMessage push self \<lparr>RecvTime = t, Buf = Some b\<rparr> h s r =
        Inr (h', s', r\<lparr>processed := processed r + 1,
          noRecip := noRecip r + of_nat (length (dests (filter (\<lambda>id. id \<noteq> self) tos) r) - accepted) +
            (if accepted = 0 then 1 else 0)\<rparr>) \<and>
      mem_ok h' \<and> refs_of h' = (refs_of h)(b \<mapsto> n + int accepted) \<and>
      content_of h' = (content_of h)(b \<mapsto> build_message from (replicate (length tos) zero_key) payload)"
proof -
  have ts: "filter (\<lambda>id. id \<noteq> self) tos = targets_of (build_message from tos payload) self"
    using assms(6,7) by (simp add: targets_of_build MaxTargetsPerMessage_def)
  note z = ZeroToIDs_build [OF assms(6)]
  show ?thesis
    using HandleMessage_ok [of "\<lparr>RecvTime = t, Buf = Some b\<rparr>" b h n "build_message from tos payload"
        "filter (\<lambda>id. id \<noteq> self) tos" self push r s accepted s'] assms ts
    by (auto simp: MaxTargetsPerMessage_def routed_relayer_def z)
qed

theorem handle_message_multicast_witness:
  "let tos = [replicate 32 1, zero_key]; h = heap_with (build_message zero_key tos [104, 105]);
      m = \<lparr>RecvTime = 5, Buf = Some 0\<rparr>;
      r = OnConnect (replicate 32 1) (7 :: nat) (NewRelayer exact) in
    \<exists>h'. HandleMessage (\<lambda>d m s. Inr (True, s @ [(d, m)])) zero_key m h [] r =
        Inr (h', [(7, m)], r\<lparr>processed := processed r + 1,
          noRecip := noRecip r + of_nat (length (dests (filter (\<lambda>id. id \<noteq> zero_key) tos) r) - 1) +
            (if (1 :: nat) = 0 then 1 else 0)\<rparr>) \<and>
      mem_ok h' \<and> refs_of h' = (refs_of h)(0 \<mapsto> 1 + int 1) \<and>
      content_of h' = (content_of h)(0 \<mapsto> build_message zero_key (replicate (length tos) zero_key) [104, 105])"
  unfolding Let_def
  by (rule handle_message_multicast)
     (simp_all add: message_parts_ok_def is_key_def zero_key_def)

text \<open>
  A message addressed to nobody but its sender (or to nobody) is dropped without any
  effect: no push, no byte changed, no reference taken, no counter moved.
\<close>

theorem handle_message_self_only:
  assumes "mem_ok h" and "refs_of h b = Some n" and "0 < n" and "n + 10 \<le> 2147483647"
    and "content_of h b = Some msg"
    and "\<forall>i < min 10 (unat (ToIDsLen msg)). id_at msg i = self"
  shows "HandleMessage push self \<lparr>RecvTime = t, Buf = Some b\<rparr> h s r = Inr (h, s, r)"
proof -
  have "targets_of msg self = []"
    using assms(6) by (auto simp: targets_of_def MaxTargetsPerMessage_def filter_empty_conv)
  then show ?thesis
    using HandleMessage_ok [of "\<lparr>RecvTime = t, Buf = Some b\<rparr>" b h n msg "[]" self push r s 0 s] assms
    by (auto simp: MaxTargetsPerMessage_def)
qed

theorem handle_message_self_only_witness:
  "HandleMessage (\<lambda>d m s. Inr (True, d # s)) zero_key \<lparr>RecvTime = 5, Buf = Some 0\<rparr>
     (heap_with (build_message zero_key [zero_key] [])) [] (NewRelayer exact) =
   Inr (heap_with (build_message zero_key [zero_key] []), [], NewRelayer exact)"
proof (rule handle_message_self_only [where n = 1])
  have "message_parts_ok zero_key [zero_key] []" by (simp add: message_parts_ok_def)
  then show "\<forall>i < min 10 (unat (ToIDsLen (build_message zero_key [zero_key] []))).
    id_at (build_message zero_key [zero_key] []) i = zero_key"
    by (simp add: unat_ToIDsLen_build id_at_build)
qed simp_all

text \<open>
  The counter behind \<open>no_recipient_messages\<close> does not count messages without a recipient:
  one message to one registered recipient whose connector refuses it adds two.
\<close>

theorem refused_push_counts_twice:
  assumes "mem_ok h" and "refs_of h b = Some n" and "0 < n" and "n + 10 \<le> 2147483647"
    and "content_of h b = Some (build_message from [to] payload)" and "message_parts_ok from [to] payload"
    and "to \<noteq> self" and "GetConnectorByKey to r = Some d"
    and "push d \<lparr>RecvTime = t, Buf = Some b\<rparr> s = Inr (False, s)"
  shows "\<exists>h'. HandleMessage push self \<lparr>RecvTime = t, Buf = Some b\<rparr> h s r =
    Inr (h', s, r\<lparr>processed := processed r + 1, noRecip := noRecip r + 2\<rparr>)"
proof -
  have ts: "[to] = targets_of (build_message from [to] payload) self"
    using assms(6,7) by (simp add: targets_of_build MaxTargetsPerMessage_def)
  have d: "dests [to] r = [d]" using assms(8) by (simp add: GetConnectorByKey_def map_Load_def)
  show ?thesis
    using HandleMessage_ok [of "\<lparr>RecvTime = t, Buf = Some b\<rparr>" b h n "build_message from [to] payload"
        "[to]" self push r s 0 s] assms ts d
    by (auto simp: MaxTargetsPerMessage_def routed_relayer_def)
qed

theorem refused_push_counts_twice_witness:
  "let r = OnConnect (replicate 32 1) (7 :: nat) (NewRelayer exact) in
    \<exists>h'. HandleMessage (\<lambda>d m s. Inr (False, s)) zero_key \<lparr>RecvTime = 5, Buf = Some 0\<rparr>
      (heap_with (build_message zero_key [replicate 32 1] [])) () r =
    Inr (h', (), r\<lparr>processed := processed r + 1, noRecip := noRecip r + 2\<rparr>)"
  unfolding Let_def
  by (rule refused_push_counts_twice [of _ 0 1 zero_key "replicate 32 1" "[]" _ _ 7])
     (simp_all add: message_parts_ok_def is_key_def zero_key_def GetConnectorByKey_def map_Load_def)

end
