(* ===== verification/Relay_Steps.thy ===== *)
theory Relay_Steps
  imports Wire_Reader WS_Connector Relayer
begin

section \<open>The running server: read loops and write pumps as interleaved steps\<close>

text \<open>
  Every accepted connection runs two goroutines: the handler (\<open>wsHandler\<close>, then the loop of
  \<open>ReadWriteLoop\<close>, with \<open>HandleMessage\<close> inlined at the granularity of its shared accesses) and the
  write pump. \<open>exec\<close> performs one atomic step of one of them, or of the environment; a program
  counter per goroutine says where it stands and which references it holds. A step is not
  enabled (\<open>None\<close>) when the goroutine blocks there or waits for the environment.
  \<open>accepted\<close>, \<open>written\<close> and \<open>completed\<close> are auxiliary histories no step reads: the frames accepted, read back
  from the buffer they were stored in (\<open>read_frame_inv\<close> shows that these are the recipients and the payload
  on the wire), everything handed to \<open>conn.Write\<close>, whether that write then succeeds or fails, and
  what was written with success. Reading a whole frame is one step: until it returns, the buffer
  and the reader belong to the handler alone, and the allocator may answer anything it likes.
\<close>

type_synonym cid = nat

datatype rpc =
    RNew
  | RSwapped bool
  | RStart
  | RReading
  | RHandle baddr int
  | RRoute baddr int "pubkey list" nat
  | RLooked baddr int cid "pubkey list" nat
  | RRetained baddr int cid "pubkey list" nat
  | RUndo baddr int "pubkey list" nat
  | RRefused baddr int "pubkey list" nat
  | RNoMatch baddr
  | RRelease baddr
  | RFail status_code
  | RDisconnect
  | RDecrement bool
  | RClose
  | RDone

datatype wpc =
    WNone
  | WRecv
  | WWrite out_message
  | WRelease out_message bool
  | WSuccess out_message
  | WLatency out_message
  | WFail
  | WClose
  | WDrain
  | WDrainRelease out_message
  | WDone

record proc =
  ws :: wsconn
  rpc :: rpc
  wpc :: wpc

record 'f sys =
  memory :: mem
  procs :: "proc list"
  app :: "(cid, 'f) relayer"
  accepted :: "(cid \<times> pubkey list \<times> bytes) list"
  written :: "(cid \<times> bytes) list"
  completed :: "(cid \<times> bytes) list"

definition init_sys :: "build_target \<Rightarrow> 'f float64_ops \<Rightarrow> 'f sys" where
  "init_sys t F = \<lparr>memory = empty_mem t, procs = [], app = NewRelayer F, accepted = [], written = [], completed = []\<rparr>"

text \<open>
  The steps: a client passes authentication (\<open>Accept\<close>), the WebSocket library reports an error or
  a text frame or a binary frame (its reader \<open>r\<close>, the time the message was read), a goroutine takes
  its next step, a write to a connection ends, a latency is recorded, the latency worker receives a
  value, the application is closed.
\<close>

datatype 'r action =
    Accept pubkey int
  | ReadError cid
  | ReadText cid
  | ReadFrame cid 'r int
  | Reader cid
  | Writer cid
  | WriteDone cid bool
  | Latency cid "64 word"
  | LatencyTake
  | CloseApp

subsection \<open>The handler goroutine\<close>

definition set_proc :: "cid \<Rightarrow> proc \<Rightarrow> 'f sys \<Rightarrow> 'f sys" where
  "set_proc c p s = s\<lparr>procs := (procs s)[c := p]\<rparr>"

definition set_rpc :: "cid \<Rightarrow> rpc \<Rightarrow> 'f sys \<Rightarrow> 'f sys" where
  "set_rpc c pc s = set_proc c ((procs s ! c)\<lparr>rpc := pc\<rparr>) s"

definition set_wpc :: "cid \<Rightarrow> wpc \<Rightarrow> 'f sys \<Rightarrow> 'f sys" where
  "set_wpc c pc s = set_proc c ((procs s ! c)\<lparr>wpc := pc\<rparr>) s"

definition set_ws :: "cid \<Rightarrow> wsconn \<Rightarrow> 'f sys \<Rightarrow> 'f sys" where
  "set_ws c w s = set_proc c ((procs s ! c)\<lparr>ws := w\<rparr>) s"

definition key_of :: "'f sys \<Rightarrow> cid \<Rightarrow> pubkey" where
  "key_of s c = ID (ws (procs s ! c))"

lemma set_proc_simps [simp]:
  "procs (set_rpc c pc s) = (procs s)[c := (procs s ! c)\<lparr>rpc := pc\<rparr>]"
  "procs (set_wpc c pc' s) = (procs s)[c := (procs s ! c)\<lparr>wpc := pc'\<rparr>]"
  "procs (set_ws c w s) = (procs s)[c := (procs s ! c)\<lparr>ws := w\<rparr>]"
  "memory (set_rpc c pc s) = memory s" "memory (set_wpc c pc' s) = memory s" "memory (set_ws c w s) = memory s"
  "app (set_rpc c pc s) = app s" "app (set_wpc c pc' s) = app s" "app (set_ws c w s) = app s"
  "accepted (set_rpc c pc s) = accepted s" "accepted (set_wpc c pc' s) = accepted s"
  "accepted (set_ws c w s) = accepted s"
  "written (set_rpc c pc s) = written s" "written (set_wpc c pc' s) = written s" "written (set_ws c w s) = written s"
  "completed (set_rpc c pc s) = completed s" "completed (set_wpc c pc' s) = completed s"
  "completed (set_ws c w s) = completed s"
  by (simp_all add: set_rpc_def set_wpc_def set_ws_def set_proc_def)

text \<open>\<open>HandleMessage\<close> up to its loop: nobody else can see the buffer yet.\<close>

definition handle_start :: "cid \<Rightarrow> baddr \<Rightarrow> int \<Rightarrow> 'f sys \<Rightarrow> 'f sys res" where
  "handle_start c b t s =
     bind_res (Msg \<lparr>RecvTime = t, Buf = Some b\<rparr> (memory s)) (\<lambda>msg.
     bind_res (ExtractTargets msg (key_of s c) (replicate MaxTargetsPerMessage zero_key)) (\<lambda>(targetN, targets).
       if targetN = 0 then Inr (set_rpc c (RRelease b) s)
       else bind_res (go_slice 0 targetN targets) (\<lambda>ts.
         Inr (set_rpc c (RRoute b t ts 0)
           (s\<lparr>app := IncrementProcessed (app s), memory := write_bytes b (ZeroToIDs msg) (memory s)\<rparr>)))))"

definition retain_step :: "cid \<Rightarrow> baddr \<Rightarrow> rpc \<Rightarrow> 'f sys \<Rightarrow> 'f sys res" where
  "retain_step c b pc s = bind_res (Retain b (memory s)) (\<lambda>h. Inr (set_rpc c pc (s\<lparr>memory := h\<rparr>)))"

definition release_step :: "cid \<Rightarrow> baddr \<Rightarrow> rpc \<Rightarrow> 'f sys \<Rightarrow> 'f sys res" where
  "release_step c b pc s = bind_res (Release b (memory s)) (\<lambda>h. Inr (set_rpc c pc (s\<lparr>memory := h\<rparr>)))"

text \<open>The push of \<open>DeliverTo\<close>: on the destination's connector, found through the interface value.\<close>

definition push_step :: "cid \<Rightarrow> baddr \<Rightarrow> int \<Rightarrow> cid \<Rightarrow> pubkey list \<Rightarrow> nat \<Rightarrow> 'f sys \<Rightarrow> 'f sys res" where
  "push_step c b t d ts matched s =
     (if d < length (procs s) then
        bind_res (SafePush \<lparr>RecvTime = t, Buf = Some b\<rparr> (ws (procs s ! d))) (\<lambda>(ok, w).
          Inr (set_rpc c (if ok then RRoute b t ts (matched + 1) else RUndo b t ts matched) (set_ws d w s)))
      else Inl NilDeref)"

definition reader_step :: "cid \<Rightarrow> 'f sys \<Rightarrow> 'f sys run" where
  "reader_step c s =
     (case rpc (procs s ! c) of
        RNew \<Rightarrow>
          (case map_Swap (key_of s c) c (connectors (app s)) of (old, m) \<Rightarrow>
             Some (Inr (set_rpc c (RSwapped (old \<noteq> None)) (s\<lparr>app := (app s)\<lparr>connectors := m\<rparr>\<rparr>))))
      | RSwapped loaded \<Rightarrow>
          Some (Inr (set_rpc c RStart
            (if loaded then s else s\<lparr>app := (app s)\<lparr>connCount := connCount (app s) + 1\<rparr>\<rparr>)))
      | RStart \<Rightarrow> Some (Inr (set_wpc c WRecv (set_rpc c RReading s)))
      | RReading \<Rightarrow> None
      | RHandle b t \<Rightarrow> Some (handle_start c b t s)
      | RRoute b t [] matched \<Rightarrow>
          Some (Inr (set_rpc c (if matched = 0 then RNoMatch b else RRelease b) s))
      | RRoute b t (target # ts) matched \<Rightarrow>
          Some (Inr (set_rpc c
            (case GetConnectorByKey target (app s) of
               None \<Rightarrow> RRoute b t ts matched | Some d \<Rightarrow> RLooked b t d ts matched) s))
      | RLooked b t d ts matched \<Rightarrow> Some (retain_step c b (RRetained b t d ts matched) s)
      | RRetained b t d ts matched \<Rightarrow> Some (push_step c b t d ts matched s)
      | RUndo b t ts matched \<Rightarrow> Some (release_step c b (RRefused b t ts matched) s)
      | RRefused b t ts matched \<Rightarrow>
          Some (Inr (set_rpc c (RRoute b t ts matched) (s\<lparr>app := IncrementDeliveryFailure (app s)\<rparr>)))
      | RNoMatch b \<Rightarrow>
          Some (Inr (set_rpc c (RRelease b) (s\<lparr>app := IncrementDeliveryFailure (app s)\<rparr>)))
      | RRelease b \<Rightarrow> Some (release_step c b RReading s)
      | RFail code \<Rightarrow>
          Some (Inr (set_rpc c RDisconnect
            (set_ws c ((ws (procs s ! c))\<lparr>connCloses := connCloses (ws (procs s ! c)) @ [code]\<rparr>) s)))
      | RDisconnect \<Rightarrow>
          (case map_CompareAndDelete (key_of s c) c (connectors (app s)) of (hit, m) \<Rightarrow>
             Some (Inr (set_rpc c (RDecrement hit) (s\<lparr>app := (app s)\<lparr>connectors := m\<rparr>\<rparr>))))
      | RDecrement hit \<Rightarrow>
          Some (Inr (set_rpc c RClose
            (if hit then s\<lparr>app := (app s)\<lparr>connCount := connCount (app s) - 1\<rparr>\<rparr> else s)))
      | RClose \<Rightarrow>
          Some (bind_res (Close_conn (ws (procs s ! c))) (\<lambda>w. Inr (set_rpc c RDone (set_ws c w s))))
      | RDone \<Rightarrow> None)"

text \<open>What the loop does with the outcome of reading one binary frame.\<close>

definition after_error :: "err \<Rightarrow> rpc" where
  "after_error e =
     (case e of
        ErrSkipMessage \<Rightarrow> RReading
      | ErrMessageTooLarge \<Rightarrow> RFail StatusMessageTooBig
      | ErrInvalidMessage \<Rightarrow> RFail StatusUnsupportedData
      | _ \<Rightarrow> RDisconnect)"

text \<open>\<open>parts_of\<close> reads the accepted frame back for the history.\<close>

definition parts_of :: "message \<Rightarrow> pubkey list \<times> bytes" where
  "parts_of msg =
     (map (id_at msg) [0..<unat (ToIDsLen msg)],
      case Payload msg of Inr (Some p) \<Rightarrow> p | _ \<Rightarrow> [])"

definition read_frame ::
  "'r reader \<Rightarrow> malloc \<Rightarrow> cid \<Rightarrow> 'r \<Rightarrow> int \<Rightarrow> 'f sys \<Rightarrow> 'f sys run" where
  "read_frame read malloc c r t s =
     (if rpc (procs s ! c) = RReading then
        bind_run (readMessageWithFixedFromID read malloc (int MaxMessageSize) (key_of s c) r (memory s))
          (\<lambda>(res, r', h).
             case res of
               Inr b \<Rightarrow>
                 Some (bind_res (Bytes b h) (\<lambda>msg.
                   Inr (set_rpc c (RHandle b t)
                     (s\<lparr>memory := h, accepted := accepted s @ [(c, parts_of msg)]\<rparr>))))
             | Inl e \<Rightarrow> Some (Inr (set_rpc c (after_error e) (s\<lparr>memory := h\<rparr>))))
      else None)"

subsection \<open>The write pump\<close>

definition drop_ref :: "out_message \<Rightarrow> mem \<Rightarrow> mem res" where
  "drop_ref m h = (case Buf m of None \<Rightarrow> Inr h | Some b \<Rightarrow> Release b h)"

definition writer_release :: "cid \<Rightarrow> out_message \<Rightarrow> wpc \<Rightarrow> 'f sys \<Rightarrow> 'f sys res" where
  "writer_release c m pc s = bind_res (drop_ref m (memory s)) (\<lambda>h. Inr (set_wpc c pc (s\<lparr>memory := h\<rparr>)))"

definition writer_recv :: "cid \<Rightarrow> (out_message \<Rightarrow> wpc) \<Rightarrow> 'f sys \<Rightarrow> 'f sys run" where
  "writer_recv c pc s =
     (case recv (ws (procs s ! c)) of
        (Received m, w) \<Rightarrow> Some (Inr (set_wpc c (pc m) (set_ws c w s)))
      | (Finished, w) \<Rightarrow> Some (Inr (set_wpc c WDone s))
      | (WouldBlock, w) \<Rightarrow> None)"

definition writer_step :: "cid \<Rightarrow> 'f sys \<Rightarrow> 'f sys run" where
  "writer_step c s =
     (case wpc (procs s ! c) of
        WRecv \<Rightarrow> writer_recv c WWrite s
      | WRelease m ok \<Rightarrow> Some (writer_release c m (if ok then WSuccess m else WFail) s)
      | WSuccess m \<Rightarrow> Some (Inr (set_wpc c (WLatency m) (s\<lparr>app := IncrementDeliverySuccess (app s)\<rparr>)))
      | WFail \<Rightarrow> Some (Inr (set_wpc c WClose (s\<lparr>app := IncrementDeliveryFailure (app s)\<rparr>)))
      | WClose \<Rightarrow>
          Some (bind_res (Close_conn (ws (procs s ! c))) (\<lambda>w. Inr (set_wpc c WDrain (set_ws c w s))))
      | WDrain \<Rightarrow> writer_recv c WDrainRelease s
      | WDrainRelease m \<Rightarrow> Some (writer_release c m WDrain s)
      | _ \<Rightarrow> None)"

text \<open>\<open>conn.Write\<close> has returned: in either case it was handed the message, \<open>written\<close>; \<open>completed\<close> if it succeeded.\<close>

definition log_write :: "cid \<Rightarrow> bool \<Rightarrow> bytes \<Rightarrow> 'f sys \<Rightarrow> 'f sys" where
  "log_write c ok msg s =
     s\<lparr>written := written s @ [(c, msg)], completed := (if ok then completed s @ [(c, msg)] else completed s)\<rparr>"

lemma log_write_simps [simp]:
  "memory (log_write c ok msg s) = memory s" "procs (log_write c ok msg s) = procs s"
  "app (log_write c ok msg s) = app s" "accepted (log_write c ok msg s) = accepted s"
  "written (log_write c ok msg s) = written s @ [(c, msg)]"
  "completed (log_write c ok msg s) = (if ok then completed s @ [(c, msg)] else completed s)"
  by (simp_all add: log_write_def)

definition write_done :: "cid \<Rightarrow> bool \<Rightarrow> 'f sys \<Rightarrow> 'f sys run" where
  "write_done c ok s =
     (case wpc (procs s ! c) of
        WWrite m \<Rightarrow>
          Some (bind_res (Msg m (memory s)) (\<lambda>msg.
            Inr (set_wpc c (WRelease m ok) (log_write c ok msg s))))
      | _ \<Rightarrow> None)"

definition record_latency :: "cid \<Rightarrow> 64 word \<Rightarrow> 'f sys \<Rightarrow> 'f sys run" where
  "record_latency c d s =
     (case wpc (procs s ! c) of
        WLatency m \<Rightarrow> Some (bind_res (RecordLatency d (app s)) (\<lambda>a. Inr (set_wpc c WRecv (s\<lparr>app := a\<rparr>))))
      | _ \<Rightarrow> None)"

subsection \<open>One step, and runs\<close>

text \<open>
  Of the latency worker only its receive matters here (the rest is in \<open>Latency_Stats\<close>), and of
  \<open>Close\<close> that it closes the channel.
\<close>

fun exec :: "'r reader \<Rightarrow> malloc \<Rightarrow> 'r action \<Rightarrow> 'f sys \<Rightarrow> 'f sys run" where
  "exec read malloc (Accept k n) s =
     (case NewWSConnector k n of
        Inl e \<Rightarrow> None
      | Inr w \<Rightarrow>
          if is_key k then Some (Inr (s\<lparr>procs := procs s @ [\<lparr>ws = w, rpc = RNew, wpc = WNone\<rparr>]\<rparr>)) else None)"
| "exec read malloc (ReadError c) s =
     (if c < length (procs s) \<and> rpc (procs s ! c) = RReading
      then Some (Inr (set_rpc c RDisconnect s)) else None)"
| "exec read malloc (ReadText c) s =
     (if c < length (procs s) \<and> rpc (procs s ! c) = RReading then Some (Inr s) else None)"
| "exec read malloc (ReadFrame c r t) s =
     (if c < length (procs s) then read_frame read malloc c r t s else None)"
| "exec read malloc (Reader c) s = (if c < length (procs s) then reader_step c s else None)"
| "exec read malloc (Writer c) s = (if c < length (procs s) then writer_step c s else None)"
| "exec read malloc (WriteDone c ok) s = (if c < length (procs s) then write_done c ok s else None)"
| "exec read malloc (Latency c d) s = (if c < length (procs s) then record_latency c d s else None)"
| "exec read malloc LatencyTake s = Some (Inr (s\<lparr>app := (app s)\<lparr>latencyCh := tl (latencyCh (app s))\<rparr>\<rparr>))"
| "exec read malloc CloseApp s =
     (if latencyChClosed (app s) then Some (Inl CloseOfClosedChan)
      else Some (Inr (s\<lparr>app := (app s)\<lparr>latencyChClosed := True, latencyCh := []\<rparr>\<rparr>)))"

text \<open>
  A connection whose queue does not fit is never served: \<open>net/http\<close> recovers the panic of its handler.
\<close>

lemma exec_Accept [simp]:
  "exec read malloc (Accept k n) s =
     (if is_key k \<and> queue_fits n
      then Some (Inr (s\<lparr>procs := procs s @ [\<lparr>ws = new_wsconn k n, rpc = RNew, wpc = WNone\<rparr>]\<rparr>)) else None)"
  by (simp add: NewWSConnector_def)

declare exec.simps(1) [simp del]

lemma queue_fits_iff [simp]: "queue_fits n \<longleftrightarrow> n \<le> 8796093022205"
  by (auto simp: queue_fits_def makes_def max_alloc_def)

fun exec_all :: "'r reader \<Rightarrow> malloc \<Rightarrow> 'r action list \<Rightarrow> 'f sys \<Rightarrow> 'f sys run" where
  "exec_all read malloc [] s = Some (Inr s)"
| "exec_all read malloc (a # as) s = bind_run (exec read malloc a s) (exec_all read malloc as)"

text \<open>The states the server can be in.\<close>

inductive reachable :: "'r reader \<Rightarrow> malloc \<Rightarrow> 'f sys \<Rightarrow> 'f sys \<Rightarrow> bool"
  for read malloc s0 where
  start: "reachable read malloc s0 s0"
| step: "reachable read malloc s0 s \<Longrightarrow> exec read malloc a s = Some (Inr s') \<Longrightarrow> reachable read malloc s0 s'"

lemma exec_all_reachable:
  "exec_all read malloc as s = Some (Inr s') \<Longrightarrow> reachable read malloc s0 s \<Longrightarrow> reachable read malloc s0 s'"
proof (induction as arbitrary: s)
  case (Cons a as)
  then obtain s1 where "exec read malloc a s = Some (Inr s1)" "exec_all read malloc as s1 = Some (Inr s')"
    by (auto simp: bind_run_def split: option.splits sum.splits)
  with Cons.IH Cons.prems(2) reachable.step show ?case by blast
qed simp

end
