(* ===== verification/Relay_Memory.thy ===== *)
theory Relay_Memory
  imports Relay_Steps
begin

section \<open>Reference counting across the running server\<close>

text \<open>
  The memory invariant of the interleaved server: the count of every buffer is the number of
  references the queues, the handlers and the write pumps hold, at most eleven. It is preserved by
  every step, and a state that satisfies it cannot fault in one: no buffer is released twice or
  used after its last release, no count overflows, no closed channel is sent on.
\<close>

subsection \<open>Who holds what\<close>

fun reader_buf :: "rpc \<Rightarrow> baddr option" where
  "reader_buf (RHandle b t) = Some b"
| "reader_buf (RRoute b t ts k) = Some b"
| "reader_buf (RLooked b t d ts k) = Some b"
| "reader_buf (RRetained b t d ts k) = Some b"
| "reader_buf (RUndo b t ts k) = Some b"
| "reader_buf (RRefused b t ts k) = Some b"
| "reader_buf (RNoMatch b) = Some b"
| "reader_buf (RRelease b) = Some b"
| "reader_buf _ = None"

fun reader_refs :: "rpc \<Rightarrow> nat" where
  "reader_refs (RRetained b t d ts k) = 2"
| "reader_refs (RUndo b t ts k) = 2"
| "reader_refs _ = 1"

definition rhold :: "baddr \<Rightarrow> rpc \<Rightarrow> nat" where
  "rhold b pc = (if reader_buf pc = Some b then reader_refs pc else 0)"

fun in_hand :: "wpc \<Rightarrow> out_message list" where
  "in_hand (WWrite m) = [m]"
| "in_hand (WRelease m ok) = [m]"
| "in_hand (WDrainRelease m) = [m]"
| "in_hand _ = []"

definition weight :: "baddr \<Rightarrow> proc \<Rightarrow> nat" where
  "weight b p = held b (outChan (ws p)) + rhold b (rpc p) + held b (in_hand (wpc p))"

definition owners :: "baddr \<Rightarrow> proc list \<Rightarrow> nat" where
  "owners b ps = sum_list (map (weight b) ps)"

text \<open>How many more references the handler may still make.\<close>

fun pending :: "rpc \<Rightarrow> nat" where
  "pending (RHandle b t) = MaxTargetsPerMessage"
| "pending (RRoute b t ts k) = length ts"
| "pending (RLooked b t d ts k) = Suc (length ts)"
| "pending (RRetained b t d ts k) = length ts"
| "pending (RUndo b t ts k) = length ts"
| "pending (RRefused b t ts k) = length ts"
| "pending _ = 0"

fun looked :: "rpc \<Rightarrow> cid option" where
  "looked (RLooked b t d ts k) = Some d"
| "looked (RRetained b t d ts k) = Some d"
| "looked _ = None"

text \<open>The handler has not started the write pump yet.\<close>

fun starting :: "rpc \<Rightarrow> bool" where
  "starting RNew = True"
| "starting (RSwapped loaded) = True"
| "starting RStart = True"
| "starting _ = False"

definition proc_ok :: "proc \<Rightarrow> bool" where
  "proc_ok p \<longleftrightarrow>
     conn_ok (ws p) \<and> is_key (ID (ws p)) \<and>
     (wpc p \<in> {WDrain, WDone} \<or> (\<exists>m. wpc p = WDrainRelease m) \<longrightarrow> isClosed (ws p)) \<and>
     (wpc p = WDone \<longrightarrow> outChan (ws p) = []) \<and>
     (rpc p = RDone \<longrightarrow> isClosed (ws p)) \<and>
     (starting (rpc p) \<longrightarrow> wpc p = WNone)"

definition mem_inv :: "mem \<Rightarrow> proc list \<Rightarrow> bool" where
  "mem_inv h ps \<longleftrightarrow>
     mem_ok h \<and>
     (\<forall>b. refs_of h b = (if b < next_buf h then Some (int (owners b ps)) else None)) \<and>
     (\<forall>b. next_buf h \<le> b \<longrightarrow> owners b ps = 0) \<and>
     (\<forall>i j b. i < length ps \<longrightarrow> j < length ps \<longrightarrow> reader_buf (rpc (ps ! i)) = Some b \<longrightarrow>
        reader_buf (rpc (ps ! j)) = Some b \<longrightarrow> i = j) \<and>
     (\<forall>i b. i < length ps \<longrightarrow> reader_buf (rpc (ps ! i)) = Some b \<longrightarrow>
        owners b ps + pending (rpc (ps ! i)) \<le> Suc MaxTargetsPerMessage) \<and>
     (\<forall>p \<in> set ps. proc_ok p)"

definition registry_inv :: "'f sys \<Rightarrow> bool" where
  "registry_inv s \<longleftrightarrow>
     (\<forall>k c. connectors (app s) k = Some c \<longrightarrow> c < length (procs s) \<and> key_of s c = k) \<and>
     (\<forall>p \<in> set (procs s). \<forall>d. looked (rpc p) = Some d \<longrightarrow> d < length (procs s))"

definition sys_inv :: "'f sys \<Rightarrow> bool" where
  "sys_inv s \<longleftrightarrow> mem_inv (memory s) (procs s) \<and> registry_inv s"

lemma mem_invD:
  assumes "mem_inv h ps"
  shows "mem_ok h"
    and "b < next_buf h \<Longrightarrow> refs_of h b = Some (int (owners b ps))"
    and "next_buf h \<le> b \<Longrightarrow> owners b ps = 0"
    and "i < length ps \<Longrightarrow> j < length ps \<Longrightarrow> reader_buf (rpc (ps ! i)) = Some b \<Longrightarrow>
        reader_buf (rpc (ps ! j)) = Some b \<Longrightarrow> i = j"
    and "i < length ps \<Longrightarrow> reader_buf (rpc (ps ! i)) = Some b \<Longrightarrow>
        owners b ps + pending (rpc (ps ! i)) \<le> Suc MaxTargetsPerMessage"
    and "p \<in> set ps \<Longrightarrow> proc_ok p"
    and "refs_of h b = (if b < next_buf h then Some (int (owners b ps)) else None)"
  using assms unfolding mem_inv_def by auto

lemma owners_update:
  "c < length ps \<Longrightarrow> owners b (ps[c := p]) + weight b (ps ! c) = owners b ps + weight b p"
  unfolding owners_def by (rule sum_list_map_update)

lemma owners_ge: "c < length ps \<Longrightarrow> weight b (ps ! c) \<le> owners b ps"
  unfolding owners_def by (rule sum_list_map_ge)

lemma owners_ge2:
  assumes "c < length ps" and "d < length ps" and "c \<noteq> d"
  shows "weight b (ps ! c) + weight b (ps ! d) \<le> owners b ps"
proof -
  let ?p = "(ps ! c)\<lparr>ws := (ws (ps ! c))\<lparr>outChan := []\<rparr>, rpc := RDone, wpc := WDone\<rparr>"
  have "weight b ?p = 0" by (simp add: weight_def rhold_def)
  then have "owners b (ps[c := ?p]) + weight b (ps ! c) = owners b ps"
    using owners_update [OF assms(1), of b ?p] by simp
  moreover have "weight b (ps[c := ?p] ! d) \<le> owners b (ps[c := ?p])"
    using assms(2) by (intro owners_ge) simp
  ultimately show ?thesis using assms(3) by simp
qed

text \<open>A reference somebody holds is to a buffer that exists and has an owner.\<close>

lemma held_owner:
  assumes inv: "mem_inv h ps" and "c < length ps" and "0 < weight b (ps ! c)"
  shows "b < next_buf h" and "refs_of h b = Some (int (owners b ps))" and "0 < owners b ps"
proof -
  show pos: "0 < owners b ps" using owners_ge [OF assms(2), of b] assms(3) by simp
  then show lt: "b < next_buf h" using mem_invD(3) [OF inv, of b] by (cases "b < next_buf h") auto
  then show "refs_of h b = Some (int (owners b ps))" by (rule mem_invD(2) [OF inv])
qed

text \<open>The one proof obligation behind every step that does not add a buffer or a connection.\<close>

lemma mem_inv_step:
  assumes inv: "mem_inv h ps" and len: "length ps' = length ps" and ok: "mem_ok h'"
    and nb: "next_buf h' = next_buf h"
    and refs: "\<And>b. b < next_buf h \<Longrightarrow> refs_of h' b = Some (int (owners b ps'))"
    and none: "\<And>b. next_buf h \<le> b \<Longrightarrow> refs_of h' b = None \<and> owners b ps' = 0"
    and rd: "\<And>i b. i < length ps \<Longrightarrow> reader_buf (rpc (ps' ! i)) = Some b \<Longrightarrow>
        reader_buf (rpc (ps ! i)) = Some b \<and>
        owners b ps' + pending (rpc (ps' ! i)) \<le> owners b ps + pending (rpc (ps ! i))"
    and ps: "\<And>p. p \<in> set ps' \<Longrightarrow> proc_ok p"
  shows "mem_inv h' ps'"
proof -
  have "i = j" if "i < length ps'" "j < length ps'" "reader_buf (rpc (ps' ! i)) = Some b"
    "reader_buf (rpc (ps' ! j)) = Some b" for i j b
    using mem_invD(4) [OF inv, of i j b] rd [of i b] rd [of j b] that len by simp
  moreover have "owners b ps' + pending (rpc (ps' ! i)) \<le> Suc MaxTargetsPerMessage"
    if "i < length ps'" "reader_buf (rpc (ps' ! i)) = Some b" for i b
    using mem_invD(5) [OF inv, of i b] rd [of i b] that len by simp
  ultimately show ?thesis
    unfolding mem_inv_def using ok nb refs none ps by (auto simp: not_less)
qed

text \<open>A step of one goroutine that touches nothing of the others.\<close>

lemma mem_inv_one:
  assumes inv: "mem_inv h ps" and c: "c < length ps" and ok: "mem_ok h'" and nb: "next_buf h' = next_buf h"
    and refs: "\<And>a. refs_of h' a =
      map_option (\<lambda>n. n + int (weight a p') - int (weight a (ps ! c))) (refs_of h a)"
    and keep: "\<And>a. weight a (ps ! c) = 0 \<Longrightarrow> weight a p' = 0"
    and rd: "\<And>a. reader_buf (rpc p') = Some a \<Longrightarrow>
      reader_buf (rpc (ps ! c)) = Some a \<and>
      weight a p' + pending (rpc p') \<le> weight a (ps ! c) + pending (rpc (ps ! c))"
    and grow: "\<And>a. reader_buf (rpc p') \<noteq> Some a \<Longrightarrow> weight a p' \<le> weight a (ps ! c)"
    and p: "proc_ok p'"
  shows "mem_inv h' (ps[c := p'])"
proof (rule mem_inv_step [OF inv _ ok nb])
  note up = owners_update [OF c, of _ p']
  show "refs_of h' b = Some (int (owners b (ps[c := p'])))" if "b < next_buf h" for b
    using refs [of b] up [of b] mem_invD(2) [OF inv that] by simp
  show "refs_of h' b = None \<and> owners b (ps[c := p']) = 0" if "next_buf h \<le> b" for b
    using refs [of b] up [of b] mem_invD(3,7) [OF inv, of b] that keep [of b] owners_ge [OF c, of b] by simp
  show "proc_ok q" if "q \<in> set (ps[c := p'])" for q
    using that p mem_invD(6) [OF inv] set_update_subset_insert [of ps c p'] by blast
  show "reader_buf (rpc (ps ! i)) = Some b \<and>
      owners b (ps[c := p']) + pending (rpc (ps[c := p'] ! i)) \<le> owners b ps + pending (rpc (ps ! i))"
    if i: "i < length ps" and b: "reader_buf (rpc (ps[c := p'] ! i)) = Some b" for i b
  proof (cases "i = c")
    case True
    with c rd [of b] up [of b] b show ?thesis by simp
  next
    case False
    then have ib: "reader_buf (rpc (ps ! i)) = Some b" using b by simp
    have "weight b p' \<le> weight b (ps ! c)"
      using grow [of b] rd [of b] mem_invD(4) [OF inv i c ib] False by auto
    with False ib up [of b] show ?thesis by simp
  qed
qed simp

text \<open>The three kinds of such steps: no reference moves, one is made, one is dropped.\<close>

lemma mem_inv_local':
  assumes inv: "mem_inv h ps" and c: "c < length ps"
    and w: "\<And>a. weight a p' = weight a (ps ! c)"
    and rd: "\<And>a. reader_buf (rpc p') = Some a \<Longrightarrow>
      reader_buf (rpc (ps ! c)) = Some a \<and> pending (rpc p') \<le> pending (rpc (ps ! c))"
    and p: "proc_ok p'"
    and h': "mem_ok h'" "next_buf h' = next_buf h" "refs_of h' = refs_of h"
  shows "mem_inv h' (ps[c := p'])"
  by (rule mem_inv_one [OF inv c h'(1,2)])
     (simp_all add: w rd p h'(3) option.map_ident)

lemmas mem_inv_local = mem_inv_local' [OF _ _ _ _ _ mem_invD(1) refl refl]

lemma mem_inv_retain:
  assumes inv: "mem_inv h ps" and c: "c < length ps" and b: "reader_buf (rpc (ps ! c)) = Some b"
    and pend: "0 < pending (rpc (ps ! c))"
    and w: "\<And>a. weight a p' = weight a (ps ! c) + (if a = b then 1 else 0)"
    and rd: "reader_buf (rpc p') = Some b" "Suc (pending (rpc p')) \<le> pending (rpc (ps ! c))"
    and p: "proc_ok p'"
  shows "\<exists>h'. Retain b h = Inr h' \<and> mem_inv h' (ps[c := p']) \<and> content_of h' = content_of h"
proof -
  have pos: "0 < weight b (ps ! c)"
    using b by (cases "rpc (ps ! c)") (auto simp: weight_def rhold_def)
  note own = held_owner [OF inv c pos]
  have "owners b ps < 2147483647"
    using mem_invD(5) [OF inv c b] pend by (simp add: MaxTargetsPerMessage_def)
  then obtain h' where h': "Retain b h = Inr h'" "mem_ok h'" "refs_of h' = (refs_of h)(b \<mapsto> int (owners b ps) + 1)"
    "content_of h' = content_of h" "next_buf h' = next_buf h"
    using Retain_ok [OF mem_invD(1) [OF inv] own(2)] own(3) by auto
  have "mem_inv h' (ps[c := p'])"
  proof (rule mem_inv_one [OF inv c h'(2,5)])
    fix a
    show "refs_of h' a = map_option (\<lambda>n. n + int (weight a p') - int (weight a (ps ! c))) (refs_of h a)"
      using own(2) by (simp add: h'(3) w option.map_ident)
    show "weight a (ps ! c) = 0 \<Longrightarrow> weight a p' = 0" using pos by (auto simp: w)
    show "reader_buf (rpc p') = Some a \<Longrightarrow> reader_buf (rpc (ps ! c)) = Some a \<and>
      weight a p' + pending (rpc p') \<le> weight a (ps ! c) + pending (rpc (ps ! c))"
      using rd b by (simp add: w)
    show "reader_buf (rpc p') \<noteq> Some a \<Longrightarrow> weight a p' \<le> weight a (ps ! c)"
      using rd by (simp add: w)
  qed (rule p)
  with h' show ?thesis by blast
qed

lemma mem_inv_release:
  assumes inv: "mem_inv h ps" and c: "c < length ps" and pos: "0 < weight b (ps ! c)"
    and w: "\<And>a. weight a p' = weight a (ps ! c) - (if a = b then 1 else 0)"
    and rd: "\<And>a. reader_buf (rpc p') = Some a \<Longrightarrow>
      reader_buf (rpc (ps ! c)) = Some a \<and> pending (rpc p') \<le> pending (rpc (ps ! c))"
    and p: "proc_ok p'"
  shows "\<exists>h'. Release b h = Inr h' \<and> mem_inv h' (ps[c := p']) \<and>
    content_of h' = (if owners b ps = 1 then (content_of h)(b \<mapsto> []) else content_of h)"
proof -
  note own = held_owner [OF inv c pos]
  obtain h' where h': "Release b h = Inr h'" "mem_ok h'" "refs_of h' = (refs_of h)(b \<mapsto> int (owners b ps) - 1)"
    "content_of h' = (if int (owners b ps) = 1 then (content_of h)(b \<mapsto> []) else content_of h)"
    "next_buf h' = next_buf h"
    using Release_ok [OF mem_invD(1) [OF inv] own(2)] own(3) by auto
  have "mem_inv h' (ps[c := p'])"
  proof (rule mem_inv_one [OF inv c h'(2,5)])
    fix a
    show "refs_of h' a = map_option (\<lambda>n. n + int (weight a p') - int (weight a (ps ! c))) (refs_of h a)"
      using own(2) pos by (simp add: h'(3) w option.map_ident of_nat_diff)
    show "weight a (ps ! c) = 0 \<Longrightarrow> weight a p' = 0" by (simp add: w)
    have "weight a p' \<le> weight a (ps ! c)" by (simp add: w)
    then show "reader_buf (rpc p') = Some a \<Longrightarrow> reader_buf (rpc (ps ! c)) = Some a \<and>
      weight a p' + pending (rpc p') \<le> weight a (ps ! c) + pending (rpc (ps ! c))"
      using rd [of a] by (auto intro: add_mono)
  qed (simp_all add: w p)
  moreover have "(int (owners b ps) = 1) = (owners b ps = 1)" by linarith
  ultimately show ?thesis using h' by auto
qed

text \<open>A push moves a reference from the handler into the destination's queue, or moves none.\<close>

lemma mem_inv_push:
  assumes inv: "mem_inv h ps" and c: "c < length ps" and d: "d < length ps"
    and pc: "rpc (ps ! c) = RRetained b t d ts k"
    and push: "SafePush \<lparr>RecvTime = t, Buf = Some b\<rparr> (ws (ps ! d)) = Inr (ok, w)"
    and ps': "ps' = ps[d := (ps ! d)\<lparr>ws := w\<rparr>]"
  shows "mem_inv h (ps'[c := (ps' ! c)\<lparr>rpc := if ok then RRoute b t ts (k + 1) else RUndo b t ts k\<rparr>])"
proof -
  let ?p = "(ps' ! c)\<lparr>rpc := if ok then RRoute b t ts (k + 1) else RUndo b t ts k\<rparr>"
  have okd: "proc_ok (ps ! d)" and okc: "proc_ok (ps ! c)"
    using mem_invD(6) [OF inv] c d by simp_all
  have w: "w = (ws (ps ! d))\<lparr>outChan := outChan (ws (ps ! d)) @ [\<lparr>RecvTime = t, Buf = Some b\<rparr>]\<rparr> \<and>
      \<not> isClosed (ws (ps ! d)) \<and> length (outChan (ws (ps ! d))) < outCap (ws (ps ! d)) \<and> ok \<or> w = ws (ps ! d) \<and> \<not> ok"
    using push by (cases ok) (auto simp: SafePush_def split: if_splits)
  have okd': "proc_ok ((ps ! d)\<lparr>ws := w\<rparr>)"
    using w okd by (auto simp: proc_ok_def conn_ok_def ID_def)
  have len: "length ps' = length ps" by (simp add: ps')
  have pc': "rpc (ps' ! i) = rpc (ps ! i)" for i
    using d by (cases "i = d") (simp_all add: ps')
  have w1: "weight a ((ps ! d)\<lparr>ws := w\<rparr>) = weight a (ps ! d) + (if ok \<and> a = b then 1 else 0)" for a
    using w by (auto simp: weight_def)
  have w2: "weight a ?p + (if ok \<and> a = b then 1 else 0) = weight a (ps' ! c)" for a
    using pc' [of c] pc by (auto simp: weight_def rhold_def)
  have own: "owners a (ps'[c := ?p]) = owners a ps" for a
    using owners_update [OF d, of a "(ps ! d)\<lparr>ws := w\<rparr>"] w1 [of a] w2 [of a]
      owners_update [of c ps' a ?p] c len unfolding ps' by (auto split: if_splits)
  have ok': "proc_ok q" if "q \<in> set (ps'[c := ?p])" for q
  proof -
    have all: "\<forall>q \<in> set ps'. proc_ok q"
      using okd' mem_invD(6) [OF inv] set_update_subset_insert [of ps d] unfolding ps' by blast
    moreover from this have "proc_ok ?p"
      using c len pc by (auto simp: proc_ok_def)
    ultimately show ?thesis using that set_update_subset_insert [of ps' c ?p] by blast
  qed
  show ?thesis
  proof (rule mem_inv_step [OF inv _ mem_invD(1) [OF inv] refl])
    show "reader_buf (rpc (ps ! i)) = Some a \<and>
      owners a (ps'[c := ?p]) + pending (rpc (ps'[c := ?p] ! i)) \<le> owners a ps + pending (rpc (ps ! i))"
      if "i < length ps" "reader_buf (rpc (ps'[c := ?p] ! i)) = Some a" for i a
      using that own [of a] pc pc' [of i] len c by (cases "i = c") (auto split: if_splits)
  qed (simp_all add: own len ok' mem_invD(2,3,7) [OF inv])
qed

text \<open>A new message: its handler holds the only reference.\<close>

lemma mem_inv_new:
  assumes inv: "mem_inv h ps" and c: "c < length ps" and pc: "rpc (ps ! c) = RReading"
    and plus: "mem_plus h n d h'"
    and n: "(n = 1 \<and> rpc' = RHandle (next_buf h) t) \<or> (n = 0 \<and> reader_buf rpc' = None \<and> rpc' \<noteq> RDone \<and> \<not> starting rpc')"
  shows "mem_inv h' (ps[c := (ps ! c)\<lparr>rpc := rpc'\<rparr>])"
proof -
  let ?b = "next_buf h" and ?p = "(ps ! c)\<lparr>rpc := rpc'\<rparr>"
  from plus have h': "mem_ok h'" "refs_of h' = (refs_of h)(?b \<mapsto> n)" "next_buf h' = Suc ?b"
    by (auto simp: mem_plus_def)
  have w0: "weight a ?p = weight a (ps ! c) + (if n = 1 \<and> a = ?b then 1 else 0)" for a
    using n pc by (auto simp: weight_def rhold_def)
  have own: "owners a (ps[c := ?p]) = owners a ps + (if n = 1 \<and> a = ?b then 1 else 0)" for a
    using owners_update [OF c, of a ?p] w0 [of a] by simp
  have fresh: "owners a ps = 0" if "?b \<le> a" for a by (rule mem_invD(3) [OF inv that])
  have nob: "reader_buf (rpc (ps ! i)) \<noteq> Some ?b" if "i < length ps" for i
  proof
    assume r: "reader_buf (rpc (ps ! i)) = Some ?b"
    have "1 \<le> reader_refs pc" for pc by (cases pc) simp_all
    with r have "0 < weight ?b (ps ! i)" by (auto simp: weight_def rhold_def Suc_le_eq)
    with owners_ge [OF that, of ?b] fresh [of ?b] show False by simp
  qed
  have rd: "reader_buf (rpc (ps[c := ?p] ! i)) = Some a \<Longrightarrow>
      (i = c \<and> a = ?b \<and> n = 1 \<and> pending (rpc (ps[c := ?p] ! i)) = MaxTargetsPerMessage) \<or>
      (i \<noteq> c \<and> a \<noteq> ?b \<and> reader_buf (rpc (ps ! i)) = Some a)" if "i < length ps" for i a
    using that n nob [OF that] by (cases "i = c") auto
  have ok: "\<forall>q \<in> set (ps[c := ?p]). proc_ok q"
  proof -
    have "proc_ok (ps ! c)" using mem_invD(6) [OF inv] c by simp
    then have "proc_ok ?p" using n by (auto simp: proc_ok_def)
    then show ?thesis using mem_invD(6) [OF inv] set_update_subset_insert [of ps c ?p] by blast
  qed
  have inj: "i = j" if "i < length ps" "j < length ps" "reader_buf (rpc (ps[c := ?p] ! i)) = Some a"
    "reader_buf (rpc (ps[c := ?p] ! j)) = Some a" for i j a
    using rd [of i a] rd [of j a] that mem_invD(4) [OF inv, of i j a] by blast
  have bnd: "owners a (ps[c := ?p]) + pending (rpc (ps[c := ?p] ! i)) \<le> Suc MaxTargetsPerMessage"
    if "i < length ps" "reader_buf (rpc (ps[c := ?p] ! i)) = Some a" for i a
    using rd [of i a] that own [of a] fresh [of ?b] mem_invD(5) [OF inv, of i a] by auto
  have refs: "refs_of h' a = (if a < next_buf h' then Some (int (owners a (ps[c := ?p]))) else None)" for a
    using own [of a] n fresh [of a] mem_invD(7) [OF inv, of a] by (auto simp: h' less_Suc_eq)
  have none: "owners a (ps[c := ?p]) = 0" if "next_buf h' \<le> a" for a
    using own [of a] fresh [of a] that h'(3) by simp
  show ?thesis
    unfolding mem_inv_def length_list_update using h'(1) refs none inj bnd ok by blast
qed

lemma mem_inv_accept:
  assumes inv: "mem_inv h ps" and k: "is_key k"
  shows "mem_inv h (ps @ [\<lparr>ws = new_wsconn k n, rpc = RNew, wpc = WNone\<rparr>])"
proof -
  let ?p = "\<lparr>ws = new_wsconn k n, rpc = RNew, wpc = WNone\<rparr>"
  have own: "owners a (ps @ [?p]) = owners a ps" for a
    by (simp add: owners_def weight_def rhold_def new_wsconn_def Let_def)
  have "proc_ok ?p" using k by (simp add: proc_ok_def ID_def new_wsconn_def Let_def conn_ok_def)
  then have ok: "\<forall>q \<in> set (ps @ [?p]). proc_ok q" using mem_invD(6) [OF inv] by simp
  have rd: "i < length ps \<and> (ps @ [?p]) ! i = ps ! i"
    if "reader_buf (rpc ((ps @ [?p]) ! i)) = Some a" "i < length (ps @ [?p])" for i a
    using that by (cases "i < length ps") (auto simp: nth_append)
  have inj: "i = j" if "i < length (ps @ [?p])" "j < length (ps @ [?p])"
    "reader_buf (rpc ((ps @ [?p]) ! i)) = Some a" "reader_buf (rpc ((ps @ [?p]) ! j)) = Some a" for i j a
    using rd [OF that(3,1)] rd [OF that(4,2)] that(3,4) mem_invD(4) [OF inv, of i j a] by simp
  have bnd: "owners a ps + pending (rpc ((ps @ [?p]) ! i)) \<le> Suc MaxTargetsPerMessage"
    if "i < length (ps @ [?p])" "reader_buf (rpc ((ps @ [?p]) ! i)) = Some a" for i a
    using rd [OF that(2,1)] that(2) mem_invD(5) [OF inv, of i a] by simp
  show ?thesis
    unfolding mem_inv_def own using mem_invD(1,3,7) [OF inv] inj bnd ok by blast
qed

subsection \<open>Every step preserves the invariant\<close>

lemma registry_inv_proc:
  assumes "registry_inv s" and "c < length (procs s)" and "procs s' = (procs s)[c := p']"
    and "ID (ws p') = ID (ws (procs s ! c))"
    and "\<And>k i. connectors (app s') k = Some i \<Longrightarrow> connectors (app s) k = Some i \<or> i = c \<and> k = key_of s c"
    and "\<And>d. looked (rpc p') = Some d \<Longrightarrow> d < length (procs s)"
  shows "registry_inv s'"
proof -
  have key: "key_of s' i = key_of s i" for i
    using assms(2,3,4) by (cases "i = c") (simp_all add: key_of_def)
  have "\<forall>p \<in> set (procs s'). \<forall>d. looked (rpc p) = Some d \<longrightarrow> d < length (procs s)"
    using assms(1,6) set_update_subset_insert [of "procs s" c p']
    unfolding registry_inv_def assms(3) by blast
  moreover have "length (procs s') = length (procs s)" by (simp add: assms(3))
  ultimately show ?thesis
    using assms(1,2,5) key unfolding registry_inv_def by metis
qed

lemma sys_invI:
  assumes "mem_inv (memory s') ((procs s)[c := p'])"
    and "registry_inv s" and "c < length (procs s)" and "procs s' = (procs s)[c := p']"
    and "ID (ws p') = ID (ws (procs s ! c))"
    and "\<And>k i. connectors (app s') k = Some i \<Longrightarrow> connectors (app s) k = Some i \<or> i = c \<and> k = key_of s c"
    and "\<And>d. looked (rpc p') = Some d \<Longrightarrow> d < length (procs s)"
  shows "sys_inv s'"
  using assms(1,4) registry_inv_proc [OF assms(2-7)] by (simp add: sys_inv_def)

text \<open>Steps that only move a program counter or a queue, with no reference made or dropped.\<close>

lemma sys_inv_local:
  assumes inv: "sys_inv s" and c: "c < length (procs s)" and ps: "procs s' = (procs s)[c := p']"
    and h: "memory s' = memory s"
    and w: "\<And>a. weight a p' = weight a (procs s ! c)"
    and rd: "\<And>a. reader_buf (rpc p') = Some a \<Longrightarrow>
      reader_buf (rpc (procs s ! c)) = Some a \<and> pending (rpc p') \<le> pending (rpc (procs s ! c))"
    and p: "proc_ok p'" and id: "ID (ws p') = ID (ws (procs s ! c))"
    and reg: "\<And>k i. connectors (app s') k = Some i \<Longrightarrow> connectors (app s) k = Some i \<or> i = c \<and> k = key_of s c"
    and look: "\<And>d. looked (rpc p') = Some d \<Longrightarrow> d < length (procs s)"
  shows "sys_inv s'"
  by (rule sys_invI [OF _ _ c ps id reg look])
     (use inv mem_inv_local [OF _ c w rd p] in \<open>auto simp: sys_inv_def h\<close>)

text \<open>The same for a change of the handler's program counter alone.\<close>

lemma sys_inv_rpc:
  assumes inv: "sys_inv s" and c: "c < length (procs s)"
    and ps: "procs s' = (procs s)[c := (procs s ! c)\<lparr>rpc := pc\<rparr>]" and h: "memory s' = memory s"
    and w: "\<And>a. rhold a pc = rhold a (rpc (procs s ! c))"
    and pend: "reader_buf pc \<noteq> None \<Longrightarrow> pending pc \<le> pending (rpc (procs s ! c))"
    and nd: "pc \<noteq> RDone" and st: "starting pc \<Longrightarrow> starting (rpc (procs s ! c))"
    and reg: "\<And>k i. connectors (app s') k = Some i \<Longrightarrow> connectors (app s) k = Some i \<or> i = c \<and> k = key_of s c"
    and look: "\<And>d. looked pc = Some d \<Longrightarrow> d < length (procs s)"
  shows "sys_inv s'"
proof (rule sys_inv_local [OF inv c ps h _ _ _ _ reg])
  have "proc_ok (procs s ! c)" using inv c mem_invD(6) by (auto simp: sys_inv_def)
  then show "proc_ok ((procs s ! c)\<lparr>rpc := pc\<rparr>)" using nd st by (auto simp: proc_ok_def)
  have r1: "0 < reader_refs x" for x by (cases x) simp_all
  fix a
  show "weight a ((procs s ! c)\<lparr>rpc := pc\<rparr>) = weight a (procs s ! c)" by (simp add: weight_def w)
  assume "reader_buf (rpc ((procs s ! c)\<lparr>rpc := pc\<rparr>)) = Some a"
  then show "reader_buf (rpc (procs s ! c)) = Some a \<and>
    pending (rpc ((procs s ! c)\<lparr>rpc := pc\<rparr>)) \<le> pending (rpc (procs s ! c))"
    using w [of a] pend r1 [of pc] by (auto simp: rhold_def split: if_splits)
qed (simp_all add: look)

lemma sys_invD:
  assumes "sys_inv s"
  shows "mem_inv (memory s) (procs s)" and "registry_inv s"
    and "c < length (procs s) \<Longrightarrow> proc_ok (procs s ! c)"
    and "c < length (procs s) \<Longrightarrow> is_key (key_of s c)"
    and "connectors (app s) k = Some c \<Longrightarrow> c < length (procs s) \<and> key_of s c = k"
    and "c < length (procs s) \<Longrightarrow> looked (rpc (procs s ! c)) = Some d \<Longrightarrow> d < length (procs s)"
proof -
  show i: "mem_inv (memory s) (procs s)" "registry_inv s" using assms by (auto simp: sys_inv_def)
  show "connectors (app s) k = Some c \<Longrightarrow> c < length (procs s) \<and> key_of s c = k"
    using i(2) by (simp add: registry_inv_def)
  show "c < length (procs s) \<Longrightarrow> looked (rpc (procs s ! c)) = Some d \<Longrightarrow> d < length (procs s)"
    using i(2) unfolding registry_inv_def by (meson nth_mem)
  show ok: "c < length (procs s) \<Longrightarrow> proc_ok (procs s ! c)" using mem_invD(6) [OF i(1)] by simp
  then show "c < length (procs s) \<Longrightarrow> is_key (key_of s c)" by (simp add: proc_ok_def key_of_def)
qed

lemma held_content:
  assumes "mem_inv h ps" and "c < length ps" and "0 < weight b (ps ! c)"
  shows "\<exists>d. content_of h b = Some d"
  using held_owner(2) [OF assms] by (auto simp: refs_of_def content_of_def)

lemma weight_reader: "reader_buf (rpc p) = Some b \<Longrightarrow> 0 < weight b p"
  by (cases "rpc p") (auto simp: weight_def rhold_def)

lemma proc_ok_rpc:
  "proc_ok p \<Longrightarrow> pc \<noteq> RDone \<Longrightarrow> (starting pc \<Longrightarrow> starting (rpc p)) \<Longrightarrow> proc_ok (p\<lparr>rpc := pc\<rparr>)"
  by (auto simp: proc_ok_def)

lemma retain_step_inv:
  assumes inv: "sys_inv s" and c: "c < length (procs s)" and pc: "rpc (procs s ! c) = RLooked b t d ts k"
  shows "\<exists>s'. retain_step c b (RRetained b t d ts k) s = Inr s' \<and> sys_inv s' \<and>
    content_of (memory s') = content_of (memory s)"
proof -
  let ?p = "(procs s ! c)\<lparr>rpc := RRetained b t d ts k\<rparr>"
  note d = sys_invD [OF inv]
  have "\<exists>h'. Retain b (memory s) = Inr h' \<and> mem_inv h' ((procs s)[c := ?p]) \<and>
    content_of h' = content_of (memory s)"
    by (rule mem_inv_retain [OF d(1) c]) (use d(3) [OF c] pc in \<open>auto simp: weight_def rhold_def intro: proc_ok_rpc\<close>)
  then obtain h' where h': "Retain b (memory s) = Inr h'" "mem_inv h' ((procs s)[c := ?p])"
    "content_of h' = content_of (memory s)" by blast
  have "sys_inv (set_rpc c (RRetained b t d ts k) (s\<lparr>memory := h'\<rparr>))"
    by (rule sys_invI [OF _ d(2) c, where p' = ?p]) (use h'(2) d(6) [OF c] pc in simp_all)
  with h' show ?thesis by (simp add: retain_step_def)
qed

lemma release_step_inv:
  assumes inv: "sys_inv s" and c: "c < length (procs s)"
    and pc: "rpc (procs s ! c) = RUndo b t ts k \<and> pc' = RRefused b t ts k \<or>
      rpc (procs s ! c) = RRelease b \<and> pc' = RReading"
  shows "\<exists>s'. release_step c b pc' s = Inr s' \<and> sys_inv s' \<and>
    content_of (memory s') = (if owners b (procs s) = 1 then (content_of (memory s))(b \<mapsto> [])
      else content_of (memory s))"
proof -
  let ?p = "(procs s ! c)\<lparr>rpc := pc'\<rparr>"
  note d = sys_invD [OF inv]
  have "0 < weight b (procs s ! c)" by (rule weight_reader) (use pc in auto)
  then have "\<exists>h'. Release b (memory s) = Inr h' \<and> mem_inv h' ((procs s)[c := ?p]) \<and>
    content_of h' = (if owners b (procs s) = 1 then (content_of (memory s))(b \<mapsto> [])
      else content_of (memory s))"
    by (rule mem_inv_release [OF d(1) c]) (use d(3) [OF c] pc in \<open>auto simp: weight_def rhold_def intro: proc_ok_rpc\<close>)
  then obtain h' where h': "Release b (memory s) = Inr h'" "mem_inv h' ((procs s)[c := ?p])"
    "content_of h' = (if owners b (procs s) = 1 then (content_of (memory s))(b \<mapsto> [])
      else content_of (memory s))" by blast
  have "sys_inv (set_rpc c pc' (s\<lparr>memory := h'\<rparr>))"
    by (rule sys_invI [OF _ d(2) c, where p' = ?p]) (use h'(2) d(6) [OF c] pc in auto)
  with h' show ?thesis by (auto simp: release_step_def)
qed

lemma push_step_inv:
  assumes inv: "sys_inv s" and c: "c < length (procs s)" and pc: "rpc (procs s ! c) = RRetained b t d ts k"
  shows "\<exists>s'. push_step c b t d ts k s = Inr s' \<and> sys_inv s' \<and> memory s' = memory s"
proof -
  note i = sys_invD [OF inv]
  have d: "d < length (procs s)" using i(6) [OF c] pc by simp
  have okd: "proc_ok (procs s ! d)" by (rule i(3) [OF d])
  let ?m = "\<lparr>RecvTime = t, Buf = Some b\<rparr>"
  have "conn_ok (ws (procs s ! d))" using okd by (simp add: proc_ok_def)
  then obtain ok w where push: "SafePush ?m (ws (procs s ! d)) = Inr (ok, w)"
    by (rule SafePush_cases [of _ ?m])
  then have id: "ID w = ID (ws (procs s ! d))"
    by (cases ok) (auto simp: ID_def dest: SafePush_True SafePush_False)
  let ?s1 = "set_ws d w s"
  let ?pc = "if ok then RRoute b t ts (k + 1) else RUndo b t ts k"
  let ?s2 = "set_rpc c ?pc ?s1"
  have eq: "push_step c b t d ts k s = Inr ?s2"
    using push d by (simp add: push_step_def)
  have "mem_inv (memory ?s2) (procs ?s2)"
    using mem_inv_push [OF i(1) c d pc push refl] by simp
  moreover have "registry_inv ?s2"
  proof (rule registry_inv_proc [where s = ?s1 and c = c and p' = "(procs ?s1 ! c)\<lparr>rpc := ?pc\<rparr>"])
    show "registry_inv ?s1"
      by (rule registry_inv_proc [OF i(2) d, of _ "(procs s ! d)\<lparr>ws := w\<rparr>"]) (use id i(6) [OF d] in simp_all)
  qed (use c in \<open>auto split: if_splits\<close>)
  ultimately have "sys_inv ?s2" by (simp only: sys_inv_def)
  moreover have "memory ?s2 = memory s" by simp
  ultimately show ?thesis using eq by blast
qed

lemma handle_start_inv:
  assumes inv: "sys_inv s" and c: "c < length (procs s)" and pc: "rpc (procs s ! c) = RHandle b t"
    and msg: "content_of (memory s) b = Some msg"
  shows "targets_of msg (key_of s c) = [] \<and>
      handle_start c b t s = Inr (set_rpc c (RRelease b) s) \<and> sys_inv (set_rpc c (RRelease b) s) \<or>
    targets_of msg (key_of s c) \<noteq> [] \<and> (\<exists>h'. let s' = set_rpc c (RRoute b t (targets_of msg (key_of s c)) 0)
        (s\<lparr>app := IncrementProcessed (app s), memory := h'\<rparr>) in
      handle_start c b t s = Inr s' \<and> sys_inv s' \<and>
      content_of h' = (content_of (memory s))(b \<mapsto> ZeroToIDs msg))"
proof -
  note i = sys_invD [OF inv]
  let ?ts = "targets_of msg (key_of s c)"
  have M: "Msg \<lparr>RecvTime = t, Buf = Some b\<rparr> (memory s) = Inr msg" using msg by (simp add: Msg_def Bytes_eq)
  have E: "ExtractTargets msg (key_of s c) (replicate MaxTargetsPerMessage zero_key) =
    Inr (length ?ts, ?ts @ drop (length ?ts) (replicate MaxTargetsPerMessage zero_key))"
    by (rule ExtractTargets_eq) simp
  show ?thesis
  proof (cases "?ts = []")
    case True
    have "sys_inv (set_rpc c (RRelease b) s)"
      by (rule sys_inv_rpc [OF inv c, where pc = "RRelease b"]) (simp_all add: pc rhold_def)
    with True M E show ?thesis by (simp add: handle_start_def)
  next
    case False
    let ?h = "write_bytes b (ZeroToIDs msg) (memory s)"
    let ?s = "set_rpc c (RRoute b t ?ts 0) (s\<lparr>app := IncrementProcessed (app s), memory := ?h\<rparr>)"
    let ?p = "(procs s ! c)\<lparr>rpc := RRoute b t ?ts 0\<rparr>"
    note w = write_bytes_ok [OF mem_invD(1) [OF i(1)] msg length_ZeroToIDs]
    have "mem_inv ?h ((procs s)[c := ?p])"
      by (rule mem_inv_local' [OF i(1) c])
         (use w i(3) [OF c] pc length_targets_of in \<open>auto simp: weight_def rhold_def proc_ok_def\<close>)
    then have "sys_inv ?s"
      by (intro sys_invI [OF _ i(2) c, where p' = ?p]) (simp_all add: IncrementProcessed_def)
    moreover have "handle_start c b t s = Inr ?s" using False M E by (simp add: handle_start_def)
    ultimately show ?thesis using False w unfolding Let_def by blast
  qed
qed

text \<open>
  The handler's steps by what they touch: those between two shared accesses while it routes a frame
  (\<open>moves\<close>), those while it has no frame in hand (\<open>outside\<close>), and the four that act on a buffer or on
  another connection's queue.
\<close>

inductive moves :: "(pubkey \<rightharpoonup> cid) \<Rightarrow> rpc \<Rightarrow> rpc \<Rightarrow> bool" for reg where
  none_left: "moves reg (RRoute b t [] k) (if k = 0 then RNoMatch b else RRelease b)"
| absent: "reg x = None \<Longrightarrow> moves reg (RRoute b t (x # ts) k) (RRoute b t ts k)"
| present: "reg x = Some d \<Longrightarrow> moves reg (RRoute b t (x # ts) k) (RLooked b t d ts k)"
| refused: "moves reg (RRefused b t ts k) (RRoute b t ts k)"
| no_match: "moves reg (RNoMatch b) (RRelease b)"

fun counts_failure :: "rpc \<Rightarrow> bool" where
  "counts_failure (RRefused b t ts k) = True"
| "counts_failure (RNoMatch b) = True"
| "counts_failure _ = False"

definition outside :: "proc \<Rightarrow> proc \<Rightarrow> bool" where
  "outside p p' \<longleftrightarrow>
     reader_buf (rpc p) = None \<and> reader_buf (rpc p') = None \<and> cpub (ws p') = cpub (ws p) \<and>
     outChan (ws p') = outChan (ws p) \<and> (wpc p' = wpc p \<or> wpc p = WNone \<and> wpc p' = WRecv) \<and> proc_ok p'"

lemma outside_step:
  assumes inv: "sys_inv s" and c: "c < length (procs s)" and step: "reader_step c s = Some out"
    and pc: "reader_buf (rpc (procs s ! c)) = None"
  shows "\<exists>s'. out = Inr s' \<and> outside (procs s ! c) (procs s' ! c) \<and> procs s' = (procs s)[c := procs s' ! c] \<and>
    memory s' = memory s \<and> processed (app s') = processed (app s) \<and> delivered (app s') = delivered (app s) \<and>
    noRecip (app s') = noRecip (app s) \<and> (\<forall>k i. connectors (app s') k = Some i \<longrightarrow> connectors (app s) k = Some i \<or> i = c \<and> k = key_of s c)"
proof -
  have ok: "proc_ok (procs s ! c)" by (rule sys_invD(3) [OF inv c])
  show ?thesis
  proof (cases "rpc (procs s ! c)")
    case RDisconnect
    with step c ok show ?thesis
      by (auto simp: reader_step_def map_CompareAndDelete_def outside_def proc_ok_def split: if_splits)
  next
    case RClose
    obtain w where "Close_conn (ws (procs s ! c)) = Inr w" "conn_ok w" "isClosed w"
      "outChan w = outChan (ws (procs s ! c))" "cpub w = cpub (ws (procs s ! c))"
      using Close_conn_ok ok unfolding proc_ok_def by blast
    with step c ok RClose show ?thesis
      by (auto simp: reader_step_def outside_def proc_ok_def ID_def)
  next
    case (RFail code)
    with step c ok show ?thesis
      by (auto simp: reader_step_def outside_def proc_ok_def conn_ok_def ID_def)
  qed (use step c ok pc in \<open>auto simp: reader_step_def outside_def proc_ok_def map_Swap_def\<close>)
qed

lemma reader_step_cases:
  assumes inv: "sys_inv s" and c: "c < length (procs s)" and step: "reader_step c s = Some out"
  obtains
    (handle) b t where "rpc (procs s ! c) = RHandle b t" and "out = handle_start c b t s"
  | (retain) b t d ts k where "rpc (procs s ! c) = RLooked b t d ts k" and "out = retain_step c b (RRetained b t d ts k) s"
  | (push) b t d ts k where "rpc (procs s ! c) = RRetained b t d ts k" and "out = push_step c b t d ts k s"
  | (release) b t ts k pc where "rpc (procs s ! c) = RUndo b t ts k \<and> pc = RRefused b t ts k \<or>
      rpc (procs s ! c) = RRelease b \<and> pc = RReading" and "out = release_step c b pc s"
  | (routed) s' pc where "out = Inr s'" and "moves (connectors (app s)) (rpc (procs s ! c)) pc"
      and "procs s' = (procs s)[c := (procs s ! c)\<lparr>rpc := pc\<rparr>]" and "memory s' = memory s"
      and "app s' = (if counts_failure (rpc (procs s ! c)) then IncrementDeliveryFailure (app s) else app s)"
  | (outside) s' p' where "out = Inr s'" and "outside (procs s ! c) p'" and "procs s' = (procs s)[c := p']"
      and "memory s' = memory s"
      and "\<And>k i. connectors (app s') k = Some i \<Longrightarrow> connectors (app s) k = Some i \<or> i = c \<and> k = key_of s c"
      and "processed (app s') = processed (app s)" and "delivered (app s') = delivered (app s)"
      and "noRecip (app s') = noRecip (app s)"
proof (cases "reader_buf (rpc (procs s ! c)) = None")
  case True
  from outside_step [OF inv c step True] outside show thesis by blast
next
  case False
  then show thesis
  proof (cases "rpc (procs s ! c)")
    case (RRoute b t ts k)
    show thesis
    proof (cases ts)
      case Nil
      let ?pc = "if k = 0 then RNoMatch b else RRelease b"
      from Nil RRoute step none_left [of "connectors (app s)" b t k] show thesis
        by (intro routed [of "set_rpc c ?pc s" ?pc]) (simp_all add: reader_step_def)
    next
      case (Cons x xs)
      let ?pc = "case connectors (app s) x of None \<Rightarrow> RRoute b t xs k | Some d \<Rightarrow> RLooked b t d xs k"
      have "moves (connectors (app s)) (RRoute b t (x # xs) k) ?pc"
        by (cases "connectors (app s) x") (simp_all add: absent present)
      with Cons RRoute step show thesis
        by (intro routed [of "set_rpc c ?pc s" ?pc]) (simp_all add: reader_step_def GetConnectorByKey_def map_Load_def)
    qed
  next
    case (RRefused b t ts k)
    with step moves.refused show thesis
      by (intro routed [of "projr out" "RRoute b t ts k"]) (auto simp: reader_step_def)
  next
    case (RNoMatch b)
    with step moves.no_match show thesis
      by (intro routed [of "projr out" "RRelease b"]) (auto simp: reader_step_def)
  next
    case (RUndo b t ts k)
    with step show thesis by (intro release [of b t ts k "RRefused b t ts k"]) (auto simp: reader_step_def)
  next
    case (RRelease b)
    with step show thesis by (intro release [of b _ _ _ RReading]) (auto simp: reader_step_def)
  qed (use step handle retain push in \<open>auto simp: reader_step_def\<close>)
qed

lemma moves_holds:
  "moves reg pc pc' \<Longrightarrow> rhold b pc' = rhold b pc \<and> reader_buf pc' = reader_buf pc \<and> pending pc' \<le> pending pc \<and>
    \<not> starting pc' \<and> pc' \<noteq> RDone \<and> (\<forall>d. looked pc' = Some d \<longrightarrow> (\<exists>k. reg k = Some d))"
  by (induction rule: moves.induct) (auto simp: rhold_def)

lemma reader_step_inv:
  assumes inv: "sys_inv s" and c: "c < length (procs s)" and step: "reader_step c s = Some out"
  shows "\<exists>s'. out = Inr s' \<and> sys_inv s'"
  using inv c step
proof (cases rule: reader_step_cases)
  case (handle b t)
  obtain msg where "content_of (memory s) b = Some msg"
    using held_content [OF sys_invD(1) [OF inv] c weight_reader] handle by fastforce
  with handle_start_inv [OF inv c handle(1)] handle(2) show ?thesis by (auto simp: Let_def)
next
  case retain
  with retain_step_inv [OF inv c] show ?thesis by blast
next
  case push
  with push_step_inv [OF inv c] show ?thesis by blast
next
  case (release b t ts k pc)
  with release_step_inv [OF inv c, of b t ts k pc] show ?thesis by blast
next
  case (routed s' pc)
  have "connectors (app s') = connectors (app s)" by (simp add: routed(5) IncrementDeliveryFailure_def)
  then have "sys_inv s'"
    by (intro sys_inv_rpc [OF inv c routed(3,4)])
       (use moves_holds [OF routed(2)] sys_invD(5) [OF inv] in auto)
  with routed(1) show ?thesis by blast
next
  case (outside s' p')
  have pc: "looked (rpc p') = None" using outside(2) by (cases "rpc p'") (auto simp: outside_def)
  have "sys_inv s'"
    by (rule sys_inv_local [OF inv c outside(3,4) _ _ _ _ outside(5)])
       (use outside(2) pc in \<open>auto simp: outside_def weight_def rhold_def ID_def\<close>)
  with outside(1) show ?thesis by blast
qed

subsection \<open>The write pump, the environment, and any run\<close>

lemma drop_ref_inv:
  assumes inv: "sys_inv s" and c: "c < length (procs s)"
    and hand: "in_hand (wpc (procs s ! c)) = [m]" and pc': "in_hand pc' = []"
    and ok: "proc_ok ((procs s ! c)\<lparr>wpc := pc'\<rparr>)"
  shows "\<exists>s'. writer_release c m pc' s = Inr s' \<and> sys_inv s' \<and>
    (case Buf m of None \<Rightarrow> memory s' = memory s
     | Some b \<Rightarrow> content_of (memory s') = (if owners b (procs s) = 1 then (content_of (memory s))(b \<mapsto> [])
         else content_of (memory s)))"
proof (cases "Buf m")
  case None
  have "sys_inv (set_wpc c pc' s)"
    by (rule sys_inv_local [OF inv c, where p' = "(procs s ! c)\<lparr>wpc := pc'\<rparr>"])
       (use c hand pc' ok None sys_invD(6) [OF inv c] in \<open>simp_all add: weight_def\<close>)
  with None show ?thesis by (auto simp: writer_release_def drop_ref_def)
next
  case (Some b)
  let ?p = "(procs s ! c)\<lparr>wpc := pc'\<rparr>"
  note d = sys_invD [OF inv]
  have "0 < weight b (procs s ! c)" by (simp add: weight_def hand Some)
  then have "\<exists>h'. Release b (memory s) = Inr h' \<and> mem_inv h' ((procs s)[c := ?p]) \<and>
    content_of h' = (if owners b (procs s) = 1 then (content_of (memory s))(b \<mapsto> [])
      else content_of (memory s))"
    by (rule mem_inv_release [OF d(1) c]) (use ok hand pc' Some in \<open>auto simp: weight_def\<close>)
  then obtain h' where h': "Release b (memory s) = Inr h'" "mem_inv h' ((procs s)[c := ?p])"
    "content_of h' = (if owners b (procs s) = 1 then (content_of (memory s))(b \<mapsto> [])
      else content_of (memory s))" by blast
  have "sys_inv (set_wpc c pc' (s\<lparr>memory := h'\<rparr>))"
    by (rule sys_invI [OF _ d(2) c, where p' = ?p]) (use h'(2) d(6) [OF c] in simp_all)
  with h' Some show ?thesis by (auto simp: writer_release_def drop_ref_def)
qed

text \<open>Steps that move a message between queue and pump, or only the pump's program counter.\<close>

lemma sys_inv_pump:
  assumes inv: "sys_inv s" and c: "c < length (procs s)"
    and ps: "procs s' = (procs s)[c := p']" and h: "memory s' = memory s" and a: "connectors (app s') = connectors (app s)"
    and r: "rpc p' = rpc (procs s ! c)" and id: "ID (ws p') = ID (ws (procs s ! c))" and p: "proc_ok p'"
    and w: "\<And>b. held b (outChan (ws p')) + held b (in_hand (wpc p')) =
      held b (outChan (ws (procs s ! c))) + held b (in_hand (wpc (procs s ! c)))"
  shows "sys_inv s'"
  by (rule sys_inv_local [OF inv c ps h]) (use w sys_invD(6) [OF inv c] in \<open>simp_all add: weight_def r id p a\<close>)

lemma writer_recv_inv:
  assumes inv: "sys_inv s" and c: "c < length (procs s)"
    and pc: "wpc (procs s ! c) = WRecv \<and> pc' = WWrite \<or> wpc (procs s ! c) = WDrain \<and> pc' = WDrainRelease"
    and step: "writer_recv c pc' s = Some out"
  shows "\<exists>s'. out = Inr s' \<and> sys_inv s' \<and> memory s' = memory s"
proof (cases "outChan (ws (procs s ! c))")
  case Nil
  have ok: "proc_ok (procs s ! c)" by (rule sys_invD(3) [OF inv c])
  have out: "out = Inr (set_wpc c WDone s)" and cl: "chanClosed (ws (procs s ! c))"
    using step Nil by (auto simp: writer_recv_def recv_def split: if_splits)
  have "sys_inv (set_wpc c WDone s)"
    by (rule sys_inv_pump [OF inv c, where p' = "(procs s ! c)\<lparr>wpc := WDone\<rparr>"])
       (use c ok Nil cl pc in \<open>auto simp: proc_ok_def conn_ok_def\<close>)
  with out show ?thesis by simp
next
  case (Cons m q)
  have ok: "proc_ok (procs s ! c)" by (rule sys_invD(3) [OF inv c])
  let ?w = "(ws (procs s ! c))\<lparr>outChan := q\<rparr>"
  have out: "out = Inr (set_wpc c (pc' m) (set_ws c ?w s))"
    using step Cons by (auto simp: writer_recv_def recv_def)
  have "sys_inv (set_wpc c (pc' m) (set_ws c ?w s))"
    by (rule sys_inv_pump [OF inv c, where p' = "(procs s ! c)\<lparr>ws := ?w, wpc := pc' m\<rparr>"])
       (use c ok Cons pc in \<open>auto simp: proc_ok_def conn_ok_def ID_def\<close>)
  with out show ?thesis by simp
qed

lemma writer_step_inv:
  assumes inv: "sys_inv s" and c: "c < length (procs s)" and step: "writer_step c s = Some out"
  shows "\<exists>s'. out = Inr s' \<and> sys_inv s'"
proof -
  have ok: "proc_ok (procs s ! c)" by (rule sys_invD(3) [OF inv c])
  have moved: "sys_inv s'" if "procs s' = (procs s)[c := (procs s ! c)\<lparr>wpc := pc\<rparr>]" "memory s' = memory s"
    "connectors (app s') = connectors (app s)" "proc_ok ((procs s ! c)\<lparr>wpc := pc\<rparr>)"
    "in_hand pc = in_hand (wpc (procs s ! c))" for s' pc
    by (rule sys_inv_pump [OF inv c that(1-3)]) (simp_all add: that)
  show ?thesis
  proof (cases "wpc (procs s ! c)")
    case WRecv
    with writer_recv_inv [OF inv c] step show ?thesis by (auto simp: writer_step_def)
  next
    case (WRelease m good)
    with drop_ref_inv [OF inv c, of m "if good then WSuccess m else WFail"] step ok show ?thesis
      by (auto simp: writer_step_def proc_ok_def)
  next
    case (WSuccess m)
    with step ok show ?thesis
      by (auto simp: writer_step_def proc_ok_def IncrementDeliverySuccess_def intro!: moved [of _ "WLatency m"])
  next
    case WFail
    with step ok show ?thesis
      by (auto simp: writer_step_def proc_ok_def IncrementDeliveryFailure_def intro!: moved [of _ WClose])
  next
    case WClose
    obtain w where w: "Close_conn (ws (procs s ! c)) = Inr w" "conn_ok w" "isClosed w"
      "outChan w = outChan (ws (procs s ! c))" "cpub w = cpub (ws (procs s ! c))"
      using Close_conn_ok ok unfolding proc_ok_def by blast
    let ?p = "(procs s ! c)\<lparr>ws := w, wpc := WDrain\<rparr>"
    have "sys_inv (set_wpc c WDrain (set_ws c w s))"
      by (rule sys_inv_pump [OF inv c, where p' = ?p]) (use c WClose ok w in \<open>auto simp: proc_ok_def ID_def\<close>)
    with step WClose w(1) show ?thesis by (auto simp: writer_step_def)
  next
    case WDrain
    with writer_recv_inv [OF inv c] step show ?thesis by (auto simp: writer_step_def)
  next
    case (WDrainRelease m)
    with drop_ref_inv [OF inv c, of m WDrain] step ok show ?thesis
      by (auto simp: writer_step_def proc_ok_def)
  qed (use step in \<open>auto simp: writer_step_def\<close>)
qed

lemma write_done_inv:
  assumes inv: "sys_inv s" and c: "c < length (procs s)" and step: "write_done c good s = Some out"
  shows "\<exists>s'. out = Inr s' \<and> sys_inv s' \<and> memory s' = memory s"
proof (cases "wpc (procs s ! c)")
  case (WWrite m)
  have ok: "proc_ok (procs s ! c)" by (rule sys_invD(3) [OF inv c])
  have "\<exists>msg. Msg m (memory s) = Inr msg"
  proof (cases "Buf m")
    case (Some b)
    then have "0 < weight b (procs s ! c)" using WWrite by (simp add: weight_def)
    from held_content [OF sys_invD(1) [OF inv] c this] Some show ?thesis by (auto simp: Msg_def Bytes_eq)
  qed (simp add: Msg_def)
  then obtain msg where "Msg m (memory s) = Inr msg" by blast
  moreover have "sys_inv (set_wpc c (WRelease m good) (log_write c good msg s))"
    by (rule sys_inv_pump [OF inv c, where p' = "(procs s ! c)\<lparr>wpc := WRelease m good\<rparr>"])
       (use c WWrite ok in \<open>auto simp: proc_ok_def\<close>)
  ultimately show ?thesis using step WWrite by (auto simp: write_done_def)
qed (use step in \<open>auto simp: write_done_def\<close>)

lemma record_latency_inv:
  assumes inv: "sys_inv s" and c: "c < length (procs s)" and step: "record_latency c d s = Some out"
  shows "(\<exists>s'. out = Inr s' \<and> sys_inv s' \<and> memory s' = memory s \<and>
      latencyChClosed (app s') = latencyChClosed (app s)) \<or>
    latencyChClosed (app s) \<and> out = Inl SendOnClosedChan"
proof (cases "wpc (procs s ! c)")
  case (WLatency m)
  have ok: "proc_ok (procs s ! c)" by (rule sys_invD(3) [OF inv c])
  show ?thesis
  proof (cases "latencyChClosed (app s)")
    case True
    with step WLatency show ?thesis by (simp add: record_latency_def RecordLatency_def Let_def)
  next
    case False
    then obtain a where a: "RecordLatency d (app s) = Inr a" "connectors a = connectors (app s)" "\<not> latencyChClosed a"
      by (cases "length (latencyCh (app s)) < latencyChCap (app s)") (auto simp: RecordLatency_def Let_def)
    have "sys_inv (set_wpc c WRecv (s\<lparr>app := a\<rparr>))"
      by (rule sys_inv_pump [OF inv c, where p' = "(procs s ! c)\<lparr>wpc := WRecv\<rparr>"])
         (use c WLatency ok a in \<open>auto simp: proc_ok_def\<close>)
    with False a step WLatency show ?thesis by (auto simp: record_latency_def)
  qed
qed (use step in \<open>auto simp: record_latency_def\<close>)

text \<open>
  Reading a frame. The WebSocket library's reader is any conforming one that does not idle.
\<close>

lemma after_error_simps: "reader_buf (after_error e) = None" "after_error e \<noteq> RDone" "\<not> starting (after_error e)"
  "looked (after_error e) = None"
  by (simp_all add: after_error_def split: err.split)

lemma parts_of_build:
  assumes "frame_ok limit ids body" and "is_key k"
  shows "parts_of (build_message k ids body) = (ids, body)"
proof -
  note ok = frame_ok_parts [OF assms]
  have "map (id_at (build_message k ids body)) [0..<length ids] = ids"
    by (rule nth_equalityI) (simp_all add: id_at_build [OF ok])
  then show ?thesis by (simp add: parts_of_def Payload_build [OF ok] unat_ToIDsLen_build [OF ok])
qed

text \<open>The handler back from reading with a new memory: a buffer it owns, or none left behind.\<close>

lemma read_result_inv:
  assumes inv: "sys_inv s" and c: "c < length (procs s)" and pc: "rpc (procs s ! c) = RReading"
    and plus: "mem_plus (memory s) n d h'" and after: "n = 0 \<and> pc' = after_error e \<or> n = 1 \<and> pc' = RHandle (next_buf (memory s)) t"
    and s': "procs s' = (procs s)[c := (procs s ! c)\<lparr>rpc := pc'\<rparr>]" "memory s' = h'" "app s' = app s"
  shows "sys_inv s'"
proof -
  note i = sys_invD [OF inv]
  have "mem_inv h' ((procs s)[c := (procs s ! c)\<lparr>rpc := pc'\<rparr>])"
    by (rule mem_inv_new [OF i(1) c pc plus]) (use after after_error_simps in auto)
  then show ?thesis
    by (intro sys_invI [OF _ i(2) c s'(1)]) (use after after_error_simps in \<open>auto simp: s'\<close>)
qed

lemma read_frame_inv:
  assumes inv: "sys_inv s" and c: "c < length (procs s)" and step: "read_frame read malloc c r t s = Some out"
    and rd: "io_reader read stream ending patience" "patience r = 0" and mal: "malloc_ok malloc"
    and v: "v = decode_frame (int MaxMessageSize) (stream r) (ending r)"
  shows "out = Inl OutOfMemory \<or>
    (\<exists>s'. out = Inr s' \<and> sys_inv s' \<and> rpc (procs s ! c) = RReading \<and> written s' = written s \<and>
      (case v of
         Inl e \<Rightarrow> accepted s' = accepted s \<and> procs s' = (procs s)[c := (procs s ! c)\<lparr>rpc := after_error e\<rparr>] \<and>
           (\<forall>b < next_buf (memory s). content_of (memory s') b = content_of (memory s) b)
       | Inr (ids, body) \<Rightarrow>
           accepted s' = accepted s @ [(c, ids, body)] \<and>
           procs s' = (procs s)[c := (procs s ! c)\<lparr>rpc := RHandle (next_buf (memory s)) t\<rparr>] \<and>
           content_of (memory s') = (content_of (memory s))(next_buf (memory s) \<mapsto> build_message (key_of s c) ids body)))"
proof -
  note i = sys_invD [OF inv]
  let ?run = "readMessageWithFixedFromID read malloc (int MaxMessageSize) (key_of s c) r (memory s)"
  let ?b = "next_buf (memory s)"
  have pc: "rpc (procs s ! c) = RReading"
    and out: "Some out = bind_run ?run (\<lambda>(res, r', h). case res of
      Inr b \<Rightarrow> Some (bind_res (Bytes b h) (\<lambda>msg. Inr (set_rpc c (RHandle b t)
        (s\<lparr>memory := h, accepted := accepted s @ [(c, parts_of msg)]\<rparr>))))
    | Inl e \<Rightarrow> Some (Inr (set_rpc c (after_error e) (s\<lparr>memory := h\<rparr>))))"
    using step by (simp_all add: read_frame_def split: if_splits)
  from io_reader.read_message_ok [OF rd i(4) [OF c] mal mem_invD(1) [OF i(1)] v] consider
    (oom) "?run = Some (Inl OutOfMemory)"
  | (early) r' e where "?run = Some (Inr (Inl e, r', memory s))" "v = Inl e"
  | (late) r' h' e where "?run = Some (Inr (Inl e, r', h'))" "v = Inl e" "mem_plus (memory s) 0 [] h'"
  | (got) r' h' ids body where "?run = Some (Inr (Inr ?b, r', h'))" "v = Inr (ids, body)"
      "mem_plus (memory s) 1 (build_message (key_of s c) ids body) h'"
    by (cases v) auto
  then show ?thesis
  proof cases
    case oom
    then show ?thesis using out by simp
  next
    case early
    have "sys_inv (set_rpc c (after_error e) s)"
      by (rule sys_inv_rpc [OF inv c, where pc = "after_error e"]) (simp_all add: pc rhold_def after_error_simps)
    then show ?thesis using out early pc by auto
  next
    case late
    have "sys_inv (set_rpc c (after_error e) (s\<lparr>memory := h'\<rparr>))"
      by (rule read_result_inv [OF inv c pc late(3), where pc' = "after_error e" and e = e]) simp_all
    with late out pc show ?thesis by (auto simp: mem_plus_def)
  next
    case got
    let ?msg = "build_message (key_of s c) ids body"
    let ?s = "set_rpc c (RHandle ?b t) (s\<lparr>memory := h', accepted := accepted s @ [(c, parts_of ?msg)]\<rparr>)"
    have "frame_ok (int MaxMessageSize) ids body" using decode_frame_InrD v got(2) by metis
    then have parts: "parts_of ?msg = (ids, body)" by (rule parts_of_build [OF _ i(4) [OF c]])
    have "sys_inv ?s"
      by (rule read_result_inv [OF inv c pc got(3), where pc' = "RHandle ?b t" and t = t]) simp_all
    moreover have "out = Inr ?s" "content_of h' = (content_of (memory s))(?b \<mapsto> ?msg)"
      using out got(1,3) by (simp_all add: mem_plus_def Bytes_eq)
    ultimately show ?thesis using pc got(2) parts by auto
  qed
qed

text \<open>
  Only \<open>CloseApp\<close> closes the latency channel, and the handler's and the pump's own steps add to
  neither history.
\<close>

lemma closed_Increment [simp]:
  "latencyChClosed (IncrementProcessed r) = latencyChClosed r"
  "latencyChClosed (IncrementDeliveryFailure r) = latencyChClosed r"
  "latencyChClosed (IncrementDeliverySuccess r) = latencyChClosed r"
  by (simp_all add: IncrementProcessed_def IncrementDeliveryFailure_def IncrementDeliverySuccess_def)

lemma reader_step_keeps:
  assumes "reader_step c s = Some (Inr s')"
  shows "latencyChClosed (app s') = latencyChClosed (app s) \<and> accepted s' = accepted s \<and> written s' = written s \<and>
    completed s' = completed s"
proof (cases "rpc (procs s ! c)")
  case (RRoute b t ts k)
  with assms show ?thesis by (cases ts) (auto simp: reader_step_def)
next
  case (RHandle b t)
  with assms show ?thesis
    by (auto simp: reader_step_def handle_start_def bind_res_eq_Inr split: if_splits)
next
  case (RRetained b t d ts k)
  with assms show ?thesis
    by (auto simp: reader_step_def push_step_def bind_res_eq_Inr split: if_splits)
qed (use assms in \<open>auto simp: reader_step_def retain_step_def release_step_def map_Swap_def
    map_CompareAndDelete_def bind_res_eq_Inr split: if_splits\<close>)

lemma writer_step_keeps:
  assumes "writer_step c s = Some (Inr s')"
  shows "latencyChClosed (app s') = latencyChClosed (app s) \<and> accepted s' = accepted s \<and> written s' = written s \<and>
    completed s' = completed s"
  using assms
  by (cases "wpc (procs s ! c)")
     (auto simp: writer_step_def writer_recv_def writer_release_def bind_res_eq_Inr
       split: received.splits prod.splits)

lemmas closed_reader_step = reader_step_keeps [THEN conjunct1]
lemmas closed_writer_step = writer_step_keeps [THEN conjunct1]

lemma closed_read_frame:
  "read_frame read malloc c r t s = Some (Inr s') \<Longrightarrow> latencyChClosed (app s') = latencyChClosed (app s)"
  by (auto simp: read_frame_def bind_run_def bind_res_eq_Inr split: if_splits option.splits sum.splits)

lemma write_done_keeps:
  "write_done c good s = Some (Inr s') \<Longrightarrow>
    latencyChClosed (app s') = latencyChClosed (app s) \<and> accepted s' = accepted s"
  by (auto simp: write_done_def bind_res_eq_Inr split: wpc.splits)

lemmas closed_write_done = write_done_keeps [THEN conjunct1]

text \<open>Any step of a good state ends in a good state or in one of the faults named.\<close>

definition calm_reader :: "'r reader \<Rightarrow> ('r \<Rightarrow> bytes) \<Rightarrow> ('r \<Rightarrow> err) \<Rightarrow> bool" where
  "calm_reader read stream ending \<longleftrightarrow> io_reader read stream ending (\<lambda>_. 0)"

lemma exec_inv:
  assumes inv: "sys_inv s" and env: "calm_reader read stream ending" "malloc_ok malloc"
    and step: "exec read malloc a s = Some out"
  shows "(\<exists>s'. out = Inr s' \<and> sys_inv s' \<and>
      (latencyChClosed (app s') \<longrightarrow> latencyChClosed (app s) \<or> a = CloseApp)) \<or> out = Inl OutOfMemory \<or>
    latencyChClosed (app s) \<and> (out = Inl SendOnClosedChan \<or> out = Inl CloseOfClosedChan)"
proof (cases a)
  case (Accept k n)
  let ?p = "\<lparr>ws = new_wsconn k n, rpc = RNew, wpc = WNone\<rparr>"
  let ?s = "s\<lparr>procs := procs s @ [?p]\<rparr>"
  have k: "is_key k" and out: "out = Inr ?s" using step Accept by (auto split: if_splits)
  note i = sys_invD [OF inv]
  have "registry_inv ?s"
    using i(5) i(2) by (auto simp: registry_inv_def key_of_def nth_append less_Suc_eq)
  then have "sys_inv ?s" using mem_inv_accept [OF i(1) k, of n] by (simp add: sys_inv_def)
  with out show ?thesis by simp
next
  case (ReadError c)
  then have c: "c < length (procs s)" "rpc (procs s ! c) = RReading" and out: "out = Inr (set_rpc c RDisconnect s)"
    using step by (auto split: if_splits)
  have "sys_inv (set_rpc c RDisconnect s)"
    by (rule sys_inv_rpc [OF inv c(1), where pc = RDisconnect]) (simp_all add: c(2) rhold_def)
  with out show ?thesis by simp
next
  case (ReadText c)
  with step inv show ?thesis by (auto split: if_splits)
next
  case (ReadFrame c r t)
  then have c: "c < length (procs s)" and rf: "read_frame read malloc c r t s = Some out"
    using step by (auto split: if_splits)
  have "out = Inl OutOfMemory \<or> (\<exists>s'. out = Inr s' \<and> sys_inv s')"
    using read_frame_inv [OF inv c rf env(1) [unfolded calm_reader_def] refl env(2) refl]
    by (elim disjE exE conjE) simp_all
  moreover have "latencyChClosed (app s') = latencyChClosed (app s)" if "out = Inr s'" for s'
    by (rule closed_read_frame [OF rf [unfolded that]])
  ultimately show ?thesis by fastforce
next
  case (Reader c)
  then have c: "c < length (procs s)" "reader_step c s = Some out" using step by (auto split: if_splits)
  show ?thesis using reader_step_inv [OF inv c] closed_reader_step c(2) by blast
next
  case (Writer c)
  then have c: "c < length (procs s)" "writer_step c s = Some out" using step by (auto split: if_splits)
  show ?thesis using writer_step_inv [OF inv c] closed_writer_step c(2) by blast
next
  case (WriteDone c good)
  then have c: "c < length (procs s)" "write_done c good s = Some out" using step by (auto split: if_splits)
  show ?thesis using write_done_inv [OF inv c] closed_write_done c(2) by blast
next
  case (Latency c d)
  then have c: "c < length (procs s)" "record_latency c d s = Some out" using step by (auto split: if_splits)
  show ?thesis using record_latency_inv [OF inv c] by auto
next
  case LatencyTake
  then have out: "out = Inr (s\<lparr>app := (app s)\<lparr>latencyCh := tl (latencyCh (app s))\<rparr>\<rparr>)" using step by simp
  with inv show ?thesis by (simp add: sys_inv_def registry_inv_def key_of_def)
next
  case CloseApp
  then show ?thesis
    using step inv by (auto simp: sys_inv_def registry_inv_def key_of_def split: if_splits)
qed

lemma sys_inv_init: "sys_inv (init_sys t F)"
  by (simp add: sys_inv_def mem_inv_def registry_inv_def init_sys_def owners_def NewRelayer_def)
     (simp add: empty_mem_def refs_of_def)

lemma reachable_inv:
  assumes "reachable read malloc (init_sys t F) s" and "calm_reader read stream ending" and "malloc_ok malloc"
  shows "sys_inv s"
  using assms(1)
proof induction
  case start
  show ?case by (rule sys_inv_init)
next
  case (step s a s')
  from exec_inv [OF step.IH assms(2,3) step.hyps(2)] show ?case by auto
qed

subsection \<open>Properties\<close>

text \<open>Two clients, to instantiate the properties on. Floating point plays no part in it.\<close>

definition no_floats :: "unit float64_ops" where
  "no_floats = \<lparr>f_of_int = (\<lambda>_. ()), f_lit = (\<lambda>_. ()), f_add = (\<lambda>_ _. ()), f_sub = (\<lambda>_ _. ()),
     f_mul = (\<lambda>_ _. ()), f_div = (\<lambda>_ _. ()), f_sqrt = (\<lambda>_. ()), f_floor = (\<lambda>_. ()),
     f_to_int = (\<lambda>_. 0), f_eq = (\<lambda>_ _. True), f_less = (\<lambda>_ _. False)\<rparr>"

definition alice :: pubkey where "alice = replicate 32 1"
definition bob :: pubkey where "bob = replicate 32 2"

lemma alice_bob [simp]: "is_key alice" "is_key bob" "alice \<noteq> bob" "bob \<noteq> alice"
  by (simp_all add: alice_def bob_def is_key_def)

text \<open>Two clients connect and start reading.\<close>

definition connect_run :: "fragments action list" where
  "connect_run = [Accept alice 4, Accept bob 4, Reader 0, Reader 0, Reader 0, Reader 1, Reader 1, Reader 1]"

definition connected :: "build_target \<Rightarrow> unit sys" where
  "connected t = projr (the (exec_all frag_read bump_malloc connect_run (init_sys t no_floats)))"

lemma exec_connect:
  "exec_all read malloc connect_run (init_sys t no_floats) = Some (Inr (connected t))"
  by (simp add: connected_def connect_run_def init_sys_def reader_step_def set_rpc_def set_wpc_def
      set_proc_def key_of_def ID_def new_wsconn_def map_Swap_def NewRelayer_def)

lemma procs_connected [simp]:
  "procs (connected t) = [\<lparr>ws = new_wsconn alice 4, rpc = RReading, wpc = WRecv\<rparr>,
     \<lparr>ws = new_wsconn bob 4, rpc = RReading, wpc = WRecv\<rparr>]"
  "memory (connected t) = empty_mem t" "latencyChClosed (app (connected t)) = False"
  by (simp_all add: connected_def connect_run_def init_sys_def reader_step_def set_rpc_def set_wpc_def
      set_proc_def key_of_def ID_def new_wsconn_def map_Swap_def NewRelayer_def)

text \<open>Readers of fragments, with empty fragments skipped, do not idle.\<close>

definition busy_read :: "fragments reader" where
  "busy_read n r = frag_read n (r\<lparr>frags := filter (\<lambda>f. f \<noteq> []) (frags r)\<rparr>)"

lemma concat_nonempty [simp]: "concat (filter (\<lambda>f. f \<noteq> []) fs) = concat fs"
  by (induction fs) auto

lemma busy_calm: "calm_reader busy_read (\<lambda>r. concat (frags r)) final"
  unfolding calm_reader_def
proof
  fix n r bs e r'
  assume "busy_read n r = (bs, e, r')"
  from frag.read_prefix [OF this [unfolded busy_read_def]]
  show "length bs \<le> n \<and> concat (frags r) = bs @ concat (frags r') \<and> final r' = final r \<and> (0 :: nat) \<le> 0"
    by simp
next
  fix n r bs e r'
  assume "busy_read n r = (bs, Some e, r')"
  from frag.read_end [OF this [unfolded busy_read_def]]
    frag.read_prefix [OF this [unfolded busy_read_def]]
  show "concat (frags r') = [] \<and> e = final r" by simp
next
  fix n r r'
  assume n: "0 < n" and rd: "busy_read n r = ([], None, r')"
  from frag.read_progress [OF n rd [unfolded busy_read_def]]
  have "0 < frag_patience (r\<lparr>frags := filter (\<lambda>f. f \<noteq> []) (frags r)\<rparr>)" by simp
  then show "(0 :: nat) < 0" by (simp add: frag_patience_def filter_empty_conv)
qed

lemma connected_reachable: "reachable (read :: fragments reader) malloc (init_sys t no_floats) (connected t)"
  by (rule exec_all_reachable [OF exec_connect reachable.start])

text \<open>Alice sends Bob a message.\<close>

definition hello :: fragments where
  "hello = \<lparr>frags = [[1] @ bob, [0, 0, 0], [2, 104, 105]], final = EOF, eager = False\<rparr>"

lemma hello_frame:
  "decode_frame (int MaxMessageSize) (concat (frags hello)) (final hello) = Inr ([bob], [104, 105])"
proof -
  have "concat (frags hello) = frame_bytes [bob] [104, 105]"
    by (simp add: hello_def frame_bytes_def be_put_uint32_def)
  moreover have "frame_ok (int MaxMessageSize) [bob] [104, 105]"
    by (simp add: frame_ok_def MaxMessageSize_def MaxTargetsPerMessage_def)
  ultimately show ?thesis using decode_frame_bytes by (simp add: hello_def)
qed

lemma connected_facts [simp]:
  "connectors (app (connected t)) bob = Some 1" "key_of (connected t) 0 = alice" "key_of (connected t) (Suc 0) = bob"
  "written (connected t) = []"
  by (simp_all add: connected_def connect_run_def init_sys_def reader_step_def set_rpc_def set_wpc_def
      set_proc_def key_of_def ID_def new_wsconn_def map_Swap_def NewRelayer_def)

lemma fresh_conn [simp]:
  "isClosed (new_wsconn k 4) = False" "outChan (new_wsconn k 4) = []" "outCap (new_wsconn k 4) = 4"
  by (simp_all add: new_wsconn_def)

lemma bump_total: "bump_malloc m n \<noteq> None"
  by (simp add: bump_malloc_def)

text \<open>
  C9 (safety): nothing leaks: when every handler has returned and every write pump has ended, no buffer
  is referenced, every block of the C heap has been freed, and no message is left in any queue.
\<close>

theorem no_leak:
  assumes "reachable read malloc (init_sys t F) s" and "calm_reader read stream ending" and "malloc_ok malloc"
    and "\<forall>p \<in> set (procs s). rpc p = RDone \<and> wpc p = WDone"
  shows "(\<forall>b. refs_of (memory s) b \<in> {None, Some 0}) \<and> blocks (memory s) = [] \<and>
    concat (map (\<lambda>p. outChan (ws p)) (procs s)) = []"
proof -
  have inv: "mem_inv (memory s) (procs s)" using reachable_inv [OF assms(1-3)] by (simp add: sys_inv_def)
  have empty: "\<forall>p \<in> set (procs s). outChan (ws p) = []"
    using mem_invD(6) [OF inv] assms(4) by (simp add: proc_ok_def)
  then have "owners b (procs s) = 0" for b
    using assms(4) by (simp add: owners_def weight_def rhold_def)
  then have refs: "\<forall>b. refs_of (memory s) b \<in> {None, Some 0}"
    using mem_invD(7) [OF inv] by simp
  have "p \<notin> set (blocks (memory s))" for p
  proof
    assume "p \<in> set (blocks (memory s))"
    then obtain b B where B: "bufs (memory s) b = Some B" "bptr B = Some p"
      using mem_okD(7) [OF mem_invD(1) [OF inv]] by blast
    then have "sint (brefs B) = 0" using refs [rule_format, of b] by (simp add: refs_of_def)
    then show False using mem_okD(3) [OF mem_invD(1) [OF inv] B(1)] B(2) by (simp add: sint_0_iff)
  qed
  then have "blocks (memory s) = []" by (meson last_in_set)
  with refs empty show ?thesis by simp
qed

text \<open>The two clients go away again.\<close>

definition hangup_run :: "fragments action list" where
  "hangup_run = [ReadError 0, Reader 0, Reader 0, Reader 0, Writer 0,
     ReadError 1, Reader 1, Reader 1, Reader 1, Writer 1]"

definition hungup :: "build_target \<Rightarrow> unit sys" where
  "hungup t = projr (the (exec_all busy_read bump_malloc (connect_run @ hangup_run) (init_sys t no_floats)))"

lemma hungup_run:
  "exec_all busy_read bump_malloc (connect_run @ hangup_run) (init_sys t no_floats) = Some (Inr (hungup t))"
  "\<forall>p \<in> set (procs (hungup t)). rpc p = RDone \<and> wpc p = WDone"
  by (simp_all add: hungup_def connect_run_def hangup_run_def init_sys_def reader_step_def writer_step_def
      writer_recv_def recv_def Close_conn_def set_rpc_def set_wpc_def set_ws_def set_proc_def key_of_def ID_def
      new_wsconn_def map_Swap_def map_CompareAndDelete_def NewRelayer_def)

theorem no_leak_witness:
  "(\<forall>b. refs_of (memory (hungup LinuxCgo)) b \<in> {None, Some 0}) \<and> blocks (memory (hungup LinuxCgo)) = [] \<and>
    concat (map (\<lambda>p. outChan (ws p)) (procs (hungup LinuxCgo))) = []"
  by (rule no_leak [OF exec_all_reachable [OF hungup_run(1) reachable.start] busy_calm bump_malloc_ok hungup_run(2)])

end
