(* ===== verification/Relay_Security.thy ===== *)
theory Relay_Security
  imports Relay_Memory
begin

section \<open>What clients can receive\<close>

text \<open>
  The end-to-end guarantee of the relay, as an invariant of the interleaved server: whatever is
  queued for, held by or written to a connection is a message some connection sent, with that
  connection's authenticated key as its sender, addressed to the key of the receiving connection,
  with its payload intact and every recipient id cleared.
\<close>

type_synonym history = "(cid \<times> pubkey list \<times> bytes) list"

text \<open>
  The frames accepted so far are numbered. A ghost map \<open>T\<close> gives every buffer the number of the
  frame it was filled from, and a ghost list \<open>X\<close> gives every message written the number of the frame
  it comes from.
\<close>

definition sent :: "history \<Rightarrow> nat \<Rightarrow> cid \<Rightarrow> pubkey list \<Rightarrow> bytes \<Rightarrow> bool" where
  "sent A n c tos payload \<longleftrightarrow> n < length A \<and> A ! n = (c, tos, payload)"

text \<open>\<open>d\<close> is what a connection with key \<open>k\<close> may see of the frame number \<open>n\<close>.\<close>

definition sealed :: "history \<Rightarrow> (cid \<Rightarrow> pubkey) \<Rightarrow> nat \<Rightarrow> pubkey \<Rightarrow> bytes \<Rightarrow> bool" where
  "sealed A K n k d \<longleftrightarrow>
     (\<exists>c tos payload. sent A n c tos payload \<and> k \<in> set tos \<and> k \<noteq> K c \<and>
        d = build_message (K c) (replicate (length tos) zero_key) payload)"

definition routing :: "history \<Rightarrow> (cid \<Rightarrow> pubkey) \<Rightarrow> nat \<Rightarrow> cid \<Rightarrow> bytes option \<Rightarrow> pubkey set \<Rightarrow> bool" where
  "routing A K n i d ks \<longleftrightarrow>
     (\<exists>tos payload. sent A n i tos payload \<and> ks \<subseteq> set tos - {K i} \<and>
        d = Some (build_message (K i) (replicate (length tos) zero_key) payload))"

fun reading_ok ::
  "history \<Rightarrow> (cid \<Rightarrow> pubkey) \<Rightarrow> (baddr \<Rightarrow> nat) \<Rightarrow> (baddr \<Rightarrow> bytes option) \<Rightarrow> cid \<Rightarrow> rpc \<Rightarrow> bool" where
  "reading_ok A K T C i (RHandle b t) =
     (\<exists>tos payload. sent A (T b) i tos payload \<and> C b = Some (build_message (K i) tos payload))"
| "reading_ok A K T C i (RRoute b t ts k) = routing A K (T b) i (C b) (set ts)"
| "reading_ok A K T C i (RLooked b t d ts k) = routing A K (T b) i (C b) (insert (K d) (set ts))"
| "reading_ok A K T C i (RRetained b t d ts k) = routing A K (T b) i (C b) (insert (K d) (set ts))"
| "reading_ok A K T C i (RUndo b t ts k) = routing A K (T b) i (C b) (set ts)"
| "reading_ok A K T C i (RRefused b t ts k) = routing A K (T b) i (C b) (set ts)"
| "reading_ok A K T C i _ = True"

definition outgoing :: "proc \<Rightarrow> out_message set" where
  "outgoing p = set (outChan (ws p)) \<union> set (in_hand (wpc p))"

definition proc_sec ::
  "history \<Rightarrow> (cid \<Rightarrow> pubkey) \<Rightarrow> (baddr \<Rightarrow> nat) \<Rightarrow> (baddr \<Rightarrow> bytes option) \<Rightarrow> cid \<Rightarrow> proc \<Rightarrow> bool" where
  "proc_sec A K T C i p \<longleftrightarrow>
     reading_ok A K T C i (rpc p) \<and>
     (\<forall>m \<in> outgoing p. \<exists>b d. Buf m = Some b \<and> C b = Some d \<and> sealed A K (T b) (K i) d)"

definition frames_valid :: "nat \<Rightarrow> history \<Rightarrow> bool" where
  "frames_valid n A \<longleftrightarrow> (\<forall>(c, tos, payload) \<in> set A. c < n \<and> frame_ok (int MaxMessageSize) tos payload)"

definition out_ok :: "nat \<Rightarrow> history \<Rightarrow> (cid \<Rightarrow> pubkey) \<Rightarrow> nat \<Rightarrow> cid \<times> bytes \<Rightarrow> bool" where
  "out_ok n A K x e \<longleftrightarrow> fst e < n \<and> sealed A K x (K (fst e)) (snd e)"

definition sec_inv :: "(baddr \<Rightarrow> nat) \<Rightarrow> nat list \<Rightarrow> 'f sys \<Rightarrow> bool" where
  "sec_inv T X s \<longleftrightarrow>
     frames_valid (length (procs s)) (accepted s) \<and>
     (\<forall>i < length (procs s). proc_sec (accepted s) (key_of s) T (content_of (memory s)) i (procs s ! i)) \<and>
     list_all2 (out_ok (length (procs s)) (accepted s) (key_of s)) X (written s)"

text \<open>How a step moves the ghosts.\<close>

definition tags :: "'f sys \<Rightarrow> 'f sys \<Rightarrow> (baddr \<Rightarrow> nat) \<Rightarrow> baddr \<Rightarrow> nat" where
  "tags s s' T =
     (if accepted s' = accepted s then T else T(next_buf (memory s) := length (accepted s)))"

definition hand_tags :: "(baddr \<Rightarrow> nat) \<Rightarrow> proc \<Rightarrow> nat list" where
  "hand_tags T p = map (\<lambda>m. T (the (Buf m))) (in_hand (wpc p))"

definition origins :: "'f sys \<Rightarrow> 'f sys \<Rightarrow> (baddr \<Rightarrow> nat) \<Rightarrow> nat list \<Rightarrow> nat list" where
  "origins s s' T X =
     X @ concat (map (\<lambda>(c, d). hand_tags T (procs s ! c)) (drop (length (written s)) (written s')))"

lemma ghosts_same [simp]:
  "accepted s' = accepted s \<Longrightarrow> tags s s' T = T"
  "written s' = written s \<Longrightarrow> origins s s' T X = X"
  by (simp_all add: tags_def origins_def)

lemma sentD: "sent A n c tos payload \<Longrightarrow> (c, tos, payload) \<in> set A"
  by (auto simp: sent_def in_set_conv_nth)

lemma sent_append: "sent A n c tos payload \<Longrightarrow> sent (A @ B) n c tos payload"
  by (simp add: sent_def nth_append)

lemma sealed_mono:
  assumes "sealed A K x k d" and "A' = A @ B" and "\<And>c. c < n \<Longrightarrow> K' c = K c" and "frames_valid n A"
  shows "sealed A' K' x k d"
proof -
  obtain c tos payload where *: "sent A x c tos payload" "k \<in> set tos" "k \<noteq> K c"
    "d = build_message (K c) (replicate (length tos) zero_key) payload"
    using assms(1) by (auto simp: sealed_def)
  then have "K' c = K c" using assms(3,4) by (auto simp: frames_valid_def dest!: sentD)
  then show ?thesis unfolding sealed_def using * assms(2) sent_append [OF *(1)]
    by (intro exI [of _ c] exI [of _ tos] exI [of _ payload]) simp
qed

lemma out_ok_mono:
  assumes "out_ok n A K x e" and "A' = A @ B" and "\<And>c. c < n \<Longrightarrow> K' c = K c" and "frames_valid n A" and "n \<le> n'"
  shows "out_ok n' A' K' x e"
  using sealed_mono [of A K x _ _ A' B n K'] assms by (simp add: out_ok_def)

lemma outgoing_weight: "m \<in> outgoing p \<Longrightarrow> Buf m = Some b \<Longrightarrow> 0 < weight b p"
  by (auto simp: outgoing_def weight_def held_def filter_empty_conv)

text \<open>What a goroutine relies on survives as long as the buffers it holds keep their contents.\<close>

lemma reading_ok_mono:
  assumes "reading_ok A K T C i pc" and "A' = A @ B" and "K' i = K i" and "\<And>d. looked pc = Some d \<Longrightarrow> K' d = K d"
    and "\<And>b. reader_buf pc = Some b \<Longrightarrow> C' b = C b \<and> T' b = T b"
  shows "reading_ok A' K' T' C' i pc"
  using assms by (cases pc) (auto simp: routing_def dest: sent_append)

lemma proc_sec_mono:
  assumes p: "proc_sec A K T C i p" and A: "A' = A @ B" and K: "\<And>c. c < n \<Longrightarrow> K' c = K c" and v: "frames_valid n A"
    and i: "i < n" and look: "\<And>d. looked (rpc p) = Some d \<Longrightarrow> d < n"
    and C: "\<And>b. 0 < weight b p \<Longrightarrow> C' b = C b \<and> T' b = T b"
  shows "proc_sec A' K' T' C' i p"
  unfolding proc_sec_def
proof (intro conjI ballI)
  show "reading_ok A' K' T' C' i (rpc p)"
  proof (rule reading_ok_mono [where A = A and K = K and C = C and T = T])
    show "reading_ok A K T C i (rpc p)" using p by (simp add: proc_sec_def)
    show "K' i = K i" by (rule K [OF i])
  qed (use A K look C weight_reader in auto)
  fix m assume m: "m \<in> outgoing p"
  then obtain b d where b: "Buf m = Some b" "C b = Some d" "sealed A K (T b) (K i) d"
    using p by (auto simp: proc_sec_def)
  have "C' b = Some d \<and> T' b = T b" using C [OF outgoing_weight [OF m b(1)]] b(2) by simp
  moreover have "sealed A' K' (T b) (K' i) d" using sealed_mono [OF b(3) A K v] K [OF i] by simp
  ultimately show "\<exists>b d. Buf m = Some b \<and> C' b = Some d \<and> sealed A' K' (T' b) (K' i) d" using b(1) by auto
qed

lemma sec_invD:
  assumes "sec_inv T X s"
  shows "frames_valid (length (procs s)) (accepted s)"
    and "i < length (procs s) \<Longrightarrow> proc_sec (accepted s) (key_of s) T (content_of (memory s)) i (procs s ! i)"
    and "list_all2 (out_ok (length (procs s)) (accepted s) (key_of s)) X (written s)"
  using assms unfolding sec_inv_def by auto

lemma sec_inv_written:
  assumes "sec_inv T X s" and "(d, bs) \<in> set (written s)"
  obtains x where "d < length (procs s)" "sealed (accepted s) (key_of s) x (key_of s d) bs"
proof -
  obtain j where "j < length (written s)" "written s ! j = (d, bs)" using assms(2) by (auto simp: in_set_conv_nth)
  with list_all2_nthD2 [OF sec_invD(3) [OF assms(1)], of j] show ?thesis by (intro that [of "X ! j"]) (simp_all add: out_ok_def)
qed

lemma sec_inv_handle:
  assumes "sec_inv T X s" and "c < length (procs s)" and "rpc (procs s ! c) = RHandle b t"
  obtains tos payload where "content_of (memory s) b = Some (build_message (key_of s c) tos payload)"
    "frame_ok (int MaxMessageSize) tos payload" "sent (accepted s) (T b) c tos payload"
proof -
  obtain tos payload where *: "sent (accepted s) (T b) c tos payload"
    "content_of (memory s) b = Some (build_message (key_of s c) tos payload)"
    using sec_invD(2) [OF assms(1,2)] assms(3) by (auto simp: proc_sec_def)
  moreover have "frame_ok (int MaxMessageSize) tos payload"
    using sec_invD(1) [OF assms(1)] sentD [OF *(1)] by (auto simp: frames_valid_def)
  ultimately show ?thesis by (rule that [rotated 2])
qed

text \<open>The obligation of a step: goroutine by goroutine, from the contents before the step.\<close>

lemma sec_inv_step:
  assumes sec: "sec_inv T X s" and sys': "sys_inv s'" and len: "length (procs s') = length (procs s)"
    and K: "\<And>i. i < length (procs s) \<Longrightarrow> key_of s' i = key_of s i"
    and A: "accepted s' = accepted s @ B" and v': "frames_valid (length (procs s)) (accepted s')"
    and p: "\<And>i. i < length (procs s) \<Longrightarrow>
       proc_sec (accepted s) (key_of s) T (content_of (memory s)) i (procs s' ! i) \<and>
         (\<forall>b. 0 < weight b (procs s' ! i) \<longrightarrow> content_of (memory s') b = content_of (memory s) b \<and> T' b = T b) \<or>
       proc_sec (accepted s') (key_of s') T' (content_of (memory s')) i (procs s' ! i)"
    and w: "written s' = written s @ V" "list_all2 (out_ok (length (procs s)) (accepted s) (key_of s)) Y V"
  shows "sec_inv T' (X @ Y) s'"
  unfolding sec_inv_def
proof (intro conjI allI impI)
  show "frames_valid (length (procs s')) (accepted s')" using v' len by simp
next
  fix i assume i: "i < length (procs s')"
  then have i': "i < length (procs s)" by (simp add: len)
  have look: "looked (rpc (procs s' ! i)) = Some d \<Longrightarrow> d < length (procs s)" for d
    using sys_invD(6) [OF sys' i] len by simp
  show "proc_sec (accepted s') (key_of s') T' (content_of (memory s')) i (procs s' ! i)"
    using p [OF i']
  proof (elim disjE conjE)
    assume "proc_sec (accepted s) (key_of s) T (content_of (memory s)) i (procs s' ! i)"
      and "\<forall>b. 0 < weight b (procs s' ! i) \<longrightarrow> content_of (memory s') b = content_of (memory s) b \<and> T' b = T b"
    then show ?thesis
      by (rule_tac proc_sec_mono [where A = "accepted s" and K = "key_of s" and K' = "key_of s'" and T = T
            and n = "length (procs s)" and C = "content_of (memory s)", OF _ A K sec_invD(1) [OF sec] i' look])
         simp_all
  qed
next
  have "list_all2 (out_ok (length (procs s)) (accepted s) (key_of s)) (X @ Y) (written s')"
    unfolding w(1) by (rule list_all2_appendI [OF sec_invD(3) [OF sec] w(2)])
  then show "list_all2 (out_ok (length (procs s')) (accepted s') (key_of s')) (X @ Y) (written s')"
    by (rule list_all2_mono) (rule out_ok_mono [OF _ A K sec_invD(1) [OF sec]], simp_all add: len)
qed

text \<open>A step that neither accepts nor writes.\<close>

lemma sec_inv_quiet:
  assumes sec: "sec_inv T X s" and sys': "sys_inv s'" and len: "length (procs s') = length (procs s)"
    and K: "\<And>i. i < length (procs s) \<Longrightarrow> key_of s' i = key_of s i"
    and A: "accepted s' = accepted s" and w: "written s' = written s"
    and p: "\<And>i. i < length (procs s) \<Longrightarrow>
       proc_sec (accepted s) (key_of s) T (content_of (memory s)) i (procs s' ! i) \<and>
         (\<forall>b. 0 < weight b (procs s' ! i) \<longrightarrow> content_of (memory s') b = content_of (memory s) b) \<or>
       proc_sec (accepted s') (key_of s') T (content_of (memory s')) i (procs s' ! i)"
  shows "sec_inv T X s'"
  using sec_inv_step [OF sec sys' len K, where B = "[]" and V = "[]" and Y = "[]" and T' = T]
    sec_invD(1) [OF sec] p by (simp add: A w)

text \<open>A step of one goroutine that leaves the buffers in use as they are.\<close>

lemma sec_inv_one:
  assumes sec: "sec_inv T X s" and sys': "sys_inv s'" and c: "c < length (procs s)"
    and ps: "procs s' = (procs s)[c := p']" and id: "ID (ws p') = ID (ws (procs s ! c))"
    and A: "accepted s' = accepted s" and w: "written s' = written s"
    and rd: "reading_ok (accepted s) (key_of s) T (content_of (memory s)) c (rpc p')"
    and out: "outgoing p' \<subseteq> outgoing (procs s ! c)"
    and live: "\<And>b. 0 < owners b (procs s') \<Longrightarrow> content_of (memory s') b = content_of (memory s) b"
  shows "sec_inv T X s'"
proof (rule sec_inv_quiet [OF sec sys'])
  fix i assume i: "i < length (procs s)"
  show "key_of s' i = key_of s i" using id c by (cases "i = c") (simp_all add: key_of_def ps)
  have "proc_sec (accepted s) (key_of s) T (content_of (memory s)) i (procs s' ! i)"
  proof (cases "i = c")
    case True
    with sec_invD(2) [OF sec c] rd out c show ?thesis unfolding proc_sec_def ps by auto
  next
    case False
    with sec_invD(2) [OF sec i] show ?thesis by (simp add: ps)
  qed
  moreover have "content_of (memory s') b = content_of (memory s) b" if "0 < weight b (procs s' ! i)" for b
    using live [of b] owners_ge [of i "procs s'" b] that i by (simp add: ps)
  ultimately show "proc_sec (accepted s) (key_of s) T (content_of (memory s)) i (procs s' ! i) \<and>
      (\<forall>b. 0 < weight b (procs s' ! i) \<longrightarrow> content_of (memory s') b = content_of (memory s) b) \<or>
    proc_sec (accepted s') (key_of s') T (content_of (memory s')) i (procs s' ! i)" by blast
qed (use sec_invD(1) [OF sec] in \<open>simp_all add: ps A w\<close>)

subsection \<open>The handler's steps\<close>

lemma outgoing_simps [simp]:
  "outgoing (p\<lparr>rpc := pc\<rparr>) = outgoing p"
  "outgoing (p\<lparr>ws := w\<rparr>) = set (outChan w) \<union> set (in_hand (wpc p))"
  "outgoing (p\<lparr>wpc := pc'\<rparr>) = set (outChan (ws p)) \<union> set (in_hand pc')"
  by (simp_all add: outgoing_def)

text \<open>After a release the buffers still in use are intact.\<close>

lemma released_live:
  assumes inv: "mem_inv h ps" and c: "c < length ps" and pos: "0 < weight b (ps ! c)"
    and w: "weight b p' = weight b (ps ! c) - 1"
    and content: "content_of h' = (if owners b ps = 1 then (content_of h)(b \<mapsto> []) else content_of h)"
    and live: "0 < owners a (ps[c := p'])"
  shows "content_of h' a = content_of h a"
proof (cases "a = b \<and> owners b ps = 1")
  case True
  then have "owners b (ps[c := p']) = 0" using owners_update [OF c, of b p'] w pos by simp
  with True live show ?thesis by simp
next
  case False
  then show ?thesis by (auto simp: content)
qed

text \<open>While a handler has not started routing, its buffer is its own.\<close>

lemma handle_sole_owner:
  assumes inv: "mem_inv h ps" and c: "c < length ps" and pc: "rpc (ps ! c) = RHandle b t"
    and i: "i < length ps" "i \<noteq> c"
  shows "weight b (ps ! i) = 0" and "held b (outChan (ws (ps ! c))) = 0" and "held b (in_hand (wpc (ps ! c))) = 0"
proof -
  have "owners b ps + MaxTargetsPerMessage \<le> Suc MaxTargetsPerMessage"
    using mem_invD(5) [OF inv c, of b] pc by simp
  moreover have "weight b (ps ! c) + weight b (ps ! i) \<le> owners b ps" by (rule owners_ge2) (use c i in auto)
  moreover have "weight b (ps ! c) = Suc (held b (outChan (ws (ps ! c))) + held b (in_hand (wpc (ps ! c))))"
    by (simp add: weight_def pc rhold_def)
  ultimately show "weight b (ps ! i) = 0" "held b (outChan (ws (ps ! c))) = 0" "held b (in_hand (wpc (ps ! c))) = 0"
    by linarith+
qed

lemma handle_own_queue:
  assumes inv: "mem_inv h ps" and c: "c < length ps" and pc: "rpc (ps ! c) = RHandle b t"
  shows "held b (outChan (ws (ps ! c))) = 0" and "held b (in_hand (wpc (ps ! c))) = 0"
proof -
  have "owners b ps + MaxTargetsPerMessage \<le> Suc MaxTargetsPerMessage"
    using mem_invD(5) [OF inv c, of b] pc by simp
  moreover have "weight b (ps ! c) \<le> owners b ps" by (rule owners_ge [OF c])
  moreover have "weight b (ps ! c) = Suc (held b (outChan (ws (ps ! c))) + held b (in_hand (wpc (ps ! c))))"
    by (simp add: weight_def pc rhold_def)
  ultimately show "held b (outChan (ws (ps ! c))) = 0" "held b (in_hand (wpc (ps ! c))) = 0"
    by linarith+
qed

lemma handled_sec:
  assumes sec: "sec_inv T X s" and inv: "sys_inv s" and c: "c < length (procs s)"
    and pc: "rpc (procs s ! c) = RHandle b t" and acc: "sent (accepted s) (T b) c tos payload"
    and ts: "set ts \<subseteq> set tos - {key_of s c}"
    and C: "C = (content_of (memory s))(b \<mapsto> build_message (key_of s c) (replicate (length tos) zero_key) payload)"
  shows "proc_sec (accepted s) (key_of s) T C c ((procs s ! c)\<lparr>rpc := RRoute b t ts 0\<rparr>)"
proof -
  have "routing (accepted s) (key_of s) (T b) c (C b) (set ts)" using acc ts by (auto simp: routing_def C)
  moreover have "\<exists>a d. Buf m = Some a \<and> C a = Some d \<and> sealed (accepted s) (key_of s) (T a) (key_of s c) d"
    if m: "m \<in> outgoing (procs s ! c)" for m
  proof -
    obtain a d where a: "Buf m = Some a" "content_of (memory s) a = Some d"
      "sealed (accepted s) (key_of s) (T a) (key_of s c) d"
      using sec_invD(2) [OF sec c] m by (auto simp: proc_sec_def)
    have "a \<noteq> b"
      using handle_own_queue [OF sys_invD(1) [OF inv] c pc] m a(1) by (auto simp: outgoing_def held_def filter_empty_conv)
    with a show ?thesis by (auto simp: C)
  qed
  ultimately show ?thesis by (simp add: proc_sec_def)
qed

lemma handle_start_sec:
  assumes sec: "sec_inv T X s" and inv: "sys_inv s" and c: "c < length (procs s)"
    and pc: "rpc (procs s ! c) = RHandle b t" and step: "handle_start c b t s = Inr s'"
  shows "sec_inv T X s'"
proof -
  note i = sys_invD [OF inv]
  obtain tos payload where msg: "content_of (memory s) b = Some (build_message (key_of s c) tos payload)"
    and fo: "frame_ok (int MaxMessageSize) tos payload" and acc: "sent (accepted s) (T b) c tos payload"
    by (rule sec_inv_handle [OF sec c pc])
  note ok = frame_ok_parts [OF fo i(4) [OF c]]
  let ?msg = "build_message (key_of s c) tos payload" and ?ts = "targets_of (build_message (key_of s c) tos payload) (key_of s c)"
  have ts: "set ?ts \<subseteq> set tos - {key_of s c}"
    unfolding targets_of_build [OF ok] by (auto dest: in_set_takeD)
  from handle_start_inv [OF inv c pc msg] show ?thesis
  proof (elim disjE conjE exE)
    assume "handle_start c b t s = Inr (set_rpc c (RRelease b) s)" "sys_inv (set_rpc c (RRelease b) s)"
    then show ?thesis
      using step by (intro sec_inv_one [OF sec _ c, where p' = "(procs s ! c)\<lparr>rpc := RRelease b\<rparr>"]) simp_all
  next
    fix h'
    let ?s = "set_rpc c (RRoute b t ?ts 0) (s\<lparr>app := IncrementProcessed (app s), memory := h'\<rparr>)"
    assume "let s' = ?s in handle_start c b t s = Inr s' \<and> sys_inv s' \<and>
      content_of h' = (content_of (memory s))(b \<mapsto> ZeroToIDs ?msg)"
    then have eq: "s' = ?s" and sys': "sys_inv ?s" and C: "content_of h' = (content_of (memory s))(b \<mapsto> ZeroToIDs ?msg)"
      using step by (simp_all add: Let_def)
    let ?p = "(procs s ! c)\<lparr>rpc := RRoute b t ?ts 0\<rparr>"
    have key: "key_of ?s j = key_of s j" for j using c by (cases "j = c") (simp_all add: key_of_def)
    have "sec_inv T X ?s"
    proof (rule sec_inv_quiet [OF sec sys'])
      fix j assume j: "j < length (procs s)"
      show "key_of ?s j = key_of s j" by (rule key)
      show "proc_sec (accepted s) (key_of s) T (content_of (memory s)) j (procs ?s ! j) \<and>
          (\<forall>b'. 0 < weight b' (procs ?s ! j) \<longrightarrow> content_of (memory ?s) b' = content_of (memory s) b') \<or>
        proc_sec (accepted ?s) (key_of ?s) T (content_of (memory ?s)) j (procs ?s ! j)"
      proof (cases "j = c")
        case False
        then have "content_of (memory ?s) b' = content_of (memory s) b'" if "0 < weight b' (procs s ! j)" for b'
          using handle_sole_owner(1) [OF i(1) c pc j False] that by (auto simp: C)
        with sec_invD(2) [OF sec j] False show ?thesis by simp
      next
        case True
        have "proc_sec (accepted s) (key_of s) T (content_of h') c ?p"
          by (rule handled_sec [OF sec inv c pc acc ts]) (simp add: C ZeroToIDs_build [OF ok])
        with True c key show ?thesis by (simp add: fun_eq_iff [of "key_of ?s" "key_of s", THEN iffD2])
      qed
    qed (use sec_invD(1) [OF sec] in simp_all)
    with eq show ?thesis by simp
  qed
qed

lemma routing_mono: "routing A K n i d ks \<Longrightarrow> ks' \<subseteq> ks \<Longrightarrow> routing A K n i d ks'"
  unfolding routing_def by blast

lemma push_step_sec:
  assumes sec: "sec_inv T X s" and inv: "sys_inv s" and c: "c < length (procs s)"
    and pc: "rpc (procs s ! c) = RRetained b t d ts k" and step: "push_step c b t d ts k s = Inr s'"
  shows "sec_inv T X s'"
proof -
  note i = sys_invD [OF inv]
  let ?A = "accepted s" and ?K = "key_of s" and ?C = "content_of (memory s)"
  have d: "d < length (procs s)" using i(6) [OF c] pc by simp
  have sys': "sys_inv s'" and mem': "memory s' = memory s" using push_step_inv [OF inv c pc] step by auto
  let ?m = "\<lparr>RecvTime = t, Buf = Some b\<rparr>"
  obtain ok w where push: "SafePush ?m (ws (procs s ! d)) = Inr (ok, w)"
    and s': "s' = set_rpc c (if ok then RRoute b t ts (k + 1) else RUndo b t ts k) (set_ws d w s)"
    using step d by (auto simp: push_step_def bind_res_eq_Inr)
  have w: "cpub w = cpub (ws (procs s ! d)) \<and> set (outChan w) \<subseteq> set (outChan (ws (procs s ! d))) \<union> (if ok then {?m} else {})"
    using push by (cases ok) (auto dest: SafePush_True SafePush_False)
  have rt: "routing ?A ?K (T b) c (?C b) (insert (?K d) (set ts))"
    using sec_invD(2) [OF sec c] pc by (simp add: proc_sec_def)
  then obtain msg where msg: "?C b = Some msg" "sealed ?A ?K (T b) (?K d) msg"
    unfolding routing_def sealed_def by blast
  have rpcs: "rpc (procs s' ! j) = (if j = c then (if ok then RRoute b t ts (k + 1) else RUndo b t ts k) else rpc (procs s ! j))" for j
    using c d by (cases "j = c"; cases "j = d") (simp_all add: s')
  have outs: "outgoing (procs s' ! j) \<subseteq> outgoing (procs s ! j) \<union> (if j = d \<and> ok then {?m} else {})" for j
    using c d w by (cases "j = c"; cases "j = d"; cases ok) (auto simp: s' outgoing_def)
  have key: "key_of s' j = key_of s j" for j
    using c d w by (cases "j = c"; cases "j = d") (simp_all add: s' key_of_def ID_def)
  show ?thesis
  proof (rule sec_inv_quiet [OF sec sys'])
    fix j assume j: "j < length (procs s)"
    show "key_of s' j = key_of s j" by (rule key)
    note old = sec_invD(2) [OF sec j, unfolded proc_sec_def]
    have "reading_ok ?A ?K T ?C j (rpc (procs s' ! j))"
      using old routing_mono [OF rt, of "set ts"] by (auto simp: rpcs)
    moreover have "\<exists>a d. Buf m = Some a \<and> ?C a = Some d \<and> sealed ?A ?K (T a) (?K j) d" if "m \<in> outgoing (procs s' ! j)" for m
      using old outs [of j] that msg by (cases "j = d \<and> ok \<and> m = ?m") (auto split: if_splits)
    ultimately show "proc_sec ?A ?K T ?C j (procs s' ! j) \<and>
        (\<forall>b. 0 < weight b (procs s' ! j) \<longrightarrow> content_of (memory s') b = ?C b) \<or>
      proc_sec (accepted s') (key_of s') T (content_of (memory s')) j (procs s' ! j)"
      by (simp add: proc_sec_def mem')
  qed (use sec_invD(1) [OF sec] in \<open>simp_all add: s'\<close>)
qed

lemma release_step_sec:
  assumes sec: "sec_inv T X s" and inv: "sys_inv s" and c: "c < length (procs s)"
    and pc: "rpc (procs s ! c) = RUndo b t ts k \<and> pc' = RRefused b t ts k \<or>
      rpc (procs s ! c) = RRelease b \<and> pc' = RReading"
    and step: "release_step c b pc' s = Inr s'"
  shows "sec_inv T X s'"
proof -
  note i = sys_invD [OF inv]
  obtain sys': "sys_inv s'" and content: "content_of (memory s') =
      (if owners b (procs s) = 1 then (content_of (memory s))(b \<mapsto> []) else content_of (memory s))"
    using release_step_inv [OF inv c pc] step by auto
  let ?p = "(procs s ! c)\<lparr>rpc := pc'\<rparr>"
  have s': "procs s' = (procs s)[c := ?p]" "accepted s' = accepted s" "written s' = written s"
    using step by (auto simp: release_step_def bind_res_eq_Inr)
  have pos: "0 < weight b (procs s ! c)" by (rule weight_reader) (use pc in auto)
  have w: "weight b ?p = weight b (procs s ! c) - 1" using pc by (auto simp: weight_def rhold_def)
  show ?thesis
  proof (rule sec_inv_one [OF sec sys' c s'(1) _ s'(2,3)])
    show "reading_ok (accepted s) (key_of s) T (content_of (memory s)) c (rpc ?p)"
      using sec_invD(2) [OF sec c] pc by (auto simp: proc_sec_def)
    show "0 < owners a (procs s') \<Longrightarrow> content_of (memory s') a = content_of (memory s) a" for a
      using released_live [OF i(1) c pos w content] by (simp add: s'(1))
  qed simp_all
qed

lemma reading_ok_moves:
  assumes "moves reg pc pc'" and "reading_ok A K T C i pc" and "\<And>k d. reg k = Some d \<Longrightarrow> K d = k"
  shows "reading_ok A K T C i pc'"
  using assms by (induction rule: moves.induct) (auto elim: routing_mono)

lemma reading_ok_outside: "reader_buf pc = None \<Longrightarrow> reading_ok A K T C i pc"
  by (cases pc) simp_all

lemma outside_outgoing: "outside p p' \<Longrightarrow> outgoing p' \<subseteq> outgoing p"
  by (auto simp: outside_def outgoing_def)

lemma reader_step_sec:
  assumes sec: "sec_inv T X s" and inv: "sys_inv s" and c: "c < length (procs s)"
    and step: "reader_step c s = Some (Inr s')"
  shows "sec_inv T X s'"
proof -
  have sys': "sys_inv s'" using reader_step_inv [OF inv c step] by auto
  have kept: "accepted s' = accepted s" "written s' = written s" using reader_step_keeps [OF step] by simp_all
  have old: "reading_ok (accepted s) (key_of s) T (content_of (memory s)) c (rpc (procs s ! c))"
    using sec_invD(2) [OF sec c] by (simp add: proc_sec_def)
  from inv c step show ?thesis
  proof (cases rule: reader_step_cases)
    case handle
    with handle_start_sec [OF sec inv c] show ?thesis by simp
  next
    case (retain b t d ts k)
    with retain_step_inv [OF inv c retain(1)] old kept show ?thesis
      by (intro sec_inv_one [OF sec sys' c, of "(procs s ! c)\<lparr>rpc := RRetained b t d ts k\<rparr>"])
         (auto simp: retain_step_def bind_res_eq_Inr)
  next
    case push
    with push_step_sec [OF sec inv c] show ?thesis by simp
  next
    case release
    with release_step_sec [OF sec inv c] show ?thesis by simp
  next
    case (routed s1 pc)
    have "reading_ok (accepted s) (key_of s) T (content_of (memory s)) c pc"
      by (rule reading_ok_moves [OF routed(2) old]) (simp add: sys_invD(5) [OF inv])
    with routed kept show ?thesis
      by (intro sec_inv_one [OF sec sys' c, of "(procs s ! c)\<lparr>rpc := pc\<rparr>"]) simp_all
  next
    case (outside s1 p')
    with outside_outgoing [OF outside(2)] kept show ?thesis
      by (intro sec_inv_one [OF sec sys' c, of p']) (simp_all add: reading_ok_outside outside_def ID_def)
  qed
qed

subsection \<open>The pump's steps, the environment's, and runs\<close>

lemma writer_release_sec:
  assumes sec: "sec_inv T X s" and inv: "sys_inv s" and c: "c < length (procs s)"
    and hand: "in_hand (wpc (procs s ! c)) = [m]" and pc': "in_hand pc' = []"
    and ok: "proc_ok ((procs s ! c)\<lparr>wpc := pc'\<rparr>)" and step: "writer_release c m pc' s = Inr s'"
  shows "sec_inv T X s'"
proof -
  note i = sys_invD [OF inv]
  let ?p = "(procs s ! c)\<lparr>wpc := pc'\<rparr>"
  obtain b d where b: "Buf m = Some b"
    using sec_invD(2) [OF sec c] hand by (auto simp: proc_sec_def outgoing_def)
  obtain sys': "sys_inv s'" and content: "content_of (memory s') =
      (if owners b (procs s) = 1 then (content_of (memory s))(b \<mapsto> []) else content_of (memory s))"
    using drop_ref_inv [OF inv c hand pc' ok] step b by auto
  have s': "procs s' = (procs s)[c := ?p]" "accepted s' = accepted s" "written s' = written s"
    using step by (auto simp: writer_release_def bind_res_eq_Inr)
  have pos: "0 < weight b (procs s ! c)" by (simp add: weight_def hand b)
  have w: "weight b ?p = weight b (procs s ! c) - 1" by (simp add: weight_def hand pc' b)
  show ?thesis
  proof (rule sec_inv_one [OF sec sys' c s'(1) _ s'(2,3)])
    show "reading_ok (accepted s) (key_of s) T (content_of (memory s)) c (rpc ?p)"
      using sec_invD(2) [OF sec c] by (simp add: proc_sec_def)
    show "0 < owners a (procs s') \<Longrightarrow> content_of (memory s') a = content_of (memory s) a" for a
      using released_live [OF i(1) c pos w content] by (simp add: s'(1))
    show "outgoing ?p \<subseteq> outgoing (procs s ! c)" by (auto simp: outgoing_def pc')
  qed simp
qed

lemma writer_move_sec:
  assumes sec: "sec_inv T X s" and sys': "sys_inv s'" and c: "c < length (procs s)"
    and ps: "procs s' = (procs s)[c := p']" and r: "rpc p' = rpc (procs s ! c)" "cpub (ws p') = cpub (ws (procs s ! c))"
    and m: "memory s' = memory s" and a: "accepted s' = accepted s" "written s' = written s"
    and out: "outgoing p' \<subseteq> outgoing (procs s ! c)"
  shows "sec_inv T X s'"
  by (rule sec_inv_one [OF sec sys' c ps _ a _ out])
     (use sec_invD(2) [OF sec c] in \<open>simp_all add: ID_def r m proc_sec_def\<close>)

lemma writer_recv_sec:
  assumes sec: "sec_inv T X s" and sys': "sys_inv s'" and c: "c < length (procs s)"
    and pc: "wpc (procs s ! c) = WRecv \<and> pc' = WWrite \<or> wpc (procs s ! c) = WDrain \<and> pc' = WDrainRelease"
    and step: "writer_recv c pc' s = Some (Inr s')"
  shows "sec_inv T X s'"
proof (cases "outChan (ws (procs s ! c))")
  case Nil
  then show ?thesis
    using step pc by (intro writer_move_sec [OF sec sys' c, of "(procs s ! c)\<lparr>wpc := WDone\<rparr>"])
      (auto simp: writer_recv_def recv_def outgoing_def split: if_splits)
next
  case (Cons m q)
  then show ?thesis
    using step pc c
    by (intro writer_move_sec [OF sec sys' c,
          of "(procs s ! c)\<lparr>ws := (ws (procs s ! c))\<lparr>outChan := q\<rparr>, wpc := pc' m\<rparr>"])
       (auto simp: writer_recv_def recv_def outgoing_def)
qed

lemma writer_step_sec:
  assumes sec: "sec_inv T X s" and inv: "sys_inv s" and c: "c < length (procs s)"
    and step: "writer_step c s = Some (Inr s')"
  shows "sec_inv T X s'"
proof -
  have sys': "sys_inv s'" using writer_step_inv [OF inv c step] by auto
  have ok: "proc_ok (procs s ! c)" by (rule sys_invD(3) [OF inv c])
  show ?thesis
  proof (cases "wpc (procs s ! c)")
    case WRecv
    with writer_recv_sec [OF sec sys' c, of WWrite] step show ?thesis by (simp add: writer_step_def)
  next
    case WDrain
    with writer_recv_sec [OF sec sys' c, of WDrainRelease] step show ?thesis by (simp add: writer_step_def)
  next
    case (WRelease m good)
    with writer_release_sec [OF sec inv c, of m "if good then WSuccess m else WFail"] step ok show ?thesis
      by (auto simp: writer_step_def proc_ok_def)
  next
    case (WDrainRelease m)
    with writer_release_sec [OF sec inv c, of m WDrain] step ok show ?thesis
      by (auto simp: writer_step_def proc_ok_def)
  next
    case (WSuccess m)
    with step show ?thesis
      by (intro writer_move_sec [OF sec sys' c, of "(procs s ! c)\<lparr>wpc := WLatency m\<rparr>"])
         (auto simp: writer_step_def outgoing_def)
  next
    case WFail
    with step show ?thesis
      by (intro writer_move_sec [OF sec sys' c, of "(procs s ! c)\<lparr>wpc := WClose\<rparr>"])
         (auto simp: writer_step_def outgoing_def)
  next
    case WClose
    then obtain w where w: "Close_conn (ws (procs s ! c)) = Inr w" "s' = set_wpc c WDrain (set_ws c w s)"
      using step by (auto simp: writer_step_def bind_res_eq_Inr)
    with Close_conn_Inr [OF w(1)] c show ?thesis
      by (intro writer_move_sec [OF sec sys' c, of "(procs s ! c)\<lparr>ws := w, wpc := WDrain\<rparr>"])
         (auto simp: outgoing_def)
  qed (use step in \<open>simp_all add: writer_step_def\<close>)
qed

text \<open>A completed write: what went out is what was queued.\<close>

lemma write_done_sec:
  assumes sec: "sec_inv T X s" and inv: "sys_inv s" and c: "c < length (procs s)"
    and step: "write_done c good s = Some (Inr s')"
  shows "sec_inv T (origins s s' T X) s'"
proof -
  obtain m where pc: "wpc (procs s ! c) = WWrite m" using step by (auto simp: write_done_def split: wpc.splits)
  have sys': "sys_inv s'" and mem': "memory s' = memory s" using write_done_inv [OF inv c step] by auto
  let ?A = "accepted s" and ?K = "key_of s" and ?C = "content_of (memory s)"
  note old = sec_invD(2) [OF sec, unfolded proc_sec_def]
  have "m \<in> outgoing (procs s ! c)" by (simp add: outgoing_def pc)
  then obtain b d where b: "Buf m = Some b" "?C b = Some d" "sealed ?A ?K (T b) (?K c) d" using old [OF c] by blast
  then have s': "s' = set_wpc c (WRelease m good) (log_write c good d s)"
    using step pc by (simp add: write_done_def Msg_def Bytes_eq)
  have "sec_inv T (X @ [T b]) s'"
  proof (rule sec_inv_step [OF sec sys', where B = "[]" and V = "[(c, d)]"])
    fix j assume j: "j < length (procs s)"
    show "key_of s' j = key_of s j" using c by (cases "j = c") (simp_all add: s' key_of_def)
    have "outgoing (procs s' ! j) = outgoing (procs s ! j)" "rpc (procs s' ! j) = rpc (procs s ! j)"
      using c pc by (cases "j = c"; simp add: s' outgoing_def)+
    with old [OF j] show "proc_sec ?A ?K T ?C j (procs s' ! j) \<and>
        (\<forall>b. 0 < weight b (procs s' ! j) \<longrightarrow> content_of (memory s') b = ?C b \<and> T b = T b) \<or>
      proc_sec (accepted s') (key_of s') T (content_of (memory s')) j (procs s' ! j)"
      by (simp add: proc_sec_def mem')
  next
    show "written s' = written s @ [(c, d)]" by (simp add: s')
  qed (use sec_invD(1) [OF sec] b(3) c in \<open>simp_all add: s' out_ok_def\<close>)
  moreover have "origins s s' T X = X @ [T b]"
    by (simp add: origins_def s' hand_tags_def pc b(1))
  ultimately show ?thesis by simp
qed

text \<open>A frame that was refused leaves the buffers in use alone.\<close>

lemma read_refused_sec:
  assumes sec: "sec_inv T X s" and inv: "sys_inv s" and c: "c < length (procs s)" and sys': "sys_inv s'"
    and pc: "rpc (procs s ! c) = RReading" and s': "accepted s' = accepted s" "written s' = written s"
      "procs s' = (procs s)[c := (procs s ! c)\<lparr>rpc := after_error e\<rparr>]"
    and live: "\<forall>b < next_buf (memory s). content_of (memory s') b = content_of (memory s) b"
  shows "sec_inv T X s'"
proof (rule sec_inv_one [OF sec sys' c s'(3) _ s'(1,2)])
  note i = sys_invD [OF inv]
  show "reading_ok (accepted s) (key_of s) T (content_of (memory s)) c (rpc ((procs s ! c)\<lparr>rpc := after_error e\<rparr>))"
    by (simp add: after_error_def split: err.split)
  fix a assume "0 < owners a (procs s')"
  moreover have "owners a (procs s') = owners a (procs s)"
    using owners_update [OF c, of a "(procs s ! c)\<lparr>rpc := after_error e\<rparr>"] pc
    by (simp add: s'(3) weight_def rhold_def after_error_simps)
  ultimately have "a < next_buf (memory s)" using mem_invD(3) [OF i(1), of a] by (cases "a < next_buf (memory s)") auto
  with live show "content_of (memory s') a = content_of (memory s) a" by blast
qed simp_all

text \<open>A frame that was accepted: its handler knows what is in its buffer.\<close>

lemma read_accepted_sec:
  assumes sec: "sec_inv T X s" and inv: "sys_inv s" and c: "c < length (procs s)" and sys': "sys_inv s'"
    and fo: "frame_ok (int MaxMessageSize) ids body"
    and s': "accepted s' = accepted s @ [(c, ids, body)]" "written s' = written s"
      "procs s' = (procs s)[c := (procs s ! c)\<lparr>rpc := RHandle (next_buf (memory s)) t\<rparr>]"
    and C: "content_of (memory s') = (content_of (memory s))(next_buf (memory s) \<mapsto> build_message (key_of s c) ids body)"
  shows "sec_inv (tags s s' T) X s'"
proof -
  let ?A = "accepted s" and ?K = "key_of s" and ?C = "content_of (memory s)" and ?b = "next_buf (memory s)"
  let ?T = "tags s s' T"
  have T': "?T = T(?b := length ?A)" by (simp add: tags_def s'(1))
  note i = sys_invD [OF inv] and old = sec_invD(2) [OF sec]
  have fresh: "weight a (procs s ! j) = 0" if "j < length (procs s)" "?b \<le> a" for j a
    using owners_ge [OF that(1), of a] mem_invD(3) [OF i(1) that(2)] by simp
  have key: "key_of s' = ?K"
  proof
    fix j show "key_of s' j = ?K j" using c by (cases "j = c") (simp_all add: s'(3) key_of_def)
  qed
  have "sec_inv ?T (X @ []) s'"
  proof (rule sec_inv_step [OF sec sys', where B = "[(c, ids, body)]"])
    fix j assume j: "j < length (procs s)"
    show "key_of s' j = ?K j" by (simp add: key)
    show "proc_sec ?A ?K T ?C j (procs s' ! j) \<and>
        (\<forall>b. 0 < weight b (procs s' ! j) \<longrightarrow> content_of (memory s') b = ?C b \<and> ?T b = T b) \<or>
      proc_sec (accepted s') (key_of s') ?T (content_of (memory s')) j (procs s' ! j)"
    proof (cases "j = c")
      case False
      then show ?thesis using old [OF j] fresh [OF j] by (auto simp: s'(3) C T')
    next
      case True
      let ?p = "(procs s ! c)\<lparr>rpc := RReading\<rparr>"
      have "proc_sec ?A ?K T ?C c ?p" using old [OF c] by (simp add: proc_sec_def)
      then have "proc_sec (accepted s') ?K ?T (content_of (memory s')) c ?p"
      proof (rule proc_sec_mono [OF _ s'(1) _ sec_invD(1) [OF sec] c])
        fix a assume "0 < weight a ?p"
        then have "a \<noteq> ?b" using fresh [OF c, of ?b] by (auto simp: weight_def rhold_def)
        then show "content_of (memory s') a = ?C a \<and> ?T a = T a" by (simp add: C T')
      qed simp_all
      then show ?thesis using True c
        by (simp add: proc_sec_def s'(3) key C T' s'(1) sent_def)
    qed
  qed (use sec_invD(1) [OF sec] fo c s'(2) in \<open>auto simp: s' frames_valid_def\<close>)
  then show ?thesis by simp
qed

lemma read_frame_sec:
  assumes sec: "sec_inv T X s" and inv: "sys_inv s" and c: "c < length (procs s)"
    and step: "read_frame read malloc c r t s = Some (Inr s')"
    and rd: "io_reader read stream ending patience" "patience r = 0" and mal: "malloc_ok malloc"
  shows "sec_inv (tags s s' T) X s'" and "written s' = written s"
proof -
  let ?v = "decode_frame (int MaxMessageSize) (stream r) (ending r)"
  have sys': "sys_inv s'" and pc: "rpc (procs s ! c) = RReading" and wr: "written s' = written s"
    and res: "case ?v of
         Inl e \<Rightarrow> accepted s' = accepted s \<and> procs s' = (procs s)[c := (procs s ! c)\<lparr>rpc := after_error e\<rparr>] \<and>
           (\<forall>b < next_buf (memory s). content_of (memory s') b = content_of (memory s) b)
       | Inr (ids, body) \<Rightarrow>
           accepted s' = accepted s @ [(c, ids, body)] \<and>
           procs s' = (procs s)[c := (procs s ! c)\<lparr>rpc := RHandle (next_buf (memory s)) t\<rparr>] \<and>
           content_of (memory s') = (content_of (memory s))(next_buf (memory s) \<mapsto> build_message (key_of s c) ids body)"
    using read_frame_inv [OF inv c step rd mal refl] by auto
  show "written s' = written s" by (rule wr)
  show "sec_inv (tags s s' T) X s'"
  proof (cases ?v)
    case (Inl e)
    with res wr read_refused_sec [OF sec inv c sys' pc, of e] show ?thesis by simp
  next
    case (Inr x)
    obtain ids body where x: "x = (ids, body)" by (cases x)
    have fo: "frame_ok (int MaxMessageSize) ids body" using decode_frame_InrD Inr x by metis
    from res Inr x wr show ?thesis by (intro read_accepted_sec [OF sec inv c sys' fo]) simp_all
  qed
qed

lemma accept_sec:
  assumes sec: "sec_inv T X s" and inv: "sys_inv s"
  shows "sec_inv T X (s\<lparr>procs := procs s @ [\<lparr>ws = new_wsconn k n, rpc = RNew, wpc = WNone\<rparr>]\<rparr>)"
    (is "sec_inv T X ?s")
proof -
  have key: "key_of ?s j = key_of s j" if "j < length (procs s)" for j
    using that by (simp add: key_of_def nth_append)
  note v = sec_invD(1) [OF sec]
  have A: "accepted ?s = accepted s @ []" by simp
  have "proc_sec (accepted ?s) (key_of ?s) T (content_of (memory ?s)) j (procs ?s ! j)"
    if j: "j < length (procs ?s)" for j
  proof (cases "j < length (procs s)")
    case True
    have "proc_sec (accepted s) (key_of ?s) T (content_of (memory s)) j (procs s ! j)"
      by (rule proc_sec_mono [where K = "key_of s" and K' = "key_of ?s", OF sec_invD(2) [OF sec True] A key v True, simplified])
         (use sys_invD(6) [OF inv True] in auto)
    then show ?thesis using True by (simp add: nth_append)
  next
    case False
    then have "procs ?s ! j = \<lparr>ws = new_wsconn k n, rpc = RNew, wpc = WNone\<rparr>"
      using j by (simp add: nth_append)
    then show ?thesis by (simp only:) (simp add: proc_sec_def outgoing_def new_wsconn_def Let_def)
  qed
  moreover have "frames_valid (length (procs ?s)) (accepted ?s)"
    using v by (fastforce simp: frames_valid_def)
  moreover have "list_all2 (out_ok (length (procs ?s)) (accepted ?s) (key_of ?s)) X (written ?s)"
    using sec_invD(3) [OF sec] out_ok_mono [where K' = "key_of ?s", OF _ A key v]
    by (auto elim!: list_all2_mono)
  ultimately show ?thesis unfolding sec_inv_def by blast
qed

lemma exec_sec:
  assumes sec: "sec_inv T X s" and inv: "sys_inv s" and env: "calm_reader read stream ending" "malloc_ok malloc"
    and step: "exec read malloc a s = Some (Inr s')"
  shows "sec_inv (tags s s' T) (origins s s' T X) s'"
proof -
  have app_only: "sec_inv T X (s\<lparr>app := x\<rparr>)" for x
    using sec by (simp add: sec_inv_def key_of_def [abs_def])
  show ?thesis
  proof (cases a)
    case (Accept k n)
    with step accept_sec [OF sec inv, of k n] show ?thesis by (auto split: if_splits)
  next
    case (ReadError c)
    then have c: "c < length (procs s)" and s': "s' = set_rpc c RDisconnect s"
      using step by (auto split: if_splits)
    have "sys_inv s'" using exec_inv [OF inv env step] by auto
    then have "sec_inv T X s'"
      by (intro sec_inv_one [OF sec _ c, where p' = "(procs s ! c)\<lparr>rpc := RDisconnect\<rparr>"]) (simp_all add: s')
    then show ?thesis by (simp add: s')
  next
    case (ReadText c)
    with step sec show ?thesis by (auto split: if_splits)
  next
    case (ReadFrame c r t)
    with step read_frame_sec [OF sec inv _ _ env(1) [unfolded calm_reader_def] refl env(2)] show ?thesis
      by (auto split: if_splits)
  next
    case (Reader c)
    with step reader_step_sec [OF sec inv] reader_step_keeps [of c s s'] show ?thesis by (simp split: if_splits)
  next
    case (Writer c)
    with step writer_step_sec [OF sec inv] writer_step_keeps [of c s s'] show ?thesis by (simp split: if_splits)
  next
    case (WriteDone c good)
    with step write_done_sec [OF sec inv] write_done_keeps [of c good s s'] show ?thesis by (simp split: if_splits)
  next
    case (Latency c d)
    then have c: "c < length (procs s)" using step by (auto split: if_splits)
    obtain m a' where pc: "wpc (procs s ! c) = WLatency m" and s': "s' = set_wpc c WRecv (s\<lparr>app := a'\<rparr>)"
      using step Latency c by (auto simp: record_latency_def bind_res_eq_Inr split: wpc.splits)
    have "sys_inv s'" using exec_inv [OF inv env step] by auto
    then have "sec_inv T X s'"
      by (intro writer_move_sec [OF sec _ c, of _ "(procs s ! c)\<lparr>wpc := WRecv\<rparr>"])
         (simp_all add: s' outgoing_def)
    then show ?thesis by (simp add: s')
  next
    case LatencyTake
    with step app_only show ?thesis by auto
  next
    case CloseApp
    with step app_only show ?thesis by (auto split: if_splits)
  qed
qed

text \<open>In every reachable state there are ghosts that make the invariant hold.\<close>

lemma reachable_ghosts:
  assumes "reachable read malloc (init_sys t F) s" and env: "calm_reader read stream ending" "malloc_ok malloc"
    and start: "P (\<lambda>b. 0) [] (init_sys t F)"
    and step: "\<And>T X s a s'. sys_inv s \<Longrightarrow> sec_inv T X s \<Longrightarrow> P T X s \<Longrightarrow> exec read malloc a s = Some (Inr s') \<Longrightarrow>
      P (tags s s' T) (origins s s' T X) s'"
  obtains T X where "sec_inv T X s" "P T X s"
  using assms(1)
proof (induction arbitrary: thesis)
  case start
  show ?case
    by (rule start(1) [OF _ assms(4)]) (simp add: sec_inv_def init_sys_def frames_valid_def)
next
  case (step s a s')
  obtain T X where TX: "sec_inv T X s" "P T X s" by (rule step.IH)
  note inv = reachable_inv [OF step.hyps(1) env]
  show ?case
    by (rule step.prems [OF exec_sec [OF TX(1) inv env step.hyps(2)] assms(5) [OF inv TX step.hyps(2)]])
qed

lemma reachable_sec:
  assumes "reachable read malloc (init_sys t F) s" and "calm_reader read stream ending" and "malloc_ok malloc"
  obtains T X where "sec_inv T X s"
  by (rule reachable_ghosts [OF assms, where P = "\<lambda>T X s. True"]) auto

end
