(* ===== verification/Relay_Runs.thy ===== *)
theory Relay_Runs
  imports Relay_Security
begin

section \<open>Complete runs: the inlined handler, delivery, and the end of a connection\<close>

text \<open>
  The handler's small steps against the code they inline: run without interruption they compute
  \<open>HandleMessage\<close>. From there, properties of whole runs: what reaches a client, that a write pump
  ends once its connection is closed, and what the connection counter counts.
\<close>

subsection \<open>Uninterrupted steps of one handler\<close>

lemma exec_all_append:
  "exec_all read malloc (as @ bs) s = bind_run (exec_all read malloc as s) (exec_all read malloc bs)"
  by (induction as arbitrary: s) (auto simp: bind_run_def split: option.splits sum.splits)

definition handler_runs :: "'r reader \<Rightarrow> malloc \<Rightarrow> cid \<Rightarrow> 'f sys \<Rightarrow> 'f sys \<Rightarrow> bool" where
  "handler_runs read malloc c s s' \<longleftrightarrow> (\<exists>n. exec_all read malloc (replicate n (Reader c)) s = Some (Inr s'))"

lemma handler_runs_refl: "handler_runs read malloc c s s"
  unfolding handler_runs_def by (rule exI [of _ 0]) simp

lemma handler_runs_step:
  assumes "c < length (procs s)" and "reader_step c s = Some (Inr s1)" and "handler_runs read malloc c s1 s'"
  shows "handler_runs read malloc c s s'"
proof -
  obtain n where "exec_all read malloc (replicate n (Reader c)) s1 = Some (Inr s')"
    using assms(3) by (auto simp: handler_runs_def)
  then have "exec_all read malloc (replicate (Suc n) (Reader c)) s = Some (Inr s')"
    using assms(1,2) by simp
  then show ?thesis unfolding handler_runs_def by blast
qed

lemma handler_runs_reachable:
  "reachable read malloc s0 s \<Longrightarrow> handler_runs read malloc c s s' \<Longrightarrow> reachable read malloc s0 s'"
  unfolding handler_runs_def using exec_all_reachable by blast

lemma handler_runs_trans:
  assumes "handler_runs read malloc c s s1" and "handler_runs read malloc c s1 s'"
  shows "handler_runs read malloc c s s'"
proof -
  obtain n k where "exec_all read malloc (replicate n (Reader c)) s = Some (Inr s1)"
    "exec_all read malloc (replicate k (Reader c)) s1 = Some (Inr s')"
    using assms by (auto simp: handler_runs_def)
  then have "exec_all read malloc (replicate (n + k) (Reader c)) s = Some (Inr s')"
    by (simp add: replicate_add exec_all_append)
  then show ?thesis unfolding handler_runs_def by blast
qed

text \<open>The connectors as \<open>HandleMessage\<close> sees them, and what a handler leaves alone.\<close>

definition conns_of :: "'f sys \<Rightarrow> conns" where
  "conns_of s d = (if d < length (procs s) then Some (ws (procs s ! d)) else None)"

definition others_same :: "cid \<Rightarrow> 'f sys \<Rightarrow> 'f sys \<Rightarrow> bool" where
  "others_same c s s' \<longleftrightarrow>
     map wpc (procs s') = map wpc (procs s) \<and>
     (\<forall>j < length (procs s). j \<noteq> c \<longrightarrow> rpc (procs s' ! j) = rpc (procs s ! j)) \<and>
     accepted s' = accepted s \<and> written s' = written s"

lemma others_same_refl [simp]: "others_same c s s"
  by (simp add: others_same_def)

lemma others_same_length: "others_same c s s' \<Longrightarrow> length (procs s') = length (procs s)"
  unfolding others_same_def by (metis length_map)

lemma others_same_trans: "others_same c s s1 \<Longrightarrow> others_same c s1 s' \<Longrightarrow> others_same c s s'"
  using others_same_length [of c s s1] by (auto simp: others_same_def)

lemma map_wpc_update: "c < length ps \<Longrightarrow> wpc p = wpc (ps ! c) \<Longrightarrow> map wpc (ps[c := p]) = map wpc ps"
  by (metis list_update_id map_update)

lemma others_same_rpc:
  assumes "c < length (procs s)" and "accepted s1 = accepted s" "written s1 = written s" "procs s1 = procs s"
  shows "others_same c s (set_rpc c pc s1)"
  using assms by (simp add: others_same_def map_wpc_update)

lemma conns_of_rpc: "c < length (procs s) \<Longrightarrow> procs s1 = procs s \<Longrightarrow> conns_of (set_rpc c pc s1) = conns_of s"
  by (auto simp: conns_of_def fun_eq_iff nth_list_update)

text \<open>A step that moves only the program counter, the memory or the application.\<close>

lemma quiet_run:
  assumes "c < length (procs s)" and "reader_step c s = Some (Inr (set_rpc c pc s1))"
    and "accepted s1 = accepted s" "written s1 = written s" "procs s1 = procs s"
  shows "handler_runs read malloc c s (set_rpc c pc s1) \<and> others_same c s (set_rpc c pc s1) \<and>
    conns_of (set_rpc c pc s1) = conns_of s \<and> rpc (procs (set_rpc c pc s1) ! c) = pc"
  using handler_runs_step [OF assms(1,2) handler_runs_refl] others_same_rpc [OF assms(1,3-5)]
    conns_of_rpc [OF assms(1,5)] assms(1,5) by simp

lemma refused_steps:
  assumes c: "c < length (procs s)" and pc: "rpc (procs s ! c) = RUndo b t ts k" and rl: "Release b (memory s) = Inr h'"
  shows "\<exists>s'. handler_runs read malloc c s s' \<and> rpc (procs s' ! c) = RRoute b t ts k \<and> memory s' = h' \<and>
    conns_of s' = conns_of s \<and> app s' = IncrementDeliveryFailure (app s) \<and> others_same c s s'"
proof -
  let ?s1 = "set_rpc c (RRefused b t ts k) (s\<lparr>memory := h'\<rparr>)"
  let ?s2 = "set_rpc c (RRoute b t ts k) (?s1\<lparr>app := IncrementDeliveryFailure (app ?s1)\<rparr>)"
  have "reader_step c s = Some (Inr ?s1)" using pc rl by (simp add: reader_step_def release_step_def)
  note 1 = quiet_run [OF c this, of read malloc, simplified]
  have "reader_step c ?s1 = Some (Inr ?s2)" "c < length (procs ?s1)" using c by (simp_all add: reader_step_def)
  note 2 = quiet_run [OF this(2,1), of read malloc, simplified]
  have "handler_runs read malloc c s ?s2" "others_same c s ?s2" "conns_of ?s2 = conns_of s"
    "rpc (procs ?s2 ! c) = RRoute b t ts k"
    using 1 2 c handler_runs_trans others_same_trans by auto
  then show ?thesis by (intro exI [of _ ?s2]) simp
qed

lemma finish_steps:
  assumes c: "c < length (procs s)" and pc: "rpc (procs s ! c) = RRoute b t [] k"
  shows "\<exists>s'. handler_runs read malloc c s s' \<and> rpc (procs s' ! c) = RRelease b \<and> memory s' = memory s \<and>
    conns_of s' = conns_of s \<and> app s' = (if k = 0 then IncrementDeliveryFailure (app s) else app s) \<and> others_same c s s'"
proof -
  let ?s1 = "set_rpc c (if k = 0 then RNoMatch b else RRelease b) s"
  let ?s2 = "set_rpc c (RRelease b) (?s1\<lparr>app := IncrementDeliveryFailure (app ?s1)\<rparr>)"
  have "reader_step c s = Some (Inr ?s1)" using pc by (simp add: reader_step_def)
  note 1 = quiet_run [OF c this, of read malloc, simplified]
  show ?thesis
  proof (cases "k = 0")
    case True
    then have "reader_step c ?s1 = Some (Inr ?s2)" "c < length (procs ?s1)" using c by (simp_all add: reader_step_def)
    note 2 = quiet_run [OF this(2,1), of read malloc, simplified]
    have "handler_runs read malloc c s ?s2" "others_same c s ?s2" "conns_of ?s2 = conns_of s"
      "rpc (procs ?s2 ! c) = RRelease b"
      using 1 2 c True handler_runs_trans others_same_trans by auto
    with True show ?thesis by (intro exI [of _ ?s2]) simp
  next
    case False
    with 1 c show ?thesis by (intro exI [of _ ?s1]) simp
  qed
qed

text \<open>One delivery attempt: \<open>DeliverTo\<close>, and the failure count when it was refused.\<close>

lemma deliver_steps:
  assumes c: "c < length (procs s)" and pc: "rpc (procs s ! c) = RLooked b t d ts k"
    and dl: "DeliverTo push_in d \<lparr>RecvTime = t, Buf = Some b\<rparr> (memory s) (conns_of s) = Inr (ok, h', S')"
  shows "\<exists>s'. handler_runs read malloc c s s' \<and> rpc (procs s' ! c) = RRoute b t ts (if ok then k + 1 else k) \<and>
    memory s' = h' \<and> conns_of s' = S' \<and>
    app s' = (if ok then app s else IncrementDeliveryFailure (app s)) \<and> others_same c s s'"
proof -
  let ?m = "\<lparr>RecvTime = t, Buf = Some b\<rparr>"
  obtain h1 where h1: "Retain b (memory s) = Inr h1" and p: "push_in d ?m (conns_of s) = Inr (ok, S')"
    and h': "if ok then h' = h1 else Release b h1 = Inr h'"
    using dl by (auto simp: DeliverTo_def bind_res_eq_Inr split: if_splits)
  obtain w w' where w: "conns_of s d = Some w" "SafePush ?m w = Inr (ok, w')" "S' = (conns_of s)(d \<mapsto> w')"
    using p by (auto simp: push_in_eq)
  have d: "d < length (procs s)" and wd: "w = ws (procs s ! d)"
    using w(1) by (auto simp: conns_of_def split: if_splits)
  let ?s1 = "set_rpc c (RRetained b t d ts k) (s\<lparr>memory := h1\<rparr>)"
  have s1: "reader_step c s = Some (Inr ?s1)" using pc h1 by (simp add: reader_step_def retain_step_def)
  have ws1: "ws (procs ?s1 ! d) = w" using wd by (cases "d = c") (use c in simp_all)
  let ?pc = "if ok then RRoute b t ts (k + 1) else RUndo b t ts k"
  let ?s2 = "set_rpc c ?pc (set_ws d w' ?s1)"
  have s2: "reader_step c ?s1 = Some (Inr ?s2)"
    using c d w(2) ws1 by (simp add: reader_step_def push_step_def)
  have pc2: "rpc (procs ?s2 ! c) = ?pc" and c2: "c < length (procs ?s2)" using c by simp_all
  have conns2: "conns_of ?s2 = S'" using c d by (auto simp: w(3) conns_of_def fun_eq_iff nth_list_update)
  have oth2: "others_same c s ?s2" using c d by (auto simp: others_same_def map_wpc_update nth_list_update)
  have run2: "handler_runs read malloc c s ?s2"
    by (rule handler_runs_step [OF c s1 handler_runs_step [OF _ s2 handler_runs_refl]]) (simp add: c)
  show ?thesis
  proof (cases ok)
    case True
    with run2 pc2 conns2 oth2 h' show ?thesis by (intro exI [of _ ?s2]) simp
  next
    case False
    have "\<exists>s'. handler_runs read malloc c ?s2 s' \<and> rpc (procs s' ! c) = RRoute b t ts k \<and> memory s' = h' \<and>
      conns_of s' = conns_of ?s2 \<and> app s' = IncrementDeliveryFailure (app ?s2) \<and> others_same c ?s2 s'"
      by (rule refused_steps [OF c2]) (use False pc2 h' in simp_all)
    with False conns2 handler_runs_trans [OF run2] others_same_trans [OF oth2] show ?thesis by auto
  qed
qed

lemma route_steps:
  assumes "c < length (procs s)" and "rpc (procs s ! c) = RRoute b t ts k"
    and "route_loop push_in \<lparr>RecvTime = t, Buf = Some b\<rparr> ts k (memory s) (conns_of s) (app s) = Inr (k', h', S', r')"
  shows "\<exists>s'. handler_runs read malloc c s s' \<and> rpc (procs s' ! c) = RRoute b t [] k' \<and> memory s' = h' \<and>
    conns_of s' = S' \<and> app s' = r' \<and> others_same c s s'"
  using assms
proof (induction ts arbitrary: k s)
  case Nil
  then show ?case using handler_runs_refl by fastforce
next
  case (Cons x xs)
  show ?case
  proof (cases "connectors (app s) x")
    case None
    let ?s1 = "set_rpc c (RRoute b t xs k) s"
    have s1: "reader_step c s = Some (Inr ?s1)"
      using None Cons.prems(2) by (simp add: reader_step_def GetConnectorByKey_def map_Load_def)
    have "\<exists>s'. handler_runs read malloc c ?s1 s' \<and> rpc (procs s' ! c) = RRoute b t [] k' \<and> memory s' = h' \<and>
      conns_of s' = S' \<and> app s' = r' \<and> others_same c ?s1 s'"
      by (rule Cons.IH)
         (use None Cons.prems conns_of_rpc [of c s s] in \<open>simp_all add: GetConnectorByKey_def map_Load_def\<close>)
    then show ?thesis
      using handler_runs_step [OF Cons.prems(1) s1] others_same_rpc [OF Cons.prems(1), of s "RRoute b t xs k"]
        others_same_trans by blast
  next
    case (Some d)
    let ?m = "\<lparr>RecvTime = t, Buf = Some b\<rparr>" and ?s1 = "set_rpc c (RLooked b t d xs k) s"
    have s1: "reader_step c s = Some (Inr ?s1)"
      using Some Cons.prems(2) by (simp add: reader_step_def GetConnectorByKey_def map_Load_def)
    obtain ok h1 S1 where dl: "DeliverTo push_in d ?m (memory s) (conns_of s) = Inr (ok, h1, S1)"
      and rl: "route_loop push_in ?m xs (if ok then k + 1 else k) h1 S1
        (if ok then app s else IncrementDeliveryFailure (app s)) = Inr (k', h', S', r')"
      using Cons.prems(3) Some
      by (auto simp: GetConnectorByKey_def map_Load_def bind_res_eq_Inr split: if_splits)
    have c1: "c < length (procs ?s1)" using Cons.prems(1) by simp
    have o1: "others_same c s ?s1" by (rule others_same_rpc) (use Cons.prems(1) in simp_all)
    have dv: "\<exists>s2. handler_runs read malloc c ?s1 s2 \<and> rpc (procs s2 ! c) = RRoute b t xs (if ok then k + 1 else k) \<and>
      memory s2 = h1 \<and> conns_of s2 = S1 \<and>
      app s2 = (if ok then app ?s1 else IncrementDeliveryFailure (app ?s1)) \<and> others_same c ?s1 s2"
      by (rule deliver_steps) (use Cons.prems(1) dl conns_of_rpc [of c s s] in simp_all)
    then obtain s2 where s2: "handler_runs read malloc c ?s1 s2"
      "rpc (procs s2 ! c) = RRoute b t xs (if ok then k + 1 else k)" "memory s2 = h1" "conns_of s2 = S1"
      "app s2 = (if ok then app s else IncrementDeliveryFailure (app s))" "others_same c ?s1 s2" by auto
    have "c < length (procs s2)" using others_same_length [OF s2(6)] c1 by simp
    from Cons.IH [OF this s2(2)] rl s2(3-5) obtain s' where
      "handler_runs read malloc c s2 s'" "rpc (procs s' ! c) = RRoute b t [] k'" "memory s' = h'"
      "conns_of s' = S'" "app s' = r'" "others_same c s2 s'" by auto
    then show ?thesis
      using handler_runs_step [OF Cons.prems(1) s1 handler_runs_trans [OF s2(1)]]
        others_same_trans [OF o1 others_same_trans [OF s2(6)]] by blast
  qed
qed

text \<open>All of \<open>HandleMessage\<close>.\<close>

lemma handle_steps:
  assumes c: "c < length (procs s)" and pc: "rpc (procs s ! c) = RHandle b t"
    and hm: "HandleMessage push_in (key_of s c) \<lparr>RecvTime = t, Buf = Some b\<rparr> (memory s) (conns_of s) (app s) = Inr (h', S', r')"
  shows "\<exists>s'. handler_runs read malloc c s s' \<and> rpc (procs s' ! c) = RRelease b \<and> memory s' = h' \<and>
    conns_of s' = S' \<and> app s' = r' \<and> others_same c s s'"
proof -
  let ?m = "\<lparr>RecvTime = t, Buf = Some b\<rparr>"
  obtain msg n ts where M: "Msg ?m (memory s) = Inr msg"
    and E: "ExtractTargets msg (key_of s c) (replicate MaxTargetsPerMessage zero_key) = Inr (n, ts)"
    using hm by (auto simp: HandleMessage_def bind_res_eq_Inr)
  show ?thesis
  proof (cases "n = 0")
    case True
    let ?s1 = "set_rpc c (RRelease b) s"
    have "reader_step c s = Some (Inr ?s1)"
      using True M E pc by (simp add: reader_step_def handle_start_def)
    from handler_runs_step [OF c this handler_runs_refl]
    have "handler_runs read malloc c s ?s1" .
    moreover have "h' = memory s" "S' = conns_of s" "r' = app s" using True M E hm by (simp_all add: HandleMessage_def)
    moreover have "others_same c s ?s1" by (rule others_same_rpc) (use c in simp_all)
    ultimately show ?thesis using c conns_of_rpc [OF c, of s] by (intro exI [of _ ?s1]) simp
  next
    case False
    let ?h1 = "write_bytes b (ZeroToIDs msg) (memory s)" and ?r1 = "IncrementProcessed (app s)"
    obtain ts' k h2 S2 r2 where sl: "go_slice 0 n ts = Inr ts'"
      and rl: "route_loop push_in ?m ts' 0 ?h1 (conns_of s) ?r1 = Inr (k, h2, S2, r2)"
      and res: "h' = h2" "S' = S2" "r' = (if k = 0 then IncrementDeliveryFailure r2 else r2)"
      using False M E hm by (auto simp: HandleMessage_def bind_res_eq_Inr Let_def split: if_splits)
    let ?s1 = "set_rpc c (RRoute b t ts' 0) (s\<lparr>app := ?r1, memory := ?h1\<rparr>)"
    have s1: "reader_step c s = Some (Inr ?s1)"
      using False M E sl pc by (simp add: reader_step_def handle_start_def)
    have o1: "others_same c s ?s1" by (rule others_same_rpc) (use c in simp_all)
    have "\<exists>s'. handler_runs read malloc c ?s1 s' \<and> rpc (procs s' ! c) = RRoute b t [] k \<and> memory s' = h2 \<and>
      conns_of s' = S2 \<and> app s' = r2 \<and> others_same c ?s1 s'"
      by (rule route_steps) (use c rl conns_of_rpc [of c s "s\<lparr>app := ?r1, memory := ?h1\<rparr>"] in simp_all)
    then obtain s2 where s2: "handler_runs read malloc c ?s1 s2" "rpc (procs s2 ! c) = RRoute b t [] k"
      "memory s2 = h2" "conns_of s2 = S2" "app s2 = r2" "others_same c ?s1 s2" by blast
    have c2: "c < length (procs s2)" using others_same_length [OF s2(6)] c by simp
    obtain s3 where s3: "handler_runs read malloc c s2 s3" "rpc (procs s3 ! c) = RRelease b" "memory s3 = h2"
      "conns_of s3 = S2" "app s3 = r'" "others_same c s2 s3"
      using finish_steps [OF c2 s2(2)] s2(3-5) res(3) by auto
    have "handler_runs read malloc c s s3"
      by (rule handler_runs_trans [OF handler_runs_step [OF c s1 s2(1)] s3(1)])
    moreover have "others_same c s s3" by (rule others_same_trans [OF o1 others_same_trans [OF s2(6) s3(6)]])
    ultimately show ?thesis using res s3(2-5) by blast
  qed
qed

subsection \<open>Multicast into the connectors' queues\<close>

text \<open>Where a push on an open connector with room ends up.\<close>

definition takes :: "conns \<Rightarrow> nat \<Rightarrow> bool" where
  "takes S d \<longleftrightarrow> (\<exists>w. S d = Some w \<and> \<not> isClosed w \<and> length (outChan w) < outCap w)"

lemma push_in_takes:
  assumes "conns_ok S" and "known_in S d"
  shows "\<exists>S'. push_in d m S = Inr (takes S d, S') \<and> conns_ok S' \<and> known_in S' = known_in S \<and>
    queued_in S' = (queued_in S)(d := queued_in S d @ (if takes S d then [m] else [])) \<and>
    (\<forall>d'. d' \<noteq> d \<longrightarrow> S' d' = S d')"
proof -
  obtain ok S' where p: "push_in d m S = Inr (ok, S')" "conns_ok S'"
    using ws.push_total [OF assms, of m] by blast
  then obtain w w' where w: "S d = Some w" "SafePush m w = Inr (ok, w')" "S' = S(d \<mapsto> w')"
    by (auto simp: push_in_eq)
  have "ok = takes S d"
    using w(1,2) by (auto simp: takes_def SafePush_def split: if_splits)
  moreover have "known_in S' = known_in S \<and>
    queued_in S' = (queued_in S)(d := queued_in S d @ (if ok then [m] else []))"
    using ws.push_accepts [of d m S S'] ws.push_drops [of d m S S'] p(1) by (cases ok) simp_all
  ultimately show ?thesis using p w(3) by auto
qed

lemma push_all_queues:
  assumes "distinct ds" and "conns_ok S" and "\<forall>d \<in> set ds. known_in S d"
  shows "\<exists>S'. push_all push_in m ds S = Inr (length (filter (takes S) ds), S') \<and>
    queued_in S' = (\<lambda>d. queued_in S d @ (if d \<in> set ds \<and> takes S d then [m] else []))"
  using assms
proof (induction ds arbitrary: S)
  case (Cons d ds)
  obtain S1 where S1: "push_in d m S = Inr (takes S d, S1)" "conns_ok S1" "known_in S1 = known_in S"
    "queued_in S1 = (queued_in S)(d := queued_in S d @ (if takes S d then [m] else []))"
    "\<forall>d'. d' \<noteq> d \<longrightarrow> S1 d' = S d'"
    using push_in_takes [of S d m] Cons.prems by auto
  have same: "takes S1 d' = takes S d'" if "d' \<noteq> d" for d' using S1(5) that by (simp add: takes_def)
  obtain S' where S': "push_all push_in m ds S1 = Inr (length (filter (takes S1) ds), S')"
    "queued_in S' = (\<lambda>d. queued_in S1 d @ (if d \<in> set ds \<and> takes S1 d then [m] else []))"
    using Cons.IH [of S1] S1(2,3) Cons.prems by auto
  have "filter (takes S1) ds = filter (takes S) ds"
  proof (rule filter_cong)
    fix x assume "x \<in> set ds"
    then have "x \<noteq> d" using Cons.prems(1) by auto
    then show "takes S1 x = takes S x" by (rule same)
  qed simp
  moreover have "queued_in S' = (\<lambda>x. queued_in S x @ (if x \<in> set (d # ds) \<and> takes S x then [m] else []))"
  proof
    fix x show "queued_in S' x = queued_in S x @ (if x \<in> set (d # ds) \<and> takes S x then [m] else [])"
      using Cons.prems(1) same [of x] by (cases "x = d") (auto simp: S'(2) S1(4))
  qed
  ultimately show ?case using S1(1) S'(1) by auto
qed simp

text \<open>A frame that is accepted, read by its handler.\<close>

lemma read_frame_accepts:
  assumes inv: "sys_inv s" and c: "c < length (procs s)" and pc: "rpc (procs s ! c) = RReading"
    and env: "calm_reader read stream ending" "malloc_ok malloc" "\<forall>m n. malloc m n \<noteq> None"
    and v: "decode_frame (int MaxMessageSize) (stream r) (ending r) = Inr (ids, body)"
  shows "\<exists>s1. exec read malloc (ReadFrame c r t) s = Some (Inr s1) \<and> sys_inv s1 \<and>
      procs s1 = (procs s)[c := (procs s ! c)\<lparr>rpc := RHandle (next_buf (memory s)) t\<rparr>] \<and>
      accepted s1 = accepted s @ [(c, ids, body)] \<and> written s1 = written s \<and> app s1 = app s \<and>
      content_of (memory s1) (next_buf (memory s)) = Some (build_message (key_of s c) ids body)"
proof -
  note i = sys_invD [OF inv]
  have rd: "io_reader read stream ending (\<lambda>_. 0)" using env(1) by (simp add: calm_reader_def)
  let ?v = "decode_frame (int MaxMessageSize) (stream r) (ending r)"
  let ?run = "readMessageWithFixedFromID read malloc (int MaxMessageSize) (key_of s c) r (memory s)"
  obtain r' m' where run: "?run = Some (Inr (Inr (next_buf (memory s)), r', m'))" and m': "mem_plus (memory s) 1 (build_message (key_of s c) ids body) m'"
    using io_reader.read_message_total [OF rd refl i(4) [OF c] env(2) mem_invD(1) [OF i(1)] refl env(3), of "int MaxMessageSize" r]
    unfolding v by (elim disjE conjE exE) simp_all
  then have "Bytes (next_buf (memory s)) m' = Inr (build_message (key_of s c) ids body)"
    by (simp add: mem_plus_def Bytes_eq)
  with run have rf: "read_frame read malloc c r t s = Some (Inr (set_rpc c (RHandle (next_buf (memory s)) t)
      (s\<lparr>memory := m', accepted := accepted s @ [(c, parts_of (build_message (key_of s c) ids body))]\<rparr>)))"
    (is "_ = Some (Inr ?s1)")
    using pc by (simp add: read_frame_def)
  from read_frame_inv [OF inv c rf rd refl env(2) refl] v
  have "sys_inv ?s1 \<and> procs ?s1 = (procs s)[c := (procs s ! c)\<lparr>rpc := RHandle (next_buf (memory s)) t\<rparr>] \<and>
      accepted ?s1 = accepted s @ [(c, ids, body)] \<and> written ?s1 = written s \<and>
      content_of (memory ?s1) = (content_of (memory s))(next_buf (memory s) \<mapsto> build_message (key_of s c) ids body)"
    by auto
  moreover have "exec read malloc (ReadFrame c r t) s = Some (Inr ?s1)" using rf c by simp
  ultimately show ?thesis by (intro exI [of _ ?s1]) (simp only: set_proc_simps fun_upd_same, simp)
qed

lemma conns_of_ok: "sys_inv s \<Longrightarrow> conns_ok (conns_of s)"
  using sys_invD(3) by (auto simp: conns_ok_def conns_of_def proc_ok_def split: if_splits)

lemma set_dests: "set (dests ts r) = {d. \<exists>k \<in> set ts. connectors r k = Some d}"
  by (induction ts) (auto split: option.splits)

lemma distinct_dests:
  assumes "distinct ts" and "\<And>k k' d. connectors r k = Some d \<Longrightarrow> connectors r k' = Some d \<Longrightarrow> k = k'"
  shows "distinct (dests ts r)"
  using assms(1) by (induction ts) (auto simp: set_dests split: option.split dest: assms(2))

text \<open>Who gets a message from \<open>c\<close> to \<open>tos\<close>: its open connections with room in the queue.\<close>

definition receives :: "'f sys \<Rightarrow> cid \<Rightarrow> pubkey list \<Rightarrow> cid \<Rightarrow> bool" where
  "receives s c tos d \<longleftrightarrow>
     (\<exists>k \<in> set tos. k \<noteq> key_of s c \<and> connectors (app s) k = Some d) \<and>
     \<not> isClosed (ws (procs s ! d)) \<and> length (outChan (ws (procs s ! d))) < outCap (ws (procs s ! d))"

lemma handle_total:
  assumes inv: "sys_inv s" and c: "c < length (procs s)" and pc: "rpc (procs s ! c) = RHandle b t"
    and msg: "content_of (memory s) b = Some (build_message (key_of s c) tos payload)"
    and fo: "frame_ok (int MaxMessageSize) tos payload"
  shows "\<exists>h' S' r'. HandleMessage push_in (key_of s c) \<lparr>RecvTime = t, Buf = Some b\<rparr> (memory s) (conns_of s) (app s) =
      Inr (h', S', r') \<and>
    queued_in S' = (\<lambda>d. queued_in (conns_of s) d @ (if d < length (procs s) \<and> receives s c tos d
      then [\<lparr>RecvTime = t, Buf = Some b\<rparr>] else [])) \<and>
    ((\<exists>d. receives s c tos d) \<longrightarrow>
      content_of h' b = Some (build_message (key_of s c) (replicate (length tos) zero_key) payload))"
proof -
  note i = sys_invD [OF inv]
  let ?k = "key_of s c" and ?m = "\<lparr>RecvTime = t, Buf = Some b\<rparr>" and ?S = "conns_of s"
  let ?msg = "build_message ?k tos payload"
  define ts where "ts = targets_of ?msg ?k"
  note ok = frame_ok_parts [OF fo i(4) [OF c]]
  have "length tos \<le> MaxTargetsPerMessage" "distinct tos" using fo by (simp_all add: frame_ok_def)
  then have ts: "ts = filter (\<lambda>id. id \<noteq> ?k) tos" "distinct ts" by (simp_all add: ts_def targets_of_build [OF ok])
  let ?ds = "dests ts (app s)"
  have reg: "connectors (app s) k = Some d \<Longrightarrow> d < length (procs s) \<and> key_of s d = k" for k d by (rule i(5))
  have "distinct ?ds" by (rule distinct_dests [OF ts(2)]) (use reg in blast)
  moreover have "\<forall>d \<in> set ?ds. known_in ?S d" using reg by (auto simp: set_dests known_in_def conns_of_def)
  ultimately obtain S' where S': "push_all push_in ?m ?ds ?S = Inr (length (filter (takes ?S) ?ds), S')"
    "queued_in S' = (\<lambda>d. queued_in ?S d @ (if d \<in> set ?ds \<and> takes ?S d then [?m] else []))"
    using push_all_queues [OF _ conns_of_ok [OF inv]] by blast
  have rec: "d \<in> set ?ds \<and> takes ?S d \<longleftrightarrow> receives s c tos d" if "d < length (procs s)" for d
    using that by (auto simp: receives_def set_dests ts takes_def conns_of_def)
  have pos: "0 < weight b (procs s ! c)" by (rule weight_reader) (simp add: pc)
  note own = held_owner [OF i(1) c pos]
  have bnd: "int (owners b (procs s)) + int MaxTargetsPerMessage \<le> 2147483647"
    using mem_invD(5) [OF i(1) c, of b] pc by (simp add: MaxTargetsPerMessage_def)
  have "Buf ?m = Some b" "0 < int (owners b (procs s))" using own(3) by simp_all
  from HandleMessage_ok [OF this(1) mem_invD(1) [OF i(1)] own(2) this(2) bnd msg ts_def S'(1)]
  obtain h' S2 r' where hm: "HandleMessage push_in ?k ?m (memory s) ?S (app s) = Inr (h', S2, r')"
    and S2: "S2 = S' \<or> ts = [] \<and> S2 = ?S" and C: "ts \<noteq> [] \<longrightarrow> content_of h' b = Some (ZeroToIDs ?msg)"
    by (elim disjE conjE exE) simp_all
  have "queued_in S2 = (\<lambda>d. queued_in ?S d @ (if d < length (procs s) \<and> receives s c tos d then [?m] else []))"
  proof
    fix d
    have "(d \<in> set ?ds \<and> takes ?S d) = (d < length (procs s) \<and> receives s c tos d)"
      using rec [of d] by (cases "d < length (procs s)") (auto simp: takes_def conns_of_def)
    then show "queued_in S2 d = queued_in ?S d @ (if d < length (procs s) \<and> receives s c tos d then [?m] else [])"
      using S2 S'(2) by auto
  qed
  moreover have "content_of h' b = Some (build_message ?k (replicate (length tos) zero_key) payload)"
    if "\<exists>d. receives s c tos d"
  proof -
    from that have "ts \<noteq> []" by (auto simp: receives_def ts filter_empty_conv)
    with C show ?thesis by (simp add: ZeroToIDs_build [OF ok])
  qed
  ultimately show ?thesis using hm by blast
qed

lemma handle_queues:
  assumes inv: "sys_inv s" and c: "c < length (procs s)" and pc: "rpc (procs s ! c) = RHandle b t"
    and msg: "content_of (memory s) b = Some (build_message (key_of s c) tos payload)"
    and fo: "frame_ok (int MaxMessageSize) tos payload"
  shows "\<exists>s'. handler_runs read malloc c s s' \<and> rpc (procs s' ! c) = RRelease b \<and> length (procs s') = length (procs s) \<and>
    accepted s' = accepted s \<and> written s' = written s \<and> map wpc (procs s') = map wpc (procs s) \<and>
    (\<forall>d < length (procs s). outChan (ws (procs s' ! d)) = outChan (ws (procs s ! d)) @
       (if receives s c tos d then [\<lparr>RecvTime = t, Buf = Some b\<rparr>] else [])) \<and>
    ((\<exists>d. receives s c tos d) \<longrightarrow>
      content_of (memory s') b = Some (build_message (key_of s c) (replicate (length tos) zero_key) payload))"
    (is "\<exists>s'. ?case_of s'")
proof -
  let ?m = "\<lparr>RecvTime = t, Buf = Some b\<rparr>"
  obtain h' S2 r' where hm: "HandleMessage push_in (key_of s c) ?m (memory s) (conns_of s) (app s) = Inr (h', S2, r')"
    and q: "queued_in S2 = (\<lambda>d. queued_in (conns_of s) d @ (if d < length (procs s) \<and> receives s c tos d then [?m] else []))"
    and C: "(\<exists>d. receives s c tos d) \<longrightarrow>
      content_of h' b = Some (build_message (key_of s c) (replicate (length tos) zero_key) payload)"
    using handle_total [OF inv c pc msg fo] by blast
  obtain s' where s': "handler_runs read malloc c s s'" "rpc (procs s' ! c) = RRelease b" "memory s' = h'"
    "conns_of s' = S2" "others_same c s s'"
    using handle_steps [OF c pc hm] by blast
  note l = others_same_length [OF s'(5)]
  have "outChan (ws (procs s' ! d)) = outChan (ws (procs s ! d)) @ (if receives s c tos d then [?m] else [])"
    if d: "d < length (procs s)" for d
    using fun_cong [OF q, of d] d l by (simp add: queued_in_def conns_of_def flip: s'(4))
  then have "?case_of s'" using s'(1,2,3,5) l C by (simp add: others_same_def del: all_simps if_split)
  then show ?thesis by blast
qed

text \<open>The handler gives its own reference up; the queues keep theirs.\<close>

lemma owners_reader_queue:
  assumes "c < length ps" and "reader_buf (rpc (ps ! c)) = Some b" and "d < length ps"
    and "0 < held b (outChan (ws (ps ! d)))"
  shows "1 < owners b ps"
proof (cases "c = d")
  case True
  have "0 < rhold b (rpc (ps ! c))" using assms(2) by (cases "rpc (ps ! c)") (simp_all add: rhold_def)
  then have "1 < weight b (ps ! c)" using assms(4) True by (simp add: weight_def)
  then show ?thesis using owners_ge [OF assms(1), of b] by simp
next
  case False
  have "0 < weight b (ps ! c)" "0 < weight b (ps ! d)"
    using weight_reader [OF assms(2)] assms(4) by (simp_all add: weight_def)
  then show ?thesis using owners_ge2 [OF assms(1,3) False, of b] by simp
qed

lemma handled_run:
  assumes reach: "reachable read malloc (init_sys g F) s" and c: "c < length (procs s)" and pc: "rpc (procs s ! c) = RHandle b t"
    and env: "calm_reader read stream ending" "malloc_ok malloc"
    and msg: "content_of (memory s) b = Some (build_message (key_of s c) tos payload)"
    and fo: "frame_ok (int MaxMessageSize) tos payload"
  shows "\<exists>s'. handler_runs read malloc c s s' \<and> rpc (procs s' ! c) = RReading \<and> accepted s' = accepted s \<and>
    written s' = written s \<and> map wpc (procs s') = map wpc (procs s) \<and>
    (\<forall>d < length (procs s). outChan (ws (procs s' ! d)) = outChan (ws (procs s ! d)) @
       (if receives s c tos d then [\<lparr>RecvTime = t, Buf = Some b\<rparr>] else [])) \<and>
    ((\<exists>d. receives s c tos d) \<longrightarrow>
      content_of (memory s') b = Some (build_message (key_of s c) (replicate (length tos) zero_key) payload))"
proof -
  have inv: "sys_inv s" by (rule reachable_inv [OF reach env])
  obtain s2 where s2: "handler_runs read malloc c s s2" "rpc (procs s2 ! c) = RRelease b"
    "length (procs s2) = length (procs s)" "accepted s2 = accepted s" "written s2 = written s"
    "map wpc (procs s2) = map wpc (procs s)"
    "\<forall>d < length (procs s). outChan (ws (procs s2 ! d)) = outChan (ws (procs s ! d)) @
      (if receives s c tos d then [\<lparr>RecvTime = t, Buf = Some b\<rparr>] else [])"
    "(\<exists>d. receives s c tos d) \<longrightarrow>
      content_of (memory s2) b = Some (build_message (key_of s c) (replicate (length tos) zero_key) payload)"
    using handle_queues [OF inv c pc msg fo] by blast
  have c2: "c < length (procs s2)" using s2(3) c by simp
  have inv2: "sys_inv s2" by (rule reachable_inv [OF handler_runs_reachable [OF reach s2(1)] env])
  obtain s3 where s3: "release_step c b RReading s2 = Inr s3"
    "content_of (memory s3) = (if owners b (procs s2) = 1 then (content_of (memory s2))(b \<mapsto> []) else content_of (memory s2))"
    using release_step_inv [OF inv2 c2, of b undefined undefined undefined RReading] s2(2) by auto
  then have p3: "procs s3 = (procs s2)[c := (procs s2 ! c)\<lparr>rpc := RReading\<rparr>]"
    "accepted s3 = accepted s2" "written s3 = written s2"
    by (auto simp: release_step_def bind_res_eq_Inr)
  have ws3: "ws (procs s3 ! d) = ws (procs s2 ! d)" for d using c2 by (cases "d = c") (simp_all add: p3)
  have "reader_step c s2 = Some (Inr s3)" using s2(2) s3(1) by (simp add: reader_step_def)
  from handler_runs_trans [OF s2(1) handler_runs_step [OF c2 this handler_runs_refl]]
  have run: "handler_runs read malloc c s s3" .
  have "content_of (memory s3) b = content_of (memory s2) b" if d: "receives s c tos d" for d
  proof -
    have dl: "d < length (procs s)" using d sys_invD(5) [OF inv] by (auto simp: receives_def)
    then have "0 < held b (outChan (ws (procs s2 ! d)))" using s2(7) d by simp
    then have "1 < owners b (procs s2)" using owners_reader_queue [OF c2, of b d] s2(2,3) dl by simp
    then show ?thesis by (simp add: s3(2))
  qed
  moreover have "rpc (procs s3 ! c) = RReading" "map wpc (procs s3) = map wpc (procs s2)"
    using c2 by (simp_all add: p3 map_wpc_update)
  ultimately show ?thesis using s2 run by (intro exI [of _ s3]) (auto simp: p3(2,3) ws3)
qed

lemma deliver_run:
  assumes reach: "reachable read malloc (init_sys g F) s" and c: "c < length (procs s)" and pc: "rpc (procs s ! c) = RReading"
    and env: "calm_reader read stream ending" "malloc_ok malloc" "\<forall>m n. malloc m n \<noteq> None"
    and v: "decode_frame (int MaxMessageSize) (stream r) (ending r) = Inr (tos, payload)"
  shows "\<exists>n s'. exec_all read malloc (ReadFrame c r t # replicate n (Reader c)) s = Some (Inr s') \<and>
    rpc (procs s' ! c) = RReading \<and> accepted s' = accepted s @ [(c, tos, payload)] \<and> written s' = written s \<and>
    map wpc (procs s') = map wpc (procs s) \<and>
    (\<forall>d < length (procs s). outChan (ws (procs s' ! d)) = outChan (ws (procs s ! d)) @
       (if receives s c tos d then [\<lparr>RecvTime = t, Buf = Some (next_buf (memory s))\<rparr>] else [])) \<and>
    ((\<exists>d. receives s c tos d) \<longrightarrow> content_of (memory s') (next_buf (memory s)) =
      Some (build_message (key_of s c) (replicate (length tos) zero_key) payload))"
proof -
  let ?b = "next_buf (memory s)"
  have inv: "sys_inv s" by (rule reachable_inv [OF reach env(1,2)])
  obtain s1 where s1: "exec read malloc (ReadFrame c r t) s = Some (Inr s1)"
    "procs s1 = (procs s)[c := (procs s ! c)\<lparr>rpc := RHandle ?b t\<rparr>]"
    "accepted s1 = accepted s @ [(c, tos, payload)]" "written s1 = written s" "app s1 = app s"
    "content_of (memory s1) ?b = Some (build_message (key_of s c) tos payload)"
    using read_frame_accepts [OF inv c pc env v] by blast
  have ws1: "ws (procs s1 ! d) = ws (procs s ! d)" for d using c by (cases "d = c") (simp_all add: s1(2))
  have key1: "key_of s1 = key_of s" by (simp add: key_of_def ws1 fun_eq_iff)
  have rec1: "receives s1 c tos d = receives s c tos d" for d by (simp add: receives_def ws1 key1 s1(5))
  have c1: "c < length (procs s1)" "rpc (procs s1 ! c) = RHandle ?b t" using c by (simp_all add: s1(2))
  have fo: "frame_ok (int MaxMessageSize) tos payload" using decode_frame_InrD [OF v] by simp
  have m1: "map wpc (procs s1) = map wpc (procs s)" "length (procs s1) = length (procs s)"
    by (simp_all add: s1(2) map_wpc_update c)
  have "content_of (memory s1) ?b = Some (build_message (key_of s1 c) tos payload)" by (simp add: key1 s1(6))
  from handled_run [OF reachable.step [OF reach s1(1)] c1 env(1,2) this fo]
  obtain n s' where s': "exec_all read malloc (replicate n (Reader c)) s1 = Some (Inr s')"
    "rpc (procs s' ! c) = RReading" "accepted s' = accepted s1" "written s' = written s1"
    "map wpc (procs s') = map wpc (procs s1)"
    "\<forall>d < length (procs s). outChan (ws (procs s' ! d)) = outChan (ws (procs s ! d)) @
      (if receives s c tos d then [\<lparr>RecvTime = t, Buf = Some ?b\<rparr>] else [])"
    "(\<exists>d. receives s c tos d) \<longrightarrow>
      content_of (memory s') ?b = Some (build_message (key_of s c) (replicate (length tos) zero_key) payload)"
    unfolding handler_runs_def rec1 key1 ws1 m1 by blast
  have "exec_all read malloc (ReadFrame c r t # replicate n (Reader c)) s = Some (Inr s')" using s1(1) s'(1) by simp
  with s' s1(3,4) m1(1) show ?thesis by (intro exI [of _ n] exI [of _ s']) simp
qed

text \<open>As one recipient sees it.\<close>

lemma deliver_run_to:
  assumes "reachable read malloc (init_sys g F) s" and "c < length (procs s)" and "rpc (procs s ! c) = RReading"
    and "calm_reader read stream ending" and "malloc_ok malloc" and "\<forall>m n. malloc m n \<noteq> None"
    and "decode_frame (int MaxMessageSize) (stream r) (ending r) = Inr (tos, payload)"
    and "receives s c tos d" and "d < length (procs s)"
  obtains n s' where "exec_all read malloc (ReadFrame c r t # replicate n (Reader c)) s = Some (Inr s')"
    "written s' = written s" "map wpc (procs s') = map wpc (procs s)"
    "outChan (ws (procs s' ! d)) = outChan (ws (procs s ! d)) @ [\<lparr>RecvTime = t, Buf = Some (next_buf (memory s))\<rparr>]"
    "content_of (memory s') (next_buf (memory s)) =
      Some (build_message (key_of s c) (replicate (length tos) zero_key) payload)"
  using deliver_run [OF assms(1-7), of t] assms(8,9) by auto

text \<open>Which actions close the application.\<close>

lemma open_run:
  assumes "exec_all read malloc as s = Some (Inr s')" and "CloseApp \<notin> set as" and "\<not> latencyChClosed (app s)"
    and "sys_inv s" and env: "calm_reader read stream ending" "malloc_ok malloc"
  shows "\<not> latencyChClosed (app s')"
  using assms(1-4)
proof (induction as arbitrary: s)
  case (Cons a as)
  then obtain s1 where s1: "exec read malloc a s = Some (Inr s1)" "exec_all read malloc as s1 = Some (Inr s')"
    by (auto simp: bind_run_def split: option.splits sum.splits)
  with exec_inv [OF Cons.prems(4) env s1(1)] Cons.prems Cons.IH show ?case by auto
qed simp

end
