(* ===== verification/Relay_Progress.thy ===== *)
theory Relay_Progress
  imports Relay_Runs "HOL-Library.Sublist"
begin

section \<open>Progress of the write pumps, and what the connection counter counts\<close>

text \<open>
  A pump left to run writes its connection's queue out in order; once its connection is closed it
  ends after a bounded number of its own steps, whatever the other goroutines do. The counter behind
  \<open>Count\<close> is the size of the registry, up to the handlers that stand between changing one and the
  other.
\<close>

subsection \<open>One message through the pump\<close>

definition pump_cycle :: "cid \<Rightarrow> 64 word \<Rightarrow> 'r action list" where
  "pump_cycle d l = [Writer d, WriteDone d True, Writer d, Writer d, Latency d l]"

definition bytes_of :: "'f sys \<Rightarrow> out_message \<Rightarrow> bytes" where
  "bytes_of s m = (case Msg m (memory s) of Inr bs \<Rightarrow> bs | Inl e \<Rightarrow> [])"

lemma bytes_of_cong:
  "(\<And>b. Buf m = Some b \<Longrightarrow> content_of (memory s') b = content_of (memory s) b) \<Longrightarrow> bytes_of s' m = bytes_of s m"
  by (cases "Buf m")
     (auto simp: bytes_of_def Msg_def Bytes_def content_of_def  split: option.splits)

lemma bytes_of_eq: "Buf m = Some b \<Longrightarrow> content_of (memory s) b = Some bs \<Longrightarrow> bytes_of s m = bs"
  by (simp add: bytes_of_def Msg_def Bytes_eq)

text \<open>What is still queued when a pump lets go of a message stays as it is.\<close>

lemma release_keeps_queue:
  assumes inv: "mem_inv h ps" and d: "d < length ps" and hand: "in_hand (wpc (ps ! d)) = [m]" and b: "Buf m = Some b"
    and pc': "in_hand pc' = []" and m': "m' \<in> set (outChan (ws (ps ! d)))" "Buf m' = Some b'"
    and content: "content_of h' = (if owners b ps = 1 then (content_of h)(b \<mapsto> []) else content_of h)"
  shows "content_of h' b' = content_of h b'"
proof (rule released_live [OF inv d _ _ content])
  let ?p = "(ps ! d)\<lparr>wpc := pc'\<rparr>"
  show "0 < weight b (ps ! d)" "weight b ?p = weight b (ps ! d) - 1" by (simp_all add: weight_def hand pc' b)
  have "0 < weight b' ?p" using m' by (auto simp: weight_def held_def filter_empty_conv)
  then show "0 < owners b' (ps[d := ?p])" using owners_ge [of d "ps[d := ?p]" b'] d by simp
qed

text \<open>Up to the latency report: receive, write, release, count.\<close>

lemma pump_writes_next:
  assumes inv: "sys_inv s" and d: "d < length (procs s)" and pc: "wpc (procs s ! d) = WRecv"
    and q: "outChan (ws (procs s ! d)) = m # q" and b: "Buf m = Some b"
  shows "\<exists>s'. exec_all read malloc [Writer d, WriteDone d True, Writer d, Writer d] s = Some (Inr s') \<and> sys_inv s' \<and>
    length (procs s') = length (procs s) \<and> wpc (procs s' ! d) = WLatency m \<and> outChan (ws (procs s' ! d)) = q \<and>
    latencyChClosed (app s') = latencyChClosed (app s) \<and> written s' = written s @ [(d, bytes_of s m)] \<and>
    (\<forall>m' \<in> set q. bytes_of s' m' = bytes_of s m')"
proof -
  let ?w = "(ws (procs s ! d))\<lparr>outChan := q\<rparr>"
  have "0 < weight b (procs s ! d)" by (simp add: weight_def held_def q b)
  then obtain bs where bs: "content_of (memory s) b = Some bs"
    using held_content [OF sys_invD(1) [OF inv] d] by blast
  let ?s1 = "set_wpc d (WWrite m) (set_ws d ?w s)"
  have s1: "writer_step d s = Some (Inr ?s1)" by (simp add: writer_step_def writer_recv_def recv_def pc q)
  have i1: "sys_inv ?s1" using writer_step_inv [OF inv d s1] by simp
  let ?s2 = "set_wpc d (WRelease m True) (log_write d True bs ?s1)"
  have s2: "write_done d True ?s1 = Some (Inr ?s2)" using d b bs by (simp add: write_done_def Msg_def Bytes_eq)
  have d2: "d < length (procs ?s1)" "d < length (procs ?s2)" using d by simp_all
  have i2: "sys_inv ?s2" using write_done_inv [OF i1 d2(1) s2] by simp
  have h2: "in_hand (wpc (procs ?s2 ! d)) = [m]" using d by simp
  have ok2: "proc_ok ((procs ?s2 ! d)\<lparr>wpc := WSuccess m\<rparr>)"
    using sys_invD(3) [OF i2 d2(2)] d by (auto simp: proc_ok_def)
  obtain s3 where s3: "writer_release d m (WSuccess m) ?s2 = Inr s3" and i3: "sys_inv s3"
    and c3: "content_of (memory s3) = (if owners b (procs ?s2) = 1 then (content_of (memory ?s2))(b \<mapsto> [])
      else content_of (memory ?s2))"
    using drop_ref_inv [OF i2 d2(2) h2 _ ok2] b by auto
  have p3: "procs s3 = (procs ?s2)[d := (procs ?s2 ! d)\<lparr>wpc := WSuccess m\<rparr>]" "app s3 = app s"
    "written s3 = written s @ [(d, bs)]"
    using s3 by (auto simp: writer_release_def bind_res_eq_Inr)
  have d3: "d < length (procs s3)" "wpc (procs s3 ! d) = WSuccess m" using d by (simp_all add: p3(1))
  let ?s4 = "set_wpc d (WLatency m) (s3\<lparr>app := IncrementDeliverySuccess (app s3)\<rparr>)"
  have s4: "writer_step d s3 = Some (Inr ?s4)" by (simp add: writer_step_def d3(2))
  have "bytes_of ?s4 m' = bytes_of s m'" if "m' \<in> set q" for m'
  proof (rule bytes_of_cong)
    fix b' assume "Buf m' = Some b'"
    with that d release_keeps_queue [OF sys_invD(1) [OF i2] d2(2) h2 b, of "WSuccess m" m' b', OF _ _ _ c3]
    show "content_of (memory ?s4) b' = content_of (memory s) b'" by simp
  qed
  moreover have "writer_step d ?s2 = Some (Inr s3)" using d s3 by (simp add: writer_step_def)
  moreover have "sys_inv ?s4" using writer_step_inv [OF i3 d3(1) s4] by simp
  ultimately show ?thesis
    using d d2 d3 s1 s2 s4 p3 bytes_of_eq [OF b bs] by (intro exI [of _ ?s4]) simp
qed

lemma pump_cycle_runs:
  assumes inv: "sys_inv s" and d: "d < length (procs s)" and pc: "wpc (procs s ! d) = WRecv"
    and q: "outChan (ws (procs s ! d)) = m # q" and b: "Buf m = Some b" and open_ch: "\<not> latencyChClosed (app s)"
  shows "\<exists>s'. exec_all read malloc (pump_cycle d l) s = Some (Inr s') \<and> sys_inv s' \<and>
    length (procs s') = length (procs s) \<and> wpc (procs s' ! d) = WRecv \<and> outChan (ws (procs s' ! d)) = q \<and>
    \<not> latencyChClosed (app s') \<and> written s' = written s @ [(d, bytes_of s m)] \<and>
    (\<forall>m' \<in> set q. bytes_of s' m' = bytes_of s m')"
proof -
  obtain s4 where s4: "exec_all read malloc [Writer d, WriteDone d True, Writer d, Writer d] s = Some (Inr s4)"
    "sys_inv s4" "length (procs s4) = length (procs s)" "wpc (procs s4 ! d) = WLatency m"
    "outChan (ws (procs s4 ! d)) = q" "\<not> latencyChClosed (app s4)" "written s4 = written s @ [(d, bytes_of s m)]"
    "\<forall>m' \<in> set q. bytes_of s4 m' = bytes_of s m'"
    using pump_writes_next [OF inv d pc q b, of read malloc] open_ch by auto
  obtain a where a: "RecordLatency l (app s4) = Inr a" "\<not> latencyChClosed a"
    using s4(6) by (cases "length (latencyCh (app s4)) < latencyChCap (app s4)") (auto simp: RecordLatency_def Let_def)
  let ?s5 = "set_wpc d WRecv (s4\<lparr>app := a\<rparr>)"
  have d4: "d < length (procs s4)" using d s4(3) by simp
  have s5: "record_latency d l s4 = Some (Inr ?s5)" using s4(4) a by (simp add: record_latency_def)
  have i5: "sys_inv ?s5" using record_latency_inv [OF s4(2) d4 s5] by auto
  have "exec_all read malloc (pump_cycle d l) s = Some (Inr ?s5)"
    using exec_all_append [of read malloc "[Writer d, WriteDone d True, Writer d, Writer d]" "[Latency d l]" s]
      s4(1) s5 d4 by (simp add: pump_cycle_def)
  moreover have "bytes_of ?s5 m' = bytes_of s4 m'" for m' by (rule bytes_of_cong) simp
  ultimately show ?thesis using i5 d4 s4 a(2) by (intro exI [of _ ?s5]) simp
qed

text \<open>The whole queue.\<close>

lemma pump_empties_queue:
  assumes "sys_inv s" and "d < length (procs s)" and "wpc (procs s ! d) = WRecv"
    and "\<forall>m \<in> set (outChan (ws (procs s ! d))). Buf m \<noteq> None" and "\<not> latencyChClosed (app s)"
  shows "\<exists>s'. exec_all read malloc (concat (replicate (length (outChan (ws (procs s ! d)))) (pump_cycle d l))) s
      = Some (Inr s') \<and>
    outChan (ws (procs s' ! d)) = [] \<and> wpc (procs s' ! d) = WRecv \<and>
    written s' = written s @ map (\<lambda>m. (d, bytes_of s m)) (outChan (ws (procs s ! d)))"
  using assms
proof (induction "outChan (ws (procs s ! d))" arbitrary: s)
  case Nil
  then show ?case by (intro exI [of _ s]) simp
next
  case (Cons m q)
  then obtain b where b: "Buf m = Some b" by (metis list.set_intros(1) not_None_eq)
  obtain s1 where s1: "exec_all read malloc (pump_cycle d l) s = Some (Inr s1)" "sys_inv s1"
    "length (procs s1) = length (procs s)" "wpc (procs s1 ! d) = WRecv" "outChan (ws (procs s1 ! d)) = q"
    "\<not> latencyChClosed (app s1)" "written s1 = written s @ [(d, bytes_of s m)]"
    "\<forall>m' \<in> set q. bytes_of s1 m' = bytes_of s m'"
    using pump_cycle_runs [OF Cons.prems(1-3) Cons.hyps(2) [symmetric] b Cons.prems(5)] by blast
  have "d < length (procs s1)" "\<forall>m \<in> set (outChan (ws (procs s1 ! d))). Buf m \<noteq> None"
    using s1(3,5) Cons.prems(2,4) Cons.hyps(2) by (simp, metis list.set_intros(2))
  from Cons.hyps(1) [OF s1(5) [symmetric] s1(2) this(1) s1(4) this(2) s1(6)] obtain s' where
    s': "exec_all read malloc (concat (replicate (length q) (pump_cycle d l))) s1 = Some (Inr s')"
    "outChan (ws (procs s' ! d)) = []" "wpc (procs s' ! d) = WRecv"
    "written s' = written s1 @ map (\<lambda>m. (d, bytes_of s1 m)) q"
    unfolding s1(5) by blast
  have "exec_all read malloc (concat (replicate (length (m # q)) (pump_cycle d l))) s = Some (Inr s')"
    using s1(1) s'(1) by (simp add: exec_all_append)
  then show ?case
    using s' s1(7,8) by (intro exI [of _ s']) (simp flip: Cons.hyps(2))
qed

subsection \<open>A pump in the middle of its work\<close>

text \<open>How many steps a pump can still take once its queue is closed.\<close>

fun pump_stage :: "wpc \<Rightarrow> nat" where
  "pump_stage WNone = 2"
| "pump_stage WRecv = 1"
| "pump_stage (WWrite m) = 5"
| "pump_stage (WRelease m ok) = 4"
| "pump_stage (WSuccess m) = 3"
| "pump_stage (WLatency m) = 2"
| "pump_stage WFail = 3"
| "pump_stage WClose = 2"
| "pump_stage WDrain = 1"
| "pump_stage (WDrainRelease m) = 2"
| "pump_stage WDone = 0"

text \<open>A pump that has not failed, and its steps and the events it waits for as long as nothing fails.\<close>

fun pump_running :: "wpc \<Rightarrow> bool" where
  "pump_running WRecv = True"
| "pump_running (WWrite m) = True"
| "pump_running (WRelease m ok) = ok"
| "pump_running (WSuccess m) = True"
| "pump_running (WLatency m) = True"
| "pump_running _ = False"

fun pump_works :: "cid \<Rightarrow> 'r action \<Rightarrow> bool" where
  "pump_works d (Writer c) = (c = d)"
| "pump_works d (WriteDone c ok) = (c = d \<and> ok)"
| "pump_works d (Latency c l) = (c = d)"
| "pump_works d _ = False"

text \<open>
  A step writes nothing, or one message with success, or one without; \<open>fails\<close> are the last. In a run
  without them the histories \<open>written\<close> and \<open>completed\<close> grow alike.
\<close>

fun fails :: "'r action \<Rightarrow> bool" where
  "fails (WriteDone c ok) = (\<not> ok)"
| "fails _ = False"

lemma pump_works_succeeds: "pump_works d a \<Longrightarrow> \<not> fails a"
  by (cases a) auto

lemma exec_completes:
  assumes "exec read malloc a s = Some (Inr s')"
  shows "\<exists>ws. written s' = written s @ ws \<and> completed s' = completed s @ (if fails a then [] else ws)"
proof (cases a)
  case (Reader c)
  with assms reader_step_keeps [of c s s'] show ?thesis by (auto split: if_splits)
next
  case (Writer c)
  with assms writer_step_keeps [of c s s'] show ?thesis by (auto split: if_splits)
next
  case (WriteDone c ok)
  with assms show ?thesis by (auto simp: write_done_def bind_res_eq_Inr split: if_splits wpc.splits)
next
  case (Latency c l)
  with assms show ?thesis by (auto simp: record_latency_def bind_res_eq_Inr split: if_splits wpc.splits)
next
  case (ReadFrame c r t)
  with assms show ?thesis
    by (auto simp: read_frame_def bind_run_def bind_res_eq_Inr split: if_splits option.splits sum.splits)
qed (use assms in \<open>auto split: if_splits\<close>)

lemma exec_all_completes:
  assumes "exec_all read malloc as s = Some (Inr s')" and "list_all (\<lambda>a. \<not> fails a) as"
  shows "\<exists>ws. written s' = written s @ ws \<and> completed s' = completed s @ ws"
  using assms
proof (induction as arbitrary: s)
  case (Cons a as)
  from Cons.prems(1) obtain s1 where s1: "exec read malloc a s = Some (Inr s1)" "exec_all read malloc as s1 = Some (Inr s')"
    by (auto simp: bind_run_def split: option.splits sum.splits)
  obtain ws where "written s1 = written s @ ws" "completed s1 = completed s @ ws"
    using exec_completes [OF s1(1)] Cons.prems(2) by auto
  with Cons.IH [OF s1(2)] Cons.prems(2) show ?case by auto
qed simp

lemma completed_written:
  assumes "reachable read malloc (init_sys g F) s"
  shows "subseq (completed s) (written s)"
  using assms
proof (induction rule: reachable.induct)
  case (step s a s')
  from exec_completes [OF step.hyps(2)] step.IH show ?case by (auto intro: list_emb_append_mono)
qed (simp add: init_sys_def)

definition pump_next :: "cid \<Rightarrow> 'f sys \<Rightarrow> 'f sys \<Rightarrow> bool" where
  "pump_next d s s' \<longleftrightarrow>
     sys_inv s' \<and> length (procs s') = length (procs s) \<and> pump_running (wpc (procs s' ! d)) \<and>
     outChan (ws (procs s' ! d)) = outChan (ws (procs s ! d)) \<and> \<not> latencyChClosed (app s') \<and>
     set (in_hand (wpc (procs s' ! d))) \<subseteq> set (in_hand (wpc (procs s ! d))) \<and>
     (\<exists>before. written s' = written s @ before) \<and>
     (\<forall>m \<in> set (outChan (ws (procs s ! d))). bytes_of s' m = bytes_of s m)"

lemma pump_advance:
  assumes inv: "sys_inv s" and d: "d < length (procs s)" and run: "pump_running (wpc (procs s ! d))"
    and busy: "wpc (procs s ! d) \<noteq> WRecv" and bufs: "\<forall>m \<in> set (in_hand (wpc (procs s ! d))). Buf m \<noteq> None"
    and ch: "\<not> latencyChClosed (app s)"
  shows "\<exists>a s'. exec read malloc a s = Some (Inr s') \<and> pump_works d a \<and> pump_next d s s' \<and>
    pump_stage (wpc (procs s' ! d)) < pump_stage (wpc (procs s ! d))"
proof (cases "wpc (procs s ! d)")
  case (WWrite m)
  obtain out where out: "write_done d True s = Some out" using WWrite by (simp add: write_done_def)
  from write_done_inv [OF inv d out] obtain s' where s': "out = Inr s'" "sys_inv s'" "memory s' = memory s" by blast
  moreover obtain msg where "s' = set_wpc d (WRelease m True) (log_write d True msg s)"
    using out s'(1) WWrite by (auto simp: write_done_def bind_res_eq_Inr)
  ultimately show ?thesis using out d WWrite ch bytes_of_cong [of _ s' s]
    by (intro exI [of _ "WriteDone d True"] exI [of _ s']) (simp add: pump_next_def)
next
  case (WRelease m ok)
  then have good: "ok" and h: "in_hand (wpc (procs s ! d)) = [m]" using run by simp_all
  obtain b where b: "Buf m = Some b" using bufs h by auto
  have ok': "proc_ok ((procs s ! d)\<lparr>wpc := WSuccess m\<rparr>)" using sys_invD(3) [OF inv d] WRelease by (auto simp: proc_ok_def)
  obtain s' where s': "writer_release d m (WSuccess m) s = Inr s'" "sys_inv s'"
    "content_of (memory s') = (if owners b (procs s) = 1 then (content_of (memory s))(b \<mapsto> []) else content_of (memory s))"
    using drop_ref_inv [OF inv d h _ ok'] b by auto
  then have p: "procs s' = (procs s)[d := (procs s ! d)\<lparr>wpc := WSuccess m\<rparr>]" "app s' = app s" "written s' = written s"
    by (auto simp: writer_release_def bind_res_eq_Inr)
  have "bytes_of s' m' = bytes_of s m'" if "m' \<in> set (outChan (ws (procs s ! d)))" for m'
  proof (rule bytes_of_cong)
    fix b' assume "Buf m' = Some b'"
    with that release_keeps_queue [OF sys_invD(1) [OF inv] d h b, of "WSuccess m" m' b', OF _ _ _ s'(3)]
    show "content_of (memory s') b' = content_of (memory s) b'" by simp
  qed
  with s' p d WRelease good ch show ?thesis
    by (intro exI [of _ "Writer d"] exI [of _ s']) (simp add: writer_step_def pump_next_def)
next
  case (WSuccess m)
  let ?s = "set_wpc d (WLatency m) (s\<lparr>app := IncrementDeliverySuccess (app s)\<rparr>)"
  have st: "writer_step d s = Some (Inr ?s)" by (simp add: writer_step_def WSuccess)
  then have "sys_inv ?s" using writer_step_inv [OF inv d] by fastforce
  with st WSuccess d ch bytes_of_cong [of _ ?s s] show ?thesis
    by (intro exI [of _ "Writer d"] exI [of _ ?s]) (simp add: pump_next_def)
next
  case (WLatency m)
  obtain a where a: "RecordLatency 0 (app s) = Inr a" "\<not> latencyChClosed a"
    using ch by (cases "length (latencyCh (app s)) < latencyChCap (app s)") (auto simp: RecordLatency_def Let_def)
  let ?s = "set_wpc d WRecv (s\<lparr>app := a\<rparr>)"
  have st: "record_latency d 0 s = Some (Inr ?s)" by (simp add: record_latency_def WLatency a(1))
  then have "sys_inv ?s" using record_latency_inv [OF inv d st] ch by auto
  with st WLatency d a(2) bytes_of_cong [of _ ?s s] show ?thesis
    by (intro exI [of _ "Latency d 0"] exI [of _ ?s]) (simp add: pump_next_def)
qed (use run busy in simp_all)

lemma pump_returns:
  assumes "sys_inv s" and "d < length (procs s)" and "pump_running (wpc (procs s ! d))"
    and "\<forall>m \<in> set (in_hand (wpc (procs s ! d))). Buf m \<noteq> None" and "\<not> latencyChClosed (app s)"
  shows "\<exists>as s'. exec_all read malloc as s = Some (Inr s') \<and> list_all (pump_works d) as \<and> pump_next d s s' \<and>
    wpc (procs s' ! d) = WRecv"
  using assms
proof (induction "pump_stage (wpc (procs s ! d))" arbitrary: s rule: less_induct)
  case less
  show ?case
  proof (cases "wpc (procs s ! d) = WRecv")
    case True
    with less.prems show ?thesis by (intro exI [of _ "[]"] exI [of _ s]) (simp add: pump_next_def)
  next
    case False
    obtain a s1 where s1: "exec read malloc a s = Some (Inr s1)" "pump_works d a" "pump_next d s s1"
      "pump_stage (wpc (procs s1 ! d)) < pump_stage (wpc (procs s ! d))"
      using pump_advance [OF less.prems(1-3) False less.prems(4,5)] by blast
    have "\<exists>as s'. exec_all read malloc as s1 = Some (Inr s') \<and> list_all (pump_works d) as \<and> pump_next d s1 s' \<and>
      wpc (procs s' ! d) = WRecv"
      by (rule less.hyps [OF s1(4)]) (use s1(3) less.prems in \<open>auto simp: pump_next_def\<close>)
    then obtain as' s' where "exec_all read malloc as' s1 = Some (Inr s')" "list_all (pump_works d) as'"
      "pump_next d s1 s'" "wpc (procs s' ! d) = WRecv" by blast
    with s1 show ?thesis by (intro exI [of _ "a # as'"] exI [of _ s']) (fastforce simp: pump_next_def)
  qed
qed

text \<open>From wherever it is in its loop, the pump writes all that is queued.\<close>

lemma pump_serves_queue:
  assumes inv: "sys_inv s" and d: "d < length (procs s)" and run: "pump_running (wpc (procs s ! d))"
    and bufs: "\<forall>m \<in> set (outChan (ws (procs s ! d))) \<union> set (in_hand (wpc (procs s ! d))). Buf m \<noteq> None"
    and ch: "\<not> latencyChClosed (app s)"
  shows "\<exists>as s' before. exec_all read malloc as s = Some (Inr s') \<and> list_all (pump_works d) as \<and>
    written s' = written s @ before @ map (\<lambda>m. (d, bytes_of s m)) (outChan (ws (procs s ! d)))"
proof -
  obtain bs s1 where s1: "exec_all read malloc bs s = Some (Inr s1)" "list_all (pump_works d) bs" "pump_next d s s1"
    "wpc (procs s1 ! d) = WRecv"
    using pump_returns [OF inv d run _ ch, of read malloc] bufs by blast
  obtain before where n1: "sys_inv s1" "d < length (procs s1)" "outChan (ws (procs s1 ! d)) = outChan (ws (procs s ! d))"
    "\<not> latencyChClosed (app s1)" "written s1 = written s @ before"
    "\<forall>m \<in> set (outChan (ws (procs s ! d))). bytes_of s1 m = bytes_of s m"
    using s1(3) d by (auto simp: pump_next_def)
  let ?pump = "concat (replicate (length (outChan (ws (procs s1 ! d)))) (pump_cycle d 0))"
  obtain s' where s': "exec_all read malloc ?pump s1 = Some (Inr s')"
    "written s' = written s1 @ map (\<lambda>m. (d, bytes_of s1 m)) (outChan (ws (procs s1 ! d)))"
    using pump_empties_queue [OF n1(1,2) s1(4) _ n1(4), of read malloc 0] bufs n1(3) by auto
  have "exec_all read malloc (bs @ ?pump) s = Some (Inr s')" using s1(1) s'(1) by (simp add: exec_all_append)
  moreover have "list_all (pump_works d) ?pump" by (auto simp: list_all_iff pump_cycle_def)
  ultimately show ?thesis
    using s1(2) s'(2) n1(3,5,6) by (intro exI [of _ "bs @ ?pump"] exI [of _ s'] exI [of _ before]) simp
qed

subsection \<open>The end of a pump\<close>

fun pump_action :: "cid \<Rightarrow> 'r action \<Rightarrow> bool" where
  "pump_action d (Writer c) = (c = d)"
| "pump_action d (WriteDone c ok) = (c = d)"
| "pump_action d (Latency c l) = (c = d)"
| "pump_action d _ = False"

definition pump_left :: "proc \<Rightarrow> nat" where
  "pump_left p = 5 * length (outChan (ws p)) + pump_stage (wpc p)"

text \<open>A handler's step on a closed connection: nothing is queued, and its pump stays where it is.\<close>

lemma closed_push: "isClosed w \<Longrightarrow> SafePush m w = Inr (ok, w') \<Longrightarrow> w' = w"
  by (simp add: SafePush_def)

lemma closed_close: "isClosed w \<Longrightarrow> Close_conn w = Inr w' \<Longrightarrow> w' = w"
  by (simp add: Close_conn_def)

lemma Close_conn_queue: "Close_conn w = Inr w' \<Longrightarrow> isClosed w' \<and> outChan w' = outChan w"
  by (auto simp: Close_conn_def split: if_splits)

definition pump_same :: "proc \<Rightarrow> proc \<Rightarrow> bool" where
  "pump_same p p' \<longleftrightarrow>
     isClosed (ws p') \<and> outChan (ws p') = outChan (ws p) \<and>
     (wpc p' = wpc p \<or> wpc p = WNone \<and> wpc p' = WRecv)"

lemma pump_same_left: "pump_same p p' \<Longrightarrow> pump_left p' \<le> pump_left p"
  by (auto simp: pump_same_def pump_left_def)

lemma pump_same_refl [simp]: "isClosed (ws p) \<Longrightarrow> pump_same p p"
  by (simp add: pump_same_def)

lemma pump_same_update [simp]:
  "isClosed (ws (ps ! d)) \<Longrightarrow> d < length ps \<Longrightarrow> pump_same (ps ! d) (ps[c := (ps ! c)\<lparr>rpc := pc\<rparr>] ! d)"
  by (cases "c = d") (simp_all add: pump_same_def)

lemma reader_step_pump:
  assumes inv: "sys_inv s" and c: "c < length (procs s)" and d: "d < length (procs s)"
    and cl: "isClosed (ws (procs s ! d))" and step: "reader_step c s = Some (Inr s')"
  shows "pump_same (procs s ! d) (procs s' ! d)"
proof -
  note d [simp] cl [simp]
  show ?thesis
  proof (cases "rpc (procs s ! c)")
    case (RRoute b t ts k)
    with step show ?thesis by (cases ts) (auto simp: reader_step_def)
  next
    case (RHandle b t)
    with step show ?thesis
      by (auto simp: reader_step_def handle_start_def bind_res_eq_Inr split: if_splits)
  next
    case (RRetained b t e ts k)
    then obtain ok w where e: "e < length (procs s)" and p: "SafePush \<lparr>RecvTime = t, Buf = Some b\<rparr> (ws (procs s ! e)) = Inr (ok, w)"
      and s': "s' = set_rpc c (if ok then RRoute b t ts (k + 1) else RUndo b t ts k) (set_ws e w s)"
      using step by (auto simp: reader_step_def push_step_def bind_res_eq_Inr split: if_splits)
    have "ws (procs (set_ws e w s) ! d) = ws (procs s ! d)" "wpc (procs (set_ws e w s) ! d) = wpc (procs s ! d)"
      using e d closed_push [OF _ p] cl by (cases "e = d"; simp)+
    then show ?thesis using s' c d cl by (cases "c = d") (simp_all add: pump_same_def)
  next
    case RStart
    have "proc_ok (procs s ! c)" by (rule sys_invD(3) [OF inv c])
    with RStart have "wpc (procs s ! c) = WNone" by (simp add: proc_ok_def)
    with RStart step c d cl show ?thesis by (cases "c = d") (auto simp: reader_step_def pump_same_def)
  next
    case (RFail code)
    with step c d cl show ?thesis by (cases "c = d") (auto simp: reader_step_def pump_same_def)
  next
    case RClose
    then obtain w where "Close_conn (ws (procs s ! c)) = Inr w" "s' = set_rpc c RDone (set_ws c w s)"
      using step by (auto simp: reader_step_def bind_res_eq_Inr)
    with Close_conn_queue c d cl show ?thesis by (cases "c = d") (auto simp: pump_same_def)
  qed (use step in \<open>auto simp: reader_step_def retain_step_def release_step_def map_Swap_def
      map_CompareAndDelete_def bind_res_eq_Inr split: if_splits\<close>)
qed

text \<open>A step of the pump itself.\<close>

definition pump_moved :: "proc \<Rightarrow> proc \<Rightarrow> bool" where
  "pump_moved p p' \<longleftrightarrow> isClosed (ws p') \<and> wpc p' \<noteq> WNone \<and> pump_left p' < pump_left p"

lemma writer_step_pump:
  assumes d: "d < length (procs s)" and cl: "isClosed (ws (procs s ! d))"
    and step: "writer_step d s = Some (Inr s')"
  shows "pump_moved (procs s ! d) (procs s' ! d)"
proof -
  have recv: "pump_moved (procs s ! d) (procs s' ! d)" if "writer_recv d pc s = Some (Inr s')"
    "\<And>m. pump_stage (pc m) < 6 \<and> pc m \<noteq> WNone" "pump_stage (wpc (procs s ! d)) = 1" for pc
    using that cl d
    by (cases "outChan (ws (procs s ! d))")
       (auto simp: writer_recv_def recv_def pump_moved_def pump_left_def split: if_splits)
  show ?thesis
  proof (cases "wpc (procs s ! d)")
    case WClose
    with step d Close_conn_queue show ?thesis
      by (auto simp: writer_step_def bind_res_eq_Inr pump_moved_def pump_left_def)
  qed (use step d cl recv in \<open>auto simp: writer_step_def writer_release_def bind_res_eq_Inr pump_moved_def
      pump_left_def split: if_splits\<close>)
qed

lemma other_writer_pump:
  assumes "c \<noteq> d" and "isClosed (ws (procs s ! d))"
  shows "writer_step c s = Some (Inr s') \<Longrightarrow> pump_same (procs s ! d) (procs s' ! d)"
    and "write_done c ok s = Some (Inr s') \<Longrightarrow> pump_same (procs s ! d) (procs s' ! d)"
    and "record_latency c l s = Some (Inr s') \<Longrightarrow> pump_same (procs s ! d) (procs s' ! d)"
  using assms
  by (auto simp: pump_same_def writer_step_def writer_recv_def writer_release_def write_done_def
      record_latency_def bind_res_eq_Inr split: wpc.splits received.splits prod.splits)

lemma reader_step_length: "reader_step c s = Some (Inr s') \<Longrightarrow> length (procs s') = length (procs s)"
  by (auto simp: reader_step_def handle_start_def retain_step_def release_step_def push_step_def map_Swap_def
      map_CompareAndDelete_def bind_res_eq_Inr split: if_splits rpc.splits list.splits)

lemma writer_step_length: "writer_step c s = Some (Inr s') \<Longrightarrow> length (procs s') = length (procs s)"
  by (auto simp: writer_step_def writer_recv_def writer_release_def bind_res_eq_Inr
      split: wpc.splits received.splits prod.splits)

lemma exec_pump:
  assumes inv: "sys_inv s" and d: "d < length (procs s)" and cl: "isClosed (ws (procs s ! d))"
    and step: "exec read malloc a s = Some (Inr s')"
  shows "d < length (procs s') \<and>
    (if pump_action d a then pump_moved (procs s ! d) (procs s' ! d) else pump_same (procs s ! d) (procs s' ! d))"
proof (cases a)
  case (ReadFrame c r t)
  with step d cl show ?thesis
    by (auto simp: read_frame_def bind_run_def bind_res_eq_Inr split: if_splits option.splits sum.splits)
next
  case (Reader c)
  with step have c: "c < length (procs s)" and rs: "reader_step c s = Some (Inr s')" by (auto split: if_splits)
  have "length (procs s') = length (procs s)" by (rule reader_step_length [OF rs])
  with Reader reader_step_pump [OF inv c d cl rs] d show ?thesis by simp
next
  case (Writer c)
  with step have w: "writer_step c s = Some (Inr s')" by (auto split: if_splits)
  have "length (procs s') = length (procs s)" by (rule writer_step_length [OF w])
  with Writer w writer_step_pump [OF d cl] other_writer_pump(1) cl d show ?thesis by auto
next
  case (WriteDone c ok)
  with step have w: "write_done c ok s = Some (Inr s')" by (auto split: if_splits)
  then obtain m msg where m: "wpc (procs s ! c) = WWrite m"
    "s' = set_wpc c (WRelease m ok) (log_write c ok msg s)"
    by (auto simp: write_done_def bind_res_eq_Inr split: wpc.splits)
  have "length (procs s') = length (procs s)" by (simp add: m)
  moreover have "pump_moved (procs s ! d) (procs s' ! d)" if "c = d"
    using that m d cl by (simp add: pump_moved_def pump_left_def)
  ultimately show ?thesis using WriteDone w other_writer_pump(2) cl d by auto
next
  case (Latency c l)
  with step have w: "record_latency c l s = Some (Inr s')" by (auto split: if_splits)
  then obtain m x where m: "wpc (procs s ! c) = WLatency m" "s' = set_wpc c WRecv (s\<lparr>app := x\<rparr>)"
    by (auto simp: record_latency_def bind_res_eq_Inr split: wpc.splits)
  have "length (procs s') = length (procs s)" by (simp add: m)
  moreover have "pump_moved (procs s ! d) (procs s' ! d)" if "c = d"
    using that m d cl by (simp add: pump_moved_def pump_left_def)
  ultimately show ?thesis using Latency w other_writer_pump(3) cl d by auto
qed (use step d cl in \<open>auto simp: nth_append split: if_splits\<close>)

lemma exec_all_pump:
  assumes "sys_inv s" and "d < length (procs s)" and "isClosed (ws (procs s ! d))" and "wpc (procs s ! d) \<noteq> WNone"
    and "calm_reader read stream ending" "malloc_ok malloc" and "exec_all read malloc as s = Some (Inr s')"
  shows "sys_inv s' \<and> d < length (procs s') \<and> isClosed (ws (procs s' ! d)) \<and> wpc (procs s' ! d) \<noteq> WNone \<and>
    length (filter (pump_action d) as) + pump_left (procs s' ! d) \<le> pump_left (procs s ! d)"
  using assms(1-4,7)
proof (induction as arbitrary: s)
  case (Cons a as)
  obtain s1 where s1: "exec read malloc a s = Some (Inr s1)" "exec_all read malloc as s1 = Some (Inr s')"
    using Cons.prems(5) by (auto simp: bind_run_def split: option.splits sum.splits)
  have i1: "sys_inv s1" using exec_inv [OF Cons.prems(1) assms(5,6) s1(1)] by auto
  note p = exec_pump [OF Cons.prems(1-3) s1(1)]
  have cl: "isClosed (ws (procs s1 ! d))" "wpc (procs s1 ! d) \<noteq> WNone"
    using p Cons.prems(4) by (auto simp: pump_moved_def pump_same_def split: if_splits)
  have "pump_left (procs s1 ! d) + (if pump_action d a then 1 else 0) \<le> pump_left (procs s ! d)"
    using p pump_same_left by (auto simp: pump_moved_def split: if_splits)
  then show ?case using Cons.IH [OF i1 conjunct1 [OF p] cl s1(2)] by auto
qed simp

text \<open>A closed connection's pump never waits.\<close>

lemma pump_enabled:
  assumes inv: "sys_inv s" and d: "d < length (procs s)" and cl: "isClosed (ws (procs s ! d))"
    and pc: "wpc (procs s ! d) \<noteq> WNone" "wpc (procs s ! d) \<noteq> WDone" and open_ch: "\<not> latencyChClosed (app s)"
  shows "\<exists>a s'. pump_action d a \<and> exec read malloc a s = Some (Inr s') \<and> \<not> latencyChClosed (app s')"
proof -
  have ok: "proc_ok (procs s ! d)" by (rule sys_invD(3) [OF inv d])
  then have ch: "chanClosed (ws (procs s ! d))" using cl by (simp add: proc_ok_def conn_ok_def)
  have writer: ?thesis if w: "writer_step d s \<noteq> None"
  proof -
    obtain out where out: "writer_step d s = Some out" using w by blast
    then obtain s' where "writer_step d s = Some (Inr s')" using writer_step_inv [OF inv d out] by auto
    then show ?thesis using d open_ch closed_writer_step
      by (intro exI [of _ "Writer d"] exI [of _ s']) auto
  qed
  have "writer_step d s \<noteq> None \<or> (\<exists>m. wpc (procs s ! d) = WWrite m) \<or> (\<exists>m. wpc (procs s ! d) = WLatency m)"
    using pc ch by (cases "wpc (procs s ! d)") (auto simp: writer_step_def writer_recv_def recv_def split: list.splits)
  then consider "writer_step d s \<noteq> None" | m where "wpc (procs s ! d) = WWrite m"
    | m where "wpc (procs s ! d) = WLatency m" by blast
  then show ?thesis
  proof cases
    case 1
    then show ?thesis by (rule writer)
  next
    case (2 m)
    then obtain out where out: "write_done d True s = Some out" by (simp add: write_done_def)
    then obtain s' where "write_done d True s = Some (Inr s')" using write_done_inv [OF inv d out] by auto
    then show ?thesis using d open_ch closed_write_done
      by (intro exI [of _ "WriteDone d True"] exI [of _ s']) auto
  next
    case (3 m)
    then obtain out where out: "record_latency d 0 s = Some out" by (simp add: record_latency_def)
    then show ?thesis using record_latency_inv [OF inv d out] d open_ch
      by (intro exI [of _ "Latency d 0"]) auto
  qed
qed

lemma pump_ends:
  assumes "sys_inv s" and "d < length (procs s)" and "isClosed (ws (procs s ! d))" and "wpc (procs s ! d) \<noteq> WNone"
    and "\<not> latencyChClosed (app s)" and env: "calm_reader read stream ending" "malloc_ok malloc"
  shows "\<exists>bs s'. list_all (pump_action d) bs \<and> length bs \<le> pump_left (procs s ! d) \<and>
    exec_all read malloc bs s = Some (Inr s') \<and> wpc (procs s' ! d) = WDone"
  using assms(1-5)
proof (induction "pump_left (procs s ! d)" arbitrary: s rule: less_induct)
  case less
  show ?case
  proof (cases "wpc (procs s ! d) = WDone")
    case True
    then show ?thesis by (intro exI [of _ "[]"] exI [of _ s]) simp
  next
    case False
    obtain a s1 where a: "pump_action d a" "exec read malloc a s = Some (Inr s1)" "\<not> latencyChClosed (app s1)"
      using pump_enabled [OF less.prems(1-4) False less.prems(5)] by blast
    have "exec_all read malloc [a] s = Some (Inr s1)" using a(2) by simp
    from exec_all_pump [OF less.prems(1-4) env this] a(1)
    have s1: "sys_inv s1" "d < length (procs s1)" "isClosed (ws (procs s1 ! d))" "wpc (procs s1 ! d) \<noteq> WNone"
      "pump_left (procs s1 ! d) < pump_left (procs s ! d)" by auto
    obtain bs s' where "list_all (pump_action d) bs" "length bs \<le> pump_left (procs s1 ! d)"
      "exec_all read malloc bs s1 = Some (Inr s')" "wpc (procs s' ! d) = WDone"
      using less.hyps [OF s1(5,1-4) a(3)] by blast
    then show ?thesis using a(1,2) s1(5) by (intro exI [of _ "a # bs"] exI [of _ s']) simp
  qed
qed

subsection \<open>The connection counter\<close>

definition handlers_at :: "rpc \<Rightarrow> 'f sys \<Rightarrow> nat" where
  "handlers_at pc s = sum_list (map (\<lambda>x. if x = pc then 1 else 0) (map rpc (procs s)))"

lemma handlers_at_filter: "handlers_at pc s = length (filter (\<lambda>p. rpc p = pc) (procs s))"
proof -
  have "sum_list (map (\<lambda>x. if x = pc then 1 else 0) (map rpc ps)) = length (filter (\<lambda>p. rpc p = pc) ps)" for ps
    by (induction ps) auto
  then show ?thesis by (simp add: handlers_at_def)
qed

definition count_ok :: "'f sys \<Rightarrow> bool" where
  "count_ok s \<longleftrightarrow>
     connCount (app s) + of_nat (handlers_at (RSwapped False) s) =
     of_nat (card (dom (connectors (app s)))) + of_nat (handlers_at (RDecrement True) s)"

lemma handlers_at_move:
  assumes "c < length (procs s)" and "map rpc (procs s') = (map rpc (procs s))[c := pc']"
  shows "handlers_at pc s' + (if rpc (procs s ! c) = pc then 1 else 0) = handlers_at pc s + (if pc' = pc then 1 else 0)"
  using sum_list_map_update [of c "map rpc (procs s)" "\<lambda>x. if x = pc then 1 else 0" pc'] assms
  by (simp add: handlers_at_def)

lemma finite_registry: "sys_inv s \<Longrightarrow> finite (dom (connectors (app s)))"
proof -
  assume "sys_inv s"
  then have "dom (connectors (app s)) \<subseteq> key_of s ` {..<length (procs s)}" using sys_invD(5) by fastforce
  then show ?thesis by (rule finite_subset) simp
qed

lemma count_arith:
  fixes n :: "'a :: comm_ring_1"
  assumes "n + u = k + d" and "u' + a = u + a'" and "d' + b = d + b'" and "n' + a' + k + b = n + a + k' + b'"
  shows "n' + u' = k' + d'"
proof -
  have "n' + u' + (a' + k + b) = (n' + a' + k + b) + u'" by (simp add: algebra_simps)
  also have "\<dots> = (n + a + k' + b') + u'" by (simp only: assms(4))
  also have "\<dots> = (u' + a) + (n + k' + b')" by (simp add: algebra_simps)
  also have "\<dots> = (u + a') + (n + k' + b')" by (simp only: assms(2))
  also have "\<dots> = (n + u) + (a' + k' + b')" by (simp add: algebra_simps)
  also have "\<dots> = (k + d) + (a' + k' + b')" by (simp only: assms(1))
  also have "\<dots> = (d + b') + (a' + k' + k)" by (simp add: algebra_simps)
  also have "\<dots> = (d' + b) + (a' + k' + k)" by (simp only: assms(3))
  also have "\<dots> = (k' + d') + (a' + k + b)" by (simp add: algebra_simps)
  finally show ?thesis by simp
qed

lemma count_ok_move:
  assumes ok: "count_ok s" and c: "c < length (procs s)" and ps: "map rpc (procs s') = (map rpc (procs s))[c := pc']"
    and eq: "connCount (app s') + of_bool (pc' = RSwapped False) + of_nat (card (dom (connectors (app s)))) +
      of_bool (rpc (procs s ! c) = RDecrement True) =
      connCount (app s) + of_bool (rpc (procs s ! c) = RSwapped False) + of_nat (card (dom (connectors (app s')))) +
      of_bool (pc' = RDecrement True)"
  shows "count_ok s'"
proof -
  have move: "of_nat (handlers_at pc s') + of_bool (rpc (procs s ! c) = pc) =
    (of_nat (handlers_at pc s) + of_bool (pc' = pc) :: 64 word)" for pc
    using arg_cong [OF handlers_at_move [OF c ps, of pc], of of_nat] by (auto split: if_splits)
  show ?thesis
    using count_arith [OF ok [unfolded count_ok_def] move [of "RSwapped False"] move [of "RDecrement True"] eq]
    by (simp add: count_ok_def)
qed

lemma count_ok_same:
  "count_ok s \<Longrightarrow> map rpc (procs s') = map rpc (procs s) \<Longrightarrow> connCount (app s') = connCount (app s) \<Longrightarrow>
    connectors (app s') = connectors (app s) \<Longrightarrow> count_ok s'"
  by (simp add: count_ok_def handlers_at_def)

lemma map_rpc_same [simp]: "d < length ps \<Longrightarrow> (map rpc ps)[d := rpc (ps ! d)] = map rpc ps"
  by (metis list_update_id map_update)

lemma map_rpc_ws [simp]: "d < length ps \<Longrightarrow> map rpc (ps[d := (ps ! d)\<lparr>ws := w\<rparr>]) = map rpc ps"
  by (metis list_update_id map_update proc.simps(2) proc.surjective proc.update_convs(1))

lemma map_rpc_wpc [simp]: "d < length ps \<Longrightarrow> map rpc (ps[d := (ps ! d)\<lparr>wpc := w\<rparr>]) = map rpc ps"
  by (metis list_update_id map_update proc.simps(2) proc.surjective proc.update_convs(3))

lemma map_rpc_rpc [simp]: "map rpc (ps[d := p\<lparr>rpc := w\<rparr>]) = (map rpc ps)[d := w]"
  by (simp add: map_update)

text \<open>Where a handler stands before it has registered its connector, or after it has taken it out.\<close>

fun unregistered :: "rpc \<Rightarrow> bool" where
  "unregistered RNew = True"
| "unregistered (RDecrement hit) = True"
| "unregistered RClose = True"
| "unregistered RDone = True"
| "unregistered _ = False"

text \<open>Steps of a handler that have nothing to do with the registry.\<close>

definition quiet_step :: "cid \<Rightarrow> rpc \<Rightarrow> 'f sys \<Rightarrow> 'f sys \<Rightarrow> bool" where
  "quiet_step c pc s s' \<longleftrightarrow>
     map rpc (procs s') = (map rpc (procs s))[c := pc] \<and> pc \<noteq> RSwapped False \<and> pc \<noteq> RDecrement True \<and>
     (unregistered pc \<longrightarrow> unregistered (rpc (procs s ! c))) \<and>
     connCount (app s') = connCount (app s) \<and> connectors (app s') = connectors (app s)"

lemma quiet_Increment [simp]:
  "connCount (IncrementProcessed r) = connCount r" "connectors (IncrementProcessed r) = connectors r"
  "connCount (IncrementDeliveryFailure r) = connCount r" "connectors (IncrementDeliveryFailure r) = connectors r"
  "connCount (IncrementDeliverySuccess r) = connCount r" "connectors (IncrementDeliverySuccess r) = connectors r"
  by (simp_all add: IncrementProcessed_def IncrementDeliveryFailure_def IncrementDeliverySuccess_def)

lemma quiet_rpc:
  "procs s1 = procs s \<Longrightarrow> connCount (app s1) = connCount (app s) \<Longrightarrow> connectors (app s1) = connectors (app s) \<Longrightarrow>
    pc \<noteq> RSwapped False \<Longrightarrow> pc \<noteq> RDecrement True \<Longrightarrow>
    (unregistered pc \<Longrightarrow> unregistered (rpc (procs s ! c))) \<Longrightarrow> quiet_step c pc s (set_rpc c pc s1)"
  by (simp add: quiet_step_def)

lemmas quiet_ex = exI [where P = "\<lambda>pc. quiet_step c pc s (set_rpc c pc' s1)" and x = pc' for c s pc' s1, OF quiet_rpc]

lemma reader_step_quiet:
  assumes c: "c < length (procs s)" and step: "reader_step c s = Some (Inr s')"
    and "rpc (procs s ! c) \<notin> {RNew, RSwapped False, RDisconnect, RDecrement True}"
  shows "\<exists>pc. quiet_step c pc s s'"
proof (cases "rpc (procs s ! c)")
  case (RRoute b t ts k)
  show ?thesis
  proof (cases ts)
    case Nil
    with RRoute step have s': "s' = set_rpc c (if k = 0 then RNoMatch b else RRelease b) s"
      by (simp add: reader_step_def)
    show ?thesis unfolding s' by (cases "k = 0") (auto intro!: quiet_ex)
  next
    case Cons
    with RRoute step show ?thesis
      by (auto simp: reader_step_def split: option.splits intro!: quiet_ex)
  qed
next
  case (RHandle b t)
  with step show ?thesis
    by (auto simp: reader_step_def handle_start_def bind_res_eq_Inr split: if_splits intro!: quiet_ex)
next
  case (RRetained b t d ts k)
  with step c show ?thesis
    by (auto simp: reader_step_def push_step_def quiet_step_def bind_res_eq_Inr split: if_splits)
next
  case (RFail code)
  with step c show ?thesis by (auto simp: reader_step_def quiet_step_def)
next
  case RStart
  with step c have "quiet_step c RReading s s'"
    by (auto simp: reader_step_def quiet_step_def map_update nth_list_update)
  then show ?thesis ..
next
  case (RSwapped old)
  with step assms(3) show ?thesis by (auto simp: reader_step_def intro!: quiet_ex)
next
  case (RDecrement hit)
  with step assms(3) show ?thesis by (auto simp: reader_step_def intro!: quiet_ex)
next
  case RClose
  with step c show ?thesis by (auto simp: reader_step_def quiet_step_def bind_res_eq_Inr)
qed (use step assms(3) in \<open>auto simp: reader_step_def retain_step_def release_step_def bind_res_eq_Inr
    intro!: quiet_ex\<close>)

lemma quiet_count:
  "count_ok s \<Longrightarrow> c < length (procs s) \<Longrightarrow> quiet_step c pc s s' \<Longrightarrow> rpc (procs s ! c) \<noteq> RSwapped False \<Longrightarrow>
    rpc (procs s ! c) \<noteq> RDecrement True \<Longrightarrow> count_ok s'"
  by (rule count_ok_move [of s c s' pc]) (simp_all add: quiet_step_def)

lemma reader_step_count:
  assumes ok: "count_ok s" and inv: "sys_inv s" and c: "c < length (procs s)"
    and step: "reader_step c s = Some (Inr s')"
  shows "count_ok s'"
proof -
  note fin = finite_registry [OF inv]
  let ?conns = "connectors (app s)" and ?k = "key_of s c"
  consider "rpc (procs s ! c) = RNew" | "rpc (procs s ! c) = RSwapped False" | "rpc (procs s ! c) = RDisconnect"
    | "rpc (procs s ! c) = RDecrement True"
    | "rpc (procs s ! c) \<notin> {RNew, RSwapped False, RDisconnect, RDecrement True}" by blast
  then show ?thesis
  proof cases
    case 1
    then have s': "s' = set_rpc c (RSwapped (?conns ?k \<noteq> None)) (s\<lparr>app := (app s)\<lparr>connectors := ?conns(?k \<mapsto> c)\<rparr>\<rparr>)"
      using step by (simp add: reader_step_def map_Swap_def)
    show ?thesis
      by (rule count_ok_move [OF ok c, of _ "RSwapped (?conns ?k \<noteq> None)"])
         (use c 1 fin in \<open>auto simp: s' card_insert_if\<close>)
  next
    case 2
    then have s': "s' = set_rpc c RStart (s\<lparr>app := (app s)\<lparr>connCount := connCount (app s) + 1\<rparr>\<rparr>)"
      using step by (simp add: reader_step_def)
    show ?thesis by (rule count_ok_move [OF ok c, of _ RStart]) (use c 2 in \<open>simp_all add: s'\<close>)
  next
    case 3
    let ?m = "map_CompareAndDelete ?k c ?conns"
    have s': "s' = set_rpc c (RDecrement (fst ?m)) (s\<lparr>app := (app s)\<lparr>connectors := snd ?m\<rparr>\<rparr>)"
      using 3 step by (simp add: reader_step_def split: prod.splits)
    have "card (dom (snd ?m)) + of_bool (fst ?m) = card (dom ?conns)"
      using sync_map.card_evict [of ?conns ?k c] fin
      by (cases "fst ?m") (simp_all add: sync_map_keys)
    then have "of_nat (card (dom (snd ?m))) + of_bool (fst ?m) = (of_nat (card (dom ?conns)) :: 64 word)"
      by (metis (no_types) of_nat_add of_nat_of_bool)
    then show ?thesis
      by (intro count_ok_move [OF ok c, of _ "RDecrement (fst ?m)"]) (use c 3 in \<open>simp_all add: s' algebra_simps\<close>)
  next
    case 4
    then have s': "s' = set_rpc c RClose (s\<lparr>app := (app s)\<lparr>connCount := connCount (app s) - 1\<rparr>\<rparr>)"
      using step by (simp add: reader_step_def)
    show ?thesis by (rule count_ok_move [OF ok c, of _ RClose]) (use c 4 in \<open>simp_all add: s'\<close>)
  next
    case 5
    obtain pc where "quiet_step c pc s s'" using reader_step_quiet [OF c step 5] by blast
    then show ?thesis by (rule quiet_count [OF ok c]) (use 5 in simp_all)
  qed
qed

lemma after_error_quiet: "after_error e \<noteq> RSwapped old" "after_error e \<noteq> RDecrement hit" "\<not> unregistered (after_error e)"
  by (cases e; simp add: after_error_def)+

text \<open>What any step does to the registry, its counter and the handlers that stand around them.\<close>

lemma exec_registry:
  assumes step: "exec read malloc a s = Some (Inr s')"
  obtains (same) "map rpc (procs s') = map rpc (procs s) \<or> map rpc (procs s') = map rpc (procs s) @ [RNew]"
      "connCount (app s') = connCount (app s)" "connectors (app s') = connectors (app s)"
  | (quiet) c pc where "c < length (procs s)" "quiet_step c pc s s'" "rpc (procs s ! c) \<noteq> RSwapped False"
      "rpc (procs s ! c) \<noteq> RDecrement True"
  | (reader) c where "c < length (procs s)" "reader_step c s = Some (Inr s')"
      "rpc (procs s ! c) \<in> {RNew, RSwapped False, RDisconnect, RDecrement True}"
proof (cases a)
  case (ReadError c)
  with step have "c < length (procs s)" "rpc (procs s ! c) = RReading" "s' = set_rpc c RDisconnect s"
    by (auto split: if_splits)
  then show thesis by (intro quiet [of c RDisconnect]) (simp_all add: quiet_step_def)
next
  case (ReadFrame c r t)
  with step have c: "c < length (procs s)" and pc: "rpc (procs s ! c) = RReading"
    by (auto simp: read_frame_def split: if_splits)
  have "\<exists>pc'. quiet_step c pc' s s'"
    using step ReadFrame c
    by (auto simp: read_frame_def bind_run_def bind_res_eq_Inr after_error_quiet
        split: if_splits option.splits sum.splits intro!: quiet_ex)
  then show thesis using quiet c pc by auto
next
  case (Reader c)
  with step have c: "c < length (procs s)" and rs: "reader_step c s = Some (Inr s')" by (auto split: if_splits)
  show thesis
  proof (cases "rpc (procs s ! c) \<in> {RNew, RSwapped False, RDisconnect, RDecrement True}")
    case False
    then obtain pc where "quiet_step c pc s s'" using reader_step_quiet [OF c rs] by blast
    then show thesis using quiet c False by auto
  qed (use reader c rs in blast)
next
  case (Writer c)
  then have c: "c < length (procs s)" and w: "writer_step c s = Some (Inr s')" using step by (auto split: if_splits)
  show thesis
    by (rule same; cases "wpc (procs s ! c)"; use w c in
        \<open>auto simp: writer_step_def writer_recv_def writer_release_def bind_res_eq_Inr map_update
          split: received.splits prod.splits\<close>)
next
  case (WriteDone c good)
  with step show thesis
    by (auto simp: write_done_def bind_res_eq_Inr split: wpc.splits if_splits intro!: same)
next
  case (Latency c d)
  with step show thesis
    by (auto simp: record_latency_def RecordLatency_def Let_def bind_res_eq_Inr split: wpc.splits if_splits
        intro!: same)
qed (use step in \<open>auto split: if_splits intro!: same\<close>)

lemma exec_count:
  assumes ok: "count_ok s" and inv: "sys_inv s" and step: "exec read malloc a s = Some (Inr s')"
  shows "count_ok s'"
  using step
proof (cases rule: exec_registry)
  case same
  then show ?thesis using ok by (auto simp: count_ok_def handlers_at_def simp del: map_map)
next
  case (quiet c pc)
  then show ?thesis using quiet_count [OF ok] by blast
next
  case (reader c)
  then show ?thesis using reader_step_count [OF ok inv] by blast
qed

lemma reachable_count:
  assumes "reachable read malloc (init_sys t F) s" and "calm_reader read stream ending" and "malloc_ok malloc"
  shows "count_ok s"
  using assms(1)
proof induction
  case start
  show ?case by (simp add: count_ok_def handlers_at_def init_sys_def NewRelayer_def)
next
  case (step s a s')
  show ?case by (rule exec_count [OF step.IH reachable_inv [OF step.hyps(1) assms(2,3)] step.hyps(2)])
qed

subsection \<open>Who is registered\<close>

definition registered_live :: "'f sys \<Rightarrow> bool" where
  "registered_live s \<longleftrightarrow> (\<forall>k c. connectors (app s) k = Some c \<longrightarrow> \<not> unregistered (rpc (procs s ! c)))"

lemma registered_liveD: "registered_live s \<Longrightarrow> connectors (app s) k = Some c \<Longrightarrow> \<not> unregistered (rpc (procs s ! c))"
  by (auto simp: registered_live_def)

lemma live_move:
  assumes live: "registered_live s" and c: "c < length (procs s)"
    and ps: "procs s' = (procs s)[c := (procs s ! c)\<lparr>rpc := pc\<rparr>]"
    and reg: "\<And>k d. connectors (app s') k = Some d \<Longrightarrow>
      (if d = c then \<not> unregistered pc else connectors (app s) k = Some d)"
  shows "registered_live s'"
  unfolding registered_live_def
proof (intro allI impI)
  fix k d assume k: "connectors (app s') k = Some d"
  show "\<not> unregistered (rpc (procs s' ! d))"
    using reg [OF k] c registered_liveD [OF live, of k d] by (cases "d = c") (simp_all add: ps)
qed

text \<open>The steps that register and unregister: after its own \<open>OnDisconnect\<close> nothing leads to a connection.\<close>

lemma reader_step_live:
  assumes live: "registered_live s" and inv: "sys_inv s" and c: "c < length (procs s)"
    and step: "reader_step c s = Some (Inr s')"
    and pc: "rpc (procs s ! c) \<in> {RNew, RSwapped False, RDisconnect, RDecrement True}"
  shows "registered_live s'"
proof -
  let ?conns = "connectors (app s)" and ?k = "key_of s c"
  have own: "?conns k = Some c \<Longrightarrow> k = ?k \<and> ?conns ?k = Some c" for k using sys_invD(5) [OF inv, of k c] by auto
  from pc consider "rpc (procs s ! c) = RNew" | "rpc (procs s ! c) = RSwapped False"
    | "rpc (procs s ! c) = RDisconnect" | "rpc (procs s ! c) = RDecrement True" by blast
  then show ?thesis
  proof cases
    case 1
    with step show ?thesis
      by (intro live_move [OF live c, of _ "RSwapped (?conns ?k \<noteq> None)"])
         (auto simp: reader_step_def map_Swap_def split: if_splits)
  next
    case 2
    with step show ?thesis by (intro live_move [OF live c, of _ RStart]) (auto simp: reader_step_def)
  next
    case 3
    with step show ?thesis
      by (intro live_move [OF live c, of _ "RDecrement (?conns ?k = Some c)"])
         (auto simp: reader_step_def map_CompareAndDelete_def split: if_splits dest: own)
  next
    case 4
    have "?conns k \<noteq> Some c" for k using registered_liveD [OF live, of k c] 4 by auto
    with 4 step show ?thesis by (intro live_move [OF live c, of _ RClose]) (auto simp: reader_step_def)
  qed
qed

lemma exec_live:
  assumes live: "registered_live s" and inv: "sys_inv s" and step: "exec read malloc a s = Some (Inr s')"
  shows "registered_live s'"
proof -
  note reg = sys_invD(5) [OF inv]
  have nth: "rpc (procs s' ! d) = map rpc (procs s') ! d" if "map rpc (procs s') = xs" "d < length xs" for xs d
    using that by (metis length_map nth_map)
  from step show ?thesis
  proof (cases rule: exec_registry)
    case same
    have "rpc (procs s' ! d) = rpc (procs s ! d)" if "d < length (procs s)" for d
      using same(1) that nth by (auto simp: nth_append)
    then show ?thesis using live reg same(3) by (simp add: registered_live_def)
  next
    case (quiet c pc)
    then have "rpc (procs s' ! d) = (if d = c then pc else rpc (procs s ! d))" if "d < length (procs s)" for d
      using that nth by (simp add: quiet_step_def nth_list_update)
    then show ?thesis using live reg quiet(2) by (auto simp: registered_live_def quiet_step_def)
  next
    case (reader c)
    then show ?thesis by (rule reader_step_live [OF live inv])
  qed
qed

lemma reachable_live:
  assumes "reachable read malloc (init_sys t F) s" and "calm_reader read stream ending" and "malloc_ok malloc"
  shows "registered_live s"
  using assms(1)
proof induction
  case start
  show ?case by (simp add: registered_live_def init_sys_def NewRelayer_def)
next
  case (step s a s')
  show ?case by (rule exec_live [OF step.IH reachable_inv [OF step.hyps(1) assms(2,3)] step.hyps(2)])
qed

end
