(* ===== verification/Relay_Counters.thy ===== *)
theory Relay_Counters
  imports Relay_Progress
begin

section \<open>What the relayer's counters count\<close>

text \<open>
  The three message counters of the relayer, in the interleaved server, against what happens: frames
  routed, writes that succeed, and deliveries that fail because nobody was there, a queue refused the
  message, or the write failed. Between an event and the counter's increment the goroutine that owes
  the increment is at a program counter of its own, so the account is exact in every state.
\<close>

subsection \<open>Events of a run\<close>

datatype event = FrameRouted | NobodyFound | PushRefused | WriteSucceeded | WriteFailed

definition refuses :: "wsconn \<Rightarrow> bool" where
  "refuses w \<longleftrightarrow> isClosed w \<or> outCap w \<le> length (outChan w)"

definition reader_event :: "cid \<Rightarrow> 'f sys \<Rightarrow> event option" where
  "reader_event c s =
     (case rpc (procs s ! c) of
        RHandle b t \<Rightarrow>
          (case content_of (memory s) b of
             Some msg \<Rightarrow> if targets_of msg (key_of s c) = [] then None else Some FrameRouted
           | None \<Rightarrow> None)
      | RRoute b t ts matched \<Rightarrow> if ts = [] \<and> matched = 0 then Some NobodyFound else None
      | RRetained b t d ts matched \<Rightarrow> if refuses (ws (procs s ! d)) then Some PushRefused else None
      | _ \<Rightarrow> None)"

fun event_of :: "'r action \<Rightarrow> 'f sys \<Rightarrow> event option" where
  "event_of (Reader c) s = reader_event c s"
| "event_of (WriteDone c ok) s = Some (if ok then WriteSucceeded else WriteFailed)"
| "event_of _ s = None"

fun events :: "'r reader \<Rightarrow> malloc \<Rightarrow> 'r action list \<Rightarrow> 'f sys \<Rightarrow> event list" where
  "events read malloc [] s = []"
| "events read malloc (a # as) s =
     (case event_of a s of None \<Rightarrow> [] | Some e \<Rightarrow> [e]) @
     (case exec read malloc a s of Some (Inr s') \<Rightarrow> events read malloc as s' | _ \<Rightarrow> [])"

subsection \<open>Increments a goroutine owes\<close>

fun pump_success :: "wpc \<Rightarrow> u64" where
  "pump_success (WRelease m ok) = (if ok then 1 else 0)"
| "pump_success (WSuccess m) = 1"
| "pump_success _ = 0"

fun pump_failure :: "wpc \<Rightarrow> u64" where
  "pump_failure (WRelease m ok) = (if ok then 0 else 1)"
| "pump_failure WFail = 1"
| "pump_failure _ = 0"

fun handler_failure :: "rpc \<Rightarrow> u64" where
  "handler_failure (RUndo b t ts k) = 1"
| "handler_failure (RRefused b t ts k) = 1"
| "handler_failure (RNoMatch b) = 1"
| "handler_failure _ = 0"

definition owed_success :: "proc \<Rightarrow> u64" where
  "owed_success p = pump_success (wpc p)"

definition owed_failure :: "proc \<Rightarrow> u64" where
  "owed_failure p = handler_failure (rpc p) + pump_failure (wpc p)"

lemma owed_simps [simp]:
  "owed_success (p\<lparr>ws := w\<rparr>) = owed_success p" "owed_success (p\<lparr>rpc := pc\<rparr>) = owed_success p"
  "owed_success (p\<lparr>wpc := pc'\<rparr>) = pump_success pc'"
  "owed_failure (p\<lparr>ws := w\<rparr>) = owed_failure p"
  "owed_failure (p\<lparr>rpc := pc\<rparr>) = handler_failure pc + pump_failure (wpc p)"
  "owed_failure (p\<lparr>wpc := pc'\<rparr>) = handler_failure (rpc p) + pump_failure pc'"
  by (simp_all add: owed_success_def owed_failure_def)

definition successes :: "'f sys \<Rightarrow> u64" where
  "successes s = delivered (app s) + sum_list (map owed_success (procs s))"

definition failures :: "'f sys \<Rightarrow> u64" where
  "failures s = noRecip (app s) + sum_list (map owed_failure (procs s))"

lemma sum_list_move:
  fixes f :: "'a \<Rightarrow> 'b :: ab_group_add"
  shows "c < length ps \<Longrightarrow> sum_list (map f (ps[c := p])) = sum_list (map f ps) - f (ps ! c) + f p"
  by (induction ps arbitrary: c) (auto split: nat.split)

lemma counters_Increment [simp]:
  "processed (IncrementProcessed r) = processed r + 1" "delivered (IncrementProcessed r) = delivered r"
  "noRecip (IncrementProcessed r) = noRecip r"
  "processed (IncrementDeliverySuccess r) = processed r" "delivered (IncrementDeliverySuccess r) = delivered r + 1"
  "noRecip (IncrementDeliverySuccess r) = noRecip r"
  "processed (IncrementDeliveryFailure r) = processed r" "delivered (IncrementDeliveryFailure r) = delivered r"
  "noRecip (IncrementDeliveryFailure r) = noRecip r + 1"
  by (simp_all add: IncrementProcessed_def IncrementDeliverySuccess_def IncrementDeliveryFailure_def)

text \<open>How one event moves the three accounts.\<close>

definition moved_by :: "event option \<Rightarrow> 'f sys \<Rightarrow> 'f sys \<Rightarrow> bool" where
  "moved_by e s s' \<longleftrightarrow>
     processed (app s') = processed (app s) + (if e = Some FrameRouted then 1 else 0) \<and>
     successes s' = successes s + (if e = Some WriteSucceeded then 1 else 0) \<and>
     failures s' = failures s + (if e \<in> {Some NobodyFound, Some PushRefused, Some WriteFailed} then 1 else 0)"

lemma moved_one:
  assumes "c < length (procs s)" and "procs s' = (procs s)[c := p']"
    and "processed (app s') = processed (app s) + (if e = Some FrameRouted then 1 else 0)"
    and "delivered (app s') + owed_success p' =
      delivered (app s) + owed_success (procs s ! c) + (if e = Some WriteSucceeded then 1 else 0)"
    and "noRecip (app s') + owed_failure p' = noRecip (app s) + owed_failure (procs s ! c) +
      (if e \<in> {Some NobodyFound, Some PushRefused, Some WriteFailed} then 1 else 0)"
  shows "moved_by e s s'"
  using assms(4,5) by (simp add: moved_by_def assms(3) successes_def failures_def assms(2) sum_list_move [OF assms(1)]
      algebra_simps del: if_split)

subsection \<open>The handler's steps\<close>

lemma handle_start_counts:
  assumes inv: "sys_inv s" and c: "c < length (procs s)" and pc: "rpc (procs s ! c) = RHandle b t"
    and step: "handle_start c b t s = Inr s'"
  shows "moved_by (reader_event c s) s s'"
proof -
  obtain msg where msg: "content_of (memory s) b = Some msg"
    using held_content [OF sys_invD(1) [OF inv] c weight_reader] pc by fastforce
  let ?ts = "targets_of msg (key_of s c)"
  have e: "reader_event c s = (if ?ts = [] then None else Some FrameRouted)"
    by (simp add: reader_event_def pc msg)
  show ?thesis
  proof (cases "?ts = []")
    case True
    with handle_start_inv [OF inv c pc msg] step have "s' = set_rpc c (RRelease b) s" by simp
    with c e True show ?thesis
      by (intro moved_one [of c s _ "(procs s ! c)\<lparr>rpc := RRelease b\<rparr>"]) (simp_all add: owed_failure_def pc)
  next
    case False
    with handle_start_inv [OF inv c pc msg] step
    obtain h' where "s' = set_rpc c (RRoute b t ?ts 0) (s\<lparr>app := IncrementProcessed (app s), memory := h'\<rparr>)"
      by (auto simp: Let_def)
    with c e False show ?thesis
      by (intro moved_one [of c s _ "(procs s ! c)\<lparr>rpc := RRoute b t ?ts 0\<rparr>"]) (simp_all add: owed_failure_def pc)
  qed
qed

lemma push_step_counts:
  assumes c: "c < length (procs s)" and pc: "rpc (procs s ! c) = RRetained b t d ts k"
    and step: "push_step c b t d ts k s = Inr s'"
  shows "moved_by (reader_event c s) s s'"
proof -
  let ?m = "\<lparr>RecvTime = t, Buf = Some b\<rparr>"
  obtain ok w where d: "d < length (procs s)" and push: "SafePush ?m (ws (procs s ! d)) = Inr (ok, w)"
    and s': "s' = set_rpc c (if ok then RRoute b t ts (k + 1) else RUndo b t ts k) (set_ws d w s)"
    using step by (auto simp: push_step_def bind_res_eq_Inr split: if_splits)
  have ok: "ok \<longleftrightarrow> \<not> refuses (ws (procs s ! d))"
    using push by (auto simp: SafePush_def refuses_def split: if_splits)
  let ?s1 = "set_ws d w s"
  have "moved_by None s ?s1"
    using d by (intro moved_one [of d s _ "(procs s ! d)\<lparr>ws := w\<rparr>"]) simp_all
  moreover have "moved_by (reader_event c s) ?s1 s'"
  proof (rule moved_one [of c ?s1])
    show "procs s' = (procs ?s1)[c := (procs ?s1 ! c)\<lparr>rpc := if ok then RRoute b t ts (k + 1) else RUndo b t ts k\<rparr>]"
      by (simp add: s')
    have "rpc (procs ?s1 ! c) = RRetained b t d ts k" using pc d by (simp add: nth_list_update)
    then show "noRecip (app s') + owed_failure ((procs ?s1 ! c)\<lparr>rpc := if ok then RRoute b t ts (k + 1) else RUndo b t ts k\<rparr>) =
      noRecip (app ?s1) + owed_failure (procs ?s1 ! c) +
      (if reader_event c s \<in> {Some NobodyFound, Some PushRefused, Some WriteFailed} then 1 else 0)"
      by (cases ok) (use ok in \<open>simp_all add: s' reader_event_def pc owed_failure_def\<close>)
  qed (use c in \<open>simp_all add: s' reader_event_def pc\<close>)
  ultimately show ?thesis by (simp add: moved_by_def)
qed

lemma moves_counts:
  assumes "moves reg (rpc (procs s ! c)) pc"
  shows "(if counts_failure (rpc (procs s ! c)) then 1 else 0) + handler_failure pc =
      handler_failure (rpc (procs s ! c)) + (if reader_event c s = Some NobodyFound then 1 else 0) \<and>
    reader_event c s \<in> {None, Some NobodyFound}"
  using assms by (cases rule: moves.cases) (simp_all add: reader_event_def)

lemma handler_failure_outside: "reader_buf pc = None \<Longrightarrow> handler_failure pc = 0"
  by (cases pc) simp_all

lemma outside_event: "reader_buf (rpc (procs s ! c)) = None \<Longrightarrow> reader_event c s = None"
  by (cases "rpc (procs s ! c)") (simp_all add: reader_event_def)

lemma reader_step_counts:
  assumes inv: "sys_inv s" and c: "c < length (procs s)" and step: "reader_step c s = Some (Inr s')"
  shows "moved_by (reader_event c s) s s'"
  using inv c step
proof (cases rule: reader_step_cases)
  case handle
  with handle_start_counts [OF inv c] show ?thesis by simp
next
  case (retain b t d ts k)
  from retain(1) retain(2) [symmetric] show ?thesis
    by (intro moved_one [OF c, of _ "(procs s ! c)\<lparr>rpc := RRetained b t d ts k\<rparr>"])
       (auto simp: reader_event_def retain_step_def bind_res_eq_Inr owed_failure_def)
next
  case push
  with push_step_counts [OF c] show ?thesis by simp
next
  case (release b t ts k pc)
  from release(1) release(2) [symmetric] show ?thesis
    by (intro moved_one [OF c, of _ "(procs s ! c)\<lparr>rpc := pc\<rparr>"])
       (auto simp: reader_event_def release_step_def bind_res_eq_Inr owed_failure_def)
next
  case (routed s1 pc)
  with moves_counts [OF routed(2)] show ?thesis
    by (intro moved_one [OF c, of _ "(procs s ! c)\<lparr>rpc := pc\<rparr>"]) (auto simp: owed_failure_def)
next
  case (outside s1 p')
  then have "reader_event c s = None" "pump_success (wpc p') = pump_success (wpc (procs s ! c))"
    "pump_failure (wpc p') = pump_failure (wpc (procs s ! c))"
    "handler_failure (rpc p') = handler_failure (rpc (procs s ! c))"
    by (auto simp: outside_def outside_event handler_failure_outside)
  with outside show ?thesis
    by (intro moved_one [OF c, of _ p']) (simp_all add: owed_failure_def owed_success_def)
qed

subsection \<open>The pump's steps and the environment's\<close>

lemma writer_recv_counts:
  assumes c: "c < length (procs s)" and step: "writer_recv c pc s = Some (Inr s')"
    and pc: "wpc (procs s ! c) \<in> {WRecv, WDrain}" "\<And>m. pump_success (pc m) = 0 \<and> pump_failure (pc m) = 0"
  shows "moved_by None s s'"
proof -
  from step consider (got) m w where "s' = set_wpc c (pc m) (set_ws c w s)" | (closed) "s' = set_wpc c WDone s"
    by (auto simp: writer_recv_def split: received.splits prod.splits)
  then show ?thesis
  proof cases
    case got
    with c pc show ?thesis
      by (intro moved_one [OF c, of _ "(procs s ! c)\<lparr>ws := w, wpc := pc m\<rparr>"]) (auto simp: owed_failure_def owed_success_def)
  next
    case closed
    with c pc show ?thesis
      by (intro moved_one [OF c, of _ "(procs s ! c)\<lparr>wpc := WDone\<rparr>"]) (auto simp: owed_failure_def owed_success_def)
  qed
qed

lemma writer_step_counts:
  assumes c: "c < length (procs s)" and step: "writer_step c s = Some (Inr s')"
  shows "moved_by None s s'"
proof -
  have own: "moved_by None s s'" if "procs s' = (procs s)[c := p']" "processed (app s') = processed (app s)"
    "delivered (app s') + owed_success p' = delivered (app s) + owed_success (procs s ! c)"
    "noRecip (app s') + owed_failure p' = noRecip (app s) + owed_failure (procs s ! c)" for p'
    by (rule moved_one [OF c that(1)]) (use that(2-4) in simp_all)
  show ?thesis
  proof (cases "wpc (procs s ! c)")
    case WRecv
    with step writer_recv_counts [OF c, of WWrite] show ?thesis by (simp add: writer_step_def)
  next
    case WDrain
    with step writer_recv_counts [OF c, of WDrainRelease] show ?thesis by (simp add: writer_step_def)
  next
    case (WRelease m good)
    with step show ?thesis
      by (intro own [of "(procs s ! c)\<lparr>wpc := if good then WSuccess m else WFail\<rparr>"])
         (auto simp: writer_step_def writer_release_def bind_res_eq_Inr owed_failure_def owed_success_def)
  next
    case (WDrainRelease m)
    with step show ?thesis
      by (intro own [of "(procs s ! c)\<lparr>wpc := WDrain\<rparr>"])
         (auto simp: writer_step_def writer_release_def bind_res_eq_Inr owed_failure_def owed_success_def)
  next
    case (WSuccess m)
    with step show ?thesis
      by (intro own [of "(procs s ! c)\<lparr>wpc := WLatency m\<rparr>"]) (auto simp: writer_step_def owed_failure_def owed_success_def)
  next
    case WFail
    with step show ?thesis
      by (intro own [of "(procs s ! c)\<lparr>wpc := WClose\<rparr>"]) (auto simp: writer_step_def owed_failure_def owed_success_def)
  next
    case WClose
    then obtain w where "s' = set_wpc c WDrain (set_ws c w s)" using step by (auto simp: writer_step_def bind_res_eq_Inr)
    with WClose c show ?thesis
      by (intro own [of "(procs s ! c)\<lparr>ws := w, wpc := WDrain\<rparr>"]) (auto simp: owed_failure_def owed_success_def)
  qed (use step in \<open>simp_all add: writer_step_def\<close>)
qed

lemma write_done_counts:
  assumes c: "c < length (procs s)" and step: "write_done c good s = Some (Inr s')"
  shows "moved_by (Some (if good then WriteSucceeded else WriteFailed)) s s'"
proof -
  obtain m msg where "wpc (procs s ! c) = WWrite m" "s' = set_wpc c (WRelease m good) (log_write c good msg s)"
    using step by (auto simp: write_done_def bind_res_eq_Inr split: wpc.splits)
  with c show ?thesis
    by (intro moved_one [OF c, of _ "(procs s ! c)\<lparr>wpc := WRelease m good\<rparr>"])
       (auto simp: owed_failure_def owed_success_def)
qed

lemma record_latency_counts:
  assumes c: "c < length (procs s)" and step: "record_latency c d s = Some (Inr s')"
  shows "moved_by None s s'"
proof -
  obtain m a where "wpc (procs s ! c) = WLatency m" "RecordLatency d (app s) = Inr a" "s' = set_wpc c WRecv (s\<lparr>app := a\<rparr>)"
    using step by (auto simp: record_latency_def bind_res_eq_Inr split: wpc.splits)
  moreover have "processed a = processed (app s) \<and> delivered a = delivered (app s) \<and> noRecip a = noRecip (app s)"
    using calculation(2) by (auto simp: RecordLatency_def Let_def split: if_splits)
  ultimately show ?thesis
    by (intro moved_one [OF c, of _ "(procs s ! c)\<lparr>wpc := WRecv\<rparr>"]) (simp_all add: owed_failure_def owed_success_def)
qed

lemma read_frame_counts:
  assumes c: "c < length (procs s)" and step: "read_frame read malloc c r t s = Some (Inr s')"
  shows "moved_by None s s'"
proof -
  have pc: "rpc (procs s ! c) = RReading" using step by (simp add: read_frame_def split: if_splits)
  let ?pc = "rpc (procs s' ! c)"
  have "procs s' = (procs s)[c := (procs s ! c)\<lparr>rpc := ?pc\<rparr>] \<and> handler_failure ?pc = 0 \<and> app s' = app s"
    using step c
    by (auto simp: read_frame_def bind_run_def bind_res_eq_Inr handler_failure_outside after_error_simps
        split: if_splits option.splits sum.splits)
  then show ?thesis using pc by (intro moved_one [OF c, of _ "(procs s ! c)\<lparr>rpc := ?pc\<rparr>"]) (simp_all add: owed_failure_def)
qed

lemma exec_counts:
  assumes inv: "sys_inv s" and step: "exec read malloc a s = Some (Inr s')"
  shows "moved_by (event_of a s) s s'"
proof (cases a)
  case (Reader c)
  with step reader_step_counts [OF inv] show ?thesis by (simp split: if_splits)
next
  case (Writer c)
  with step writer_step_counts show ?thesis by (simp split: if_splits)
next
  case (WriteDone c good)
  with step write_done_counts [of c s good s'] show ?thesis by (simp split: if_splits)
next
  case (Latency c d)
  with step record_latency_counts show ?thesis by (simp split: if_splits)
next
  case (ReadFrame c r t)
  with step read_frame_counts show ?thesis by (simp split: if_splits)
next
  case (ReadError c)
  with step show ?thesis
    by (auto split: if_splits intro!: moved_one [of c s _ "(procs s ! c)\<lparr>rpc := RDisconnect\<rparr>"] simp: owed_failure_def)
next
  case (Accept k n)
  with step show ?thesis
    by (auto simp: moved_by_def successes_def failures_def owed_success_def owed_failure_def split: if_splits)
qed (use step in \<open>auto simp: moved_by_def successes_def failures_def split: if_splits\<close>)

lemma run_counts:
  assumes "sys_inv s" and env: "calm_reader read stream ending" "malloc_ok malloc"
    and "exec_all read malloc as s = Some (Inr s')"
  shows "processed (app s') = processed (app s) + of_nat (count_list (events read malloc as s) FrameRouted) \<and>
    successes s' = successes s + of_nat (count_list (events read malloc as s) WriteSucceeded) \<and>
    failures s' = failures s + of_nat (count_list (events read malloc as s) NobodyFound +
      count_list (events read malloc as s) PushRefused + count_list (events read malloc as s) WriteFailed)"
  using assms(1,4)
proof (induction "as" arbitrary: s)
  case (Cons a "as")
  obtain s1 where s1: "exec read malloc a s = Some (Inr s1)" "exec_all read malloc as s1 = Some (Inr s')"
    using Cons.prems(2) by (auto simp: bind_run_def split: option.splits sum.splits)
  have "sys_inv s1" using exec_inv [OF Cons.prems(1) env s1(1)] by auto
  note IH = Cons.IH [OF this s1(2)]
  have "moved_by (event_of a s) s s1" by (rule exec_counts [OF Cons.prems(1) s1(1)])
  with IH s1(1) show ?case
    by (cases "event_of a s"; cases "the (event_of a s)") (simp_all add: moved_by_def)
qed simp

subsection \<open>Properties\<close>

text \<open>
  C12 (invariant): exactly what the counters \<open>/metrics\<close> reports count, which is not what the comments on
  \<open>processed\<close> (all messages received) and \<open>delivered\<close> (all messages pushed) say. After any run of the server, in any
  interleaving, \<open>processed\<close> is the number of frames that had a recipient other than their sender, so a
  frame accepted with its sender as the only recipient is not counted;
  \<open>delivered\<close>, with the increments pumps still owe, is the number of writes that succeeded, so a
  message pushed and not yet, or never, written is not counted; and \<open>noRecip\<close>,
  with the increments handlers and pumps still owe, is the number of frames nobody was found for or
  nobody took, of pushes refused and of writes that failed (all modulo \<open>2 ^ 64\<close>).
\<close>

theorem counters_account:
  assumes "exec_all read malloc as (init_sys g F) = Some (Inr s)" and "calm_reader read stream ending" and "malloc_ok malloc"
    and "es = events read malloc as (init_sys g F)"
  shows "processed (app s) = of_nat (count_list es FrameRouted) \<and>
    delivered (app s) + (\<Sum>p\<leftarrow>procs s. owed_success p) = of_nat (count_list es WriteSucceeded) \<and>
    noRecip (app s) + (\<Sum>p\<leftarrow>procs s. owed_failure p) =
      of_nat (count_list es NobodyFound + count_list es PushRefused + count_list es WriteFailed)"
  using run_counts [OF sys_inv_init assms(2,3,1)]
  by (simp add: successes_def failures_def init_sys_def NewRelayer_def assms(4))

theorem counters_account_witness:
  "\<exists>as (s :: unit sys). exec_all busy_read bump_malloc as (init_sys OtherTarget no_floats) = Some (Inr s) \<and> accepted s \<noteq> [] \<and>
    processed (app s) = of_nat (count_list (events busy_read bump_malloc as (init_sys OtherTarget no_floats)) FrameRouted)"
proof -
  let ?s = "connected OtherTarget"
  have reach: "reachable busy_read bump_malloc (init_sys OtherTarget no_floats) ?s" by (rule connected_reachable)
  have "0 < length (procs ?s)" "rpc (procs ?s ! 0) = RReading" "\<forall>m n. bump_malloc m n \<noteq> None"
    by (simp_all add: bump_total)
  from deliver_run [OF reach this(1,2) busy_calm bump_malloc_ok this(3) hello_frame, of 7]
  obtain n s where s: "exec_all busy_read bump_malloc (ReadFrame 0 hello 7 # replicate n (Reader 0)) ?s = Some (Inr s)"
    "accepted s \<noteq> []" by auto
  let ?as = "connect_run @ ReadFrame 0 hello 7 # replicate n (Reader 0)"
  have run: "exec_all busy_read bump_malloc ?as (init_sys OtherTarget no_floats) = Some (Inr s)"
    using s(1) by (simp only: exec_all_append exec_connect bind_run_def option.case sum.case)
  from counters_account [OF this busy_calm bump_malloc_ok refl] run s(2) show ?thesis
    by (intro exI [of _ ?as] exI [of _ s]) simp
qed

end
