(* ===== verification/Relay_Order.thy ===== *)
theory Relay_Order
  imports Relay_Security
begin

section \<open>Order of delivery\<close>

text \<open>
  Whatever the interleaving of the handlers and the pumps, one connection sees the messages of
  another in the order they were sent, each at most once. The invariant is about the flow to a
  connection: the numbers (in the order of acceptance) of the frames written to it, being written and
  queued for it. Those of one sender increase strictly along it, and the frame a handler has in hand
  comes after all of the sender's frames in every flow it may still join.
\<close>

definition sender :: "history \<Rightarrow> nat \<Rightarrow> cid" where
  "sender A n = fst (A ! n)"

definition later :: "history \<Rightarrow> nat \<Rightarrow> nat \<Rightarrow> bool" where
  "later A m n \<longleftrightarrow> (sender A m = sender A n \<longrightarrow> m < n)"

fun unwritten :: "wpc \<Rightarrow> out_message list" where
  "unwritten (WWrite m) = [m]"
| "unwritten _ = []"

definition stream_of :: "(baddr \<Rightarrow> nat) \<Rightarrow> proc \<Rightarrow> nat list" where
  "stream_of T p = map (\<lambda>m. T (the (Buf m))) (unwritten (wpc p) @ outChan (ws p))"

definition written_to :: "nat list \<Rightarrow> (cid \<times> bytes) list \<Rightarrow> cid \<Rightarrow> nat list" where
  "written_to X out d = map snd (filter (\<lambda>e. fst e = d) (zip (map fst out) X))"

definition flow :: "(baddr \<Rightarrow> nat) \<Rightarrow> nat list \<Rightarrow> 'f sys \<Rightarrow> cid \<Rightarrow> nat list" where
  "flow T X s d = written_to X (written s) d @ stream_of T (procs s ! d)"

lemma written_to_nth:
  assumes "sorted_wrt P (written_to X out d)" and "i < j" and "j < length out" and "length X = length out"
    and "fst (out ! i) = d" and "fst (out ! j) = d"
  shows "P (X ! i) (X ! j)"
  using assms
proof (induction out arbitrary: X i j)
  case (Cons e out)
  obtain x X' where X: "X = x # X'" using Cons.prems(4) by (cases X) auto
  obtain j' where j: "j = Suc j'" using Cons.prems(2) by (cases j) auto
  have j': "j' < length out" "length X' = length out" using Cons.prems(3,4) by (simp_all add: X j)
  show ?case
  proof (cases i)
    case 0
    have "(fst (out ! j'), X' ! j') \<in> set (zip (map fst out) X')" using j' by (auto simp: in_set_zip intro!: exI [of _ j'])
    then show ?thesis using Cons.prems(1,5,6) 0 by (force simp: written_to_def X j)
  next
    case (Suc i')
    have "sorted_wrt P (written_to X' out d)"
      using Cons.prems(1) by (auto simp: written_to_def X split: if_splits)
    then show ?thesis using Cons.IH [of X' i' j'] Cons.prems(2,5,6) Suc j' by (simp add: X j)
  qed
qed simp

text \<open>The recipients a handler has still to serve, and the connections its frame may still reach.\<close>

fun remaining :: "(cid \<Rightarrow> pubkey) \<Rightarrow> rpc \<Rightarrow> pubkey list" where
  "remaining K (RRoute b t ts k) = ts"
| "remaining K (RLooked b t d ts k) = K d # ts"
| "remaining K (RRetained b t d ts k) = K d # ts"
| "remaining K (RUndo b t ts k) = ts"
| "remaining K (RRefused b t ts k) = ts"
| "remaining K _ = []"

fun may_reach :: "(cid \<Rightarrow> pubkey) \<Rightarrow> rpc \<Rightarrow> cid \<Rightarrow> bool" where
  "may_reach K (RHandle b t) d = True"
| "may_reach K pc d = (K d \<in> set (remaining K pc))"

text \<open>\<open>n\<close>, the number of a frame of \<open>i\<close>, comes after the frames of \<open>i\<close> in \<open>xs\<close>.\<close>

definition comes_after :: "history \<Rightarrow> cid \<Rightarrow> nat \<Rightarrow> bool \<Rightarrow> nat list \<Rightarrow> bool" where
  "comes_after A i n strictly xs \<longleftrightarrow>
     (\<forall>x \<in> set xs. sender A x = i \<longrightarrow> x \<le> n \<and> (strictly \<longrightarrow> x \<noteq> n))"

definition handler_order ::
  "history \<Rightarrow> (cid \<Rightarrow> pubkey) \<Rightarrow> (baddr \<Rightarrow> nat) \<Rightarrow> (cid \<Rightarrow> nat list) \<Rightarrow> nat \<Rightarrow> cid \<Rightarrow> rpc \<Rightarrow> bool" where
  "handler_order A K T f n i pc \<longleftrightarrow>
     distinct (remaining K pc) \<and>
     (\<forall>b. reader_buf pc = Some b \<longrightarrow> (\<forall>d < n. comes_after A i (T b) (may_reach K pc d) (f d)))"

definition order_inv :: "(baddr \<Rightarrow> nat) \<Rightarrow> nat list \<Rightarrow> 'f sys \<Rightarrow> bool" where
  "order_inv T X s \<longleftrightarrow>
     (\<forall>d < length (procs s). sorted_wrt (later (accepted s)) (flow T X s d)) \<and>
     (\<forall>i < length (procs s).
        handler_order (accepted s) (key_of s) T (flow T X s) (length (procs s)) i (rpc (procs s ! i)))"

lemma order_invD:
  assumes "order_inv T X s"
  shows "d < length (procs s) \<Longrightarrow> sorted_wrt (later (accepted s)) (flow T X s d)"
    and "i < length (procs s) \<Longrightarrow>
      handler_order (accepted s) (key_of s) T (flow T X s) (length (procs s)) i (rpc (procs s ! i))"
  using assms by (auto simp: order_inv_def)

lemma comes_after_mono:
  "comes_after A i n u xs \<Longrightarrow> set ys \<subseteq> set xs \<Longrightarrow> (v \<Longrightarrow> u) \<Longrightarrow> comes_after A i n v ys"
  by (auto simp: comes_after_def)

lemma stream_simps [simp]:
  "stream_of T (p\<lparr>rpc := pc\<rparr>) = stream_of T p"
  "stream_of T (p\<lparr>ws := w\<rparr>) = map (\<lambda>m. T (the (Buf m))) (unwritten (wpc p) @ outChan w)"
  "stream_of T (p\<lparr>wpc := pc'\<rparr>) = map (\<lambda>m. T (the (Buf m))) (unwritten pc' @ outChan (ws p))"
  by (simp_all add: stream_of_def)

text \<open>Every number in a flow is that of an accepted frame.\<close>

lemma unwritten_in_hand: "m \<in> set (unwritten pc) \<Longrightarrow> m \<in> set (in_hand pc)"
  by (cases pc) simp_all

lemma flow_accepted:
  assumes sec: "sec_inv T X s" and d: "d < length (procs s)" and x: "x \<in> set (flow T X s d)"
  shows "x < length (accepted s)"
proof -
  have "\<exists>k d'. sealed (accepted s) (key_of s) x k d'"
  proof (cases "x \<in> set (stream_of T (procs s ! d))")
    case True
    then obtain m where "m \<in> outgoing (procs s ! d)" "x = T (the (Buf m))"
      by (auto simp: stream_of_def outgoing_def dest: unwritten_in_hand)
    with sec_invD(2) [OF sec d] show ?thesis by (fastforce simp: proc_sec_def)
  next
    case False
    then have "x \<in> set X" using x by (auto simp: flow_def written_to_def dest: set_zip_rightD)
    then show ?thesis
      using sec_invD(3) [OF sec] by (fastforce simp: in_set_conv_nth list_all2_conv_all_nth out_ok_def)
  qed
  then show ?thesis by (auto simp: sealed_def sent_def)
qed

subsection \<open>Steps that add to no flow\<close>

definition shrinks :: "nat list \<Rightarrow> nat list \<Rightarrow> bool" where
  "shrinks xs ys \<longleftrightarrow> set xs \<subseteq> set ys \<and> (\<forall>P. sorted_wrt P ys \<longrightarrow> sorted_wrt P xs)"

lemma shrinks_intros [simp, intro]:
  "shrinks xs xs" "shrinks xs (x # xs)" "shrinks xs ys \<Longrightarrow> shrinks (us @ xs) (us @ ys)"
  by (auto simp: shrinks_def sorted_wrt_append)

lemma order_inv_shrink:
  assumes ord: "order_inv T X s" and len: "length (procs s') = length (procs s)"
    and A: "accepted s' = accepted s" and K: "key_of s' = key_of s"
    and f: "\<And>d. d < length (procs s) \<Longrightarrow> shrinks (flow T' X' s' d) (flow T X s d)"
    and h: "\<And>i. i < length (procs s) \<Longrightarrow> rpc (procs s' ! i) = rpc (procs s ! i) \<or>
      (distinct (remaining (key_of s) (rpc (procs s ! i))) \<longrightarrow> distinct (remaining (key_of s) (rpc (procs s' ! i)))) \<and>
      (\<forall>b d. reader_buf (rpc (procs s' ! i)) = Some b \<longrightarrow> reader_buf (rpc (procs s ! i)) = Some b \<and>
        (may_reach (key_of s) (rpc (procs s' ! i)) d \<longrightarrow> may_reach (key_of s) (rpc (procs s ! i)) d))"
    and T: "\<And>i b. i < length (procs s) \<Longrightarrow> reader_buf (rpc (procs s ! i)) = Some b \<Longrightarrow> T' b = T b"
  shows "order_inv T' X' s'"
  unfolding order_inv_def len A K
proof (intro conjI allI impI)
  fix d assume "d < length (procs s)"
  with order_invD(1) [OF ord] f show "sorted_wrt (later (accepted s)) (flow T' X' s' d)"
    by (auto simp: shrinks_def)
next
  fix i assume i: "i < length (procs s)"
  let ?pc = "rpc (procs s ! i)" and ?pc' = "rpc (procs s' ! i)"
  note old = order_invD(2) [OF ord i]
  show "handler_order (accepted s) (key_of s) T' (flow T' X' s') (length (procs s)) i ?pc'"
    unfolding handler_order_def
  proof (intro conjI allI impI)
    show "distinct (remaining (key_of s) ?pc')" using h [OF i] old by (auto simp: handler_order_def)
    fix b d assume b: "reader_buf ?pc' = Some b" and d: "d < length (procs s)"
    have pc: "reader_buf ?pc = Some b" "may_reach (key_of s) ?pc' d \<Longrightarrow> may_reach (key_of s) ?pc d"
      using h [OF i] b by auto
    have "comes_after (accepted s) i (T b) (may_reach (key_of s) ?pc d) (flow T X s d)"
      using old pc(1) d by (simp add: handler_order_def)
    then have "comes_after (accepted s) i (T b) (may_reach (key_of s) ?pc' d) (flow T' X' s' d)"
      by (rule comes_after_mono) (use f [OF d] pc(2) in \<open>auto simp: shrinks_def\<close>)
    then show "comes_after (accepted s) i (T' b) (may_reach (key_of s) ?pc' d) (flow T' X' s' d)"
      by (simp add: T [OF i pc(1)])
  qed
qed

text \<open>The same for a step of one goroutine that writes nothing.\<close>

lemma order_inv_one:
  assumes ord: "order_inv T X s" and c: "c < length (procs s)"
    and ps: "procs s' = (procs s)[c := p']" and id: "cpub (ws p') = cpub (ws (procs s ! c))"
    and A: "accepted s' = accepted s" "written s' = written s"
    and f: "shrinks (stream_of T p') (stream_of T (procs s ! c))"
    and h: "rpc p' = rpc (procs s ! c) \<or>
      (distinct (remaining (key_of s) (rpc (procs s ! c))) \<longrightarrow> distinct (remaining (key_of s) (rpc p'))) \<and>
      (\<forall>b d. reader_buf (rpc p') = Some b \<longrightarrow> reader_buf (rpc (procs s ! c)) = Some b \<and>
        (may_reach (key_of s) (rpc p') d \<longrightarrow> may_reach (key_of s) (rpc (procs s ! c)) d))"
  shows "order_inv T X s'"
proof (rule order_inv_shrink [OF ord])
  show "key_of s' = key_of s"
    using c id by (auto simp: fun_eq_iff key_of_def ps nth_list_update ID_def)
  fix i assume "i < length (procs s)"
  then show "shrinks (flow T X s' i) (flow T X s i)"
    using f by (cases "i = c") (auto simp: flow_def ps A(2))
  show "rpc (procs s' ! i) = rpc (procs s ! i) \<or>
    (distinct (remaining (key_of s) (rpc (procs s ! i))) \<longrightarrow> distinct (remaining (key_of s) (rpc (procs s' ! i)))) \<and>
    (\<forall>b d. reader_buf (rpc (procs s' ! i)) = Some b \<longrightarrow> reader_buf (rpc (procs s ! i)) = Some b \<and>
      (may_reach (key_of s) (rpc (procs s' ! i)) d \<longrightarrow> may_reach (key_of s) (rpc (procs s ! i)) d))"
    using h c by (cases "i = c") (simp_all add: ps)
qed (simp_all add: ps A)

subsection \<open>The handler's steps\<close>

lemma handle_start_order:
  assumes ord: "order_inv T X s" and sec: "sec_inv T X s" and inv: "sys_inv s" and c: "c < length (procs s)"
    and pc: "rpc (procs s ! c) = RHandle b t" and step: "handle_start c b t s = Inr s'"
  shows "order_inv T X s'"
proof -
  obtain tos payload where msg: "content_of (memory s) b = Some (build_message (key_of s c) tos payload)"
    and fo: "frame_ok (int MaxMessageSize) tos payload"
    by (rule sec_inv_handle [OF sec c pc])
  note ok = frame_ok_parts [OF fo sys_invD(4) [OF inv c]]
  let ?ts = "targets_of (build_message (key_of s c) tos payload) (key_of s c)"
  have "distinct ?ts"
    using fo unfolding targets_of_build [OF ok] by (simp add: frame_ok_def distinct_take)
  moreover define pc' where "pc' = (if ?ts = [] then RRelease b else RRoute b t ?ts 0)"
  moreover have "procs s' = (procs s)[c := (procs s ! c)\<lparr>rpc := pc'\<rparr>]"
    "accepted s' = accepted s" "written s' = written s"
    using handle_start_inv [OF inv c pc msg] step by (auto simp: Let_def pc'_def)
  ultimately show ?thesis
    by (intro order_inv_one [OF ord c, of s' "(procs s ! c)\<lparr>rpc := pc'\<rparr>"]) (auto simp: pc)
qed

text \<open>
  A push is the one step that adds to a flow: the frame's number, which is above those of its sender
  already there, to the flow of a connection whose key is then no longer among the remaining ones.
\<close>

lemma push_step_order:
  assumes ord: "order_inv T X s" and sec: "sec_inv T X s" and inv: "sys_inv s" and c: "c < length (procs s)"
    and pc: "rpc (procs s ! c) = RRetained b t d ts k" and step: "push_step c b t d ts k s = Inr s'"
  shows "order_inv T X s'"
proof -
  have d: "d < length (procs s)" using sys_invD(6) [OF inv c] pc by simp
  let ?m = "\<lparr>RecvTime = t, Buf = Some b\<rparr>" and ?A = "accepted s" and ?K = "key_of s" and ?n = "length (procs s)"
  obtain ok w where push: "SafePush ?m (ws (procs s ! d)) = Inr (ok, w)"
    and s': "s' = set_rpc c (if ok then RRoute b t ts (k + 1) else RUndo b t ts k) (set_ws d w s)"
    using step d by (auto simp: push_step_def bind_res_eq_Inr)
  have w: "cpub w = cpub (ws (procs s ! d))" "outChan w = outChan (ws (procs s ! d)) @ (if ok then [?m] else [])"
    using push by (cases ok; auto dest: SafePush_True SafePush_False)+
  have len: "length (procs s') = ?n" and A: "accepted s' = ?A" by (simp_all add: s')
  have key: "key_of s' = ?K"
    using c d w by (auto simp: fun_eq_iff s' key_of_def ID_def nth_list_update)
  have flows: "flow T X s' j = flow T X s j @ (if j = d \<and> ok then [T b] else [])" if "j < ?n" for j
    using c d w that by (auto simp: s' flow_def stream_of_def nth_list_update)
  obtain tos payload where "sent ?A (T b) c tos payload"
    using sec_invD(2) [OF sec c] pc by (auto simp: proc_sec_def routing_def)
  then have from_c: "sender ?A (T b) = c" by (simp add: sender_def sent_def)
  note mine = order_invD(2) [OF ord c, unfolded pc handler_order_def, simplified]
  show ?thesis
    unfolding order_inv_def len A key
  proof (intro conjI allI impI)
    fix j assume j: "j < ?n"
    show "sorted_wrt (later ?A) (flow T X s' j)"
      using order_invD(1) [OF ord j] mine d from_c
      by (auto simp: flows [OF j] sorted_wrt_append comes_after_def later_def order_less_le)
  next
    fix i assume i: "i < ?n"
    show "handler_order ?A ?K T (flow T X s') ?n i (rpc (procs s' ! i))"
    proof (cases "i = c")
      case True
      then have "rpc (procs s' ! i) = (if ok then RRoute b t ts (k + 1) else RUndo b t ts k)"
        using c by (simp add: s')
      then show ?thesis using mine True by (auto simp: handler_order_def flows comes_after_def)
    next
      case False
      then have "rpc (procs s' ! i) = rpc (procs s ! i)"
        using i by (cases "i = d") (simp_all add: s')
      then show ?thesis
        using order_invD(2) [OF ord i] False from_c
        by (auto simp: handler_order_def flows comes_after_def)
    qed
  qed
qed

lemma remaining_moves:
  assumes "moves reg pc pc'" and "\<And>k d. reg k = Some d \<Longrightarrow> K d = k"
  shows "(distinct (remaining K pc) \<longrightarrow> distinct (remaining K pc')) \<and> (may_reach K pc' d \<longrightarrow> may_reach K pc d)"
  using assms by (induction rule: moves.induct) auto

lemma remaining_outside: "reader_buf pc = None \<Longrightarrow> remaining K pc = []"
  by (cases pc) simp_all

lemma stream_outside: "outside p p' \<Longrightarrow> stream_of T p' = stream_of T p"
  by (auto simp: outside_def stream_of_def)

lemma reader_step_order:
  assumes ord: "order_inv T X s" and sec: "sec_inv T X s" and inv: "sys_inv s" and c: "c < length (procs s)"
    and step: "reader_step c s = Some (Inr s')"
  shows "order_inv T X s'"
proof -
  have kept: "accepted s' = accepted s" "written s' = written s" using reader_step_keeps [OF step] by simp_all
  from inv c step show ?thesis
  proof (cases rule: reader_step_cases)
    case handle
    with handle_start_order [OF ord sec inv c] show ?thesis by simp
  next
    case (retain b t d ts k)
    from kept retain(1) retain(2) [symmetric] show ?thesis
      by (intro order_inv_one [OF ord c, of _ "(procs s ! c)\<lparr>rpc := RRetained b t d ts k\<rparr>"])
         (auto simp: retain_step_def bind_res_eq_Inr)
  next
    case push
    with push_step_order [OF ord sec inv c] show ?thesis by simp
  next
    case (release b t ts k pc)
    from kept release(1) release(2) [symmetric] show ?thesis
      by (intro order_inv_one [OF ord c, of _ "(procs s ! c)\<lparr>rpc := pc\<rparr>"])
         (auto simp: release_step_def bind_res_eq_Inr)
  next
    case (routed s1 pc)
    have "distinct (remaining (key_of s) (rpc (procs s ! c))) \<longrightarrow> distinct (remaining (key_of s) pc)"
      "may_reach (key_of s) pc d \<longrightarrow> may_reach (key_of s) (rpc (procs s ! c)) d" for d
      using remaining_moves [OF routed(2), of "key_of s"] sys_invD(5) [OF inv] by blast+
    with routed moves_holds [OF routed(2)] kept show ?thesis
      by (intro order_inv_one [OF ord c, of _ "(procs s ! c)\<lparr>rpc := pc\<rparr>"]) simp_all
  next
    case (outside s1 p')
    with stream_outside [OF outside(2)] kept show ?thesis
      by (intro order_inv_one [OF ord c, of _ p']) (simp_all add: remaining_outside outside_def)
  qed
qed

subsection \<open>The pump's steps and the environment's\<close>

lemma writer_recv_order:
  assumes ord: "order_inv T X s" and c: "c < length (procs s)"
    and pc: "wpc (procs s ! c) = WRecv \<and> pc' = WWrite \<or> wpc (procs s ! c) = WDrain \<and> pc' = WDrainRelease"
    and step: "writer_recv c pc' s = Some (Inr s')"
  shows "order_inv T X s'"
proof (cases "outChan (ws (procs s ! c))")
  case Nil
  then show ?thesis
    using step pc by (intro order_inv_one [OF ord c, of _ "(procs s ! c)\<lparr>wpc := WDone\<rparr>"])
      (auto simp: writer_recv_def recv_def stream_of_def split: if_splits)
next
  case (Cons m q)
  then show ?thesis
    using step pc c
    by (intro order_inv_one [OF ord c, of _ "(procs s ! c)\<lparr>ws := (ws (procs s ! c))\<lparr>outChan := q\<rparr>, wpc := pc' m\<rparr>"])
       (auto simp: writer_recv_def recv_def stream_of_def)
qed

lemma writer_step_order:
  assumes ord: "order_inv T X s" and c: "c < length (procs s)" and step: "writer_step c s = Some (Inr s')"
  shows "order_inv T X s'"
proof -
  have moved: "order_inv T X s'" if "procs s' = (procs s)[c := p']" "cpub (ws p') = cpub (ws (procs s ! c))"
    "outChan (ws p') = outChan (ws (procs s ! c))" "unwritten (wpc p') = unwritten (wpc (procs s ! c))"
    "rpc p' = rpc (procs s ! c)" for p'
    using writer_step_keeps [OF step] that
    by (intro order_inv_one [OF ord c that(1,2)]) (auto simp: stream_of_def)
  show ?thesis
  proof (cases "wpc (procs s ! c)")
    case WRecv
    with writer_recv_order [OF ord c, of WWrite] step show ?thesis by (simp add: writer_step_def)
  next
    case WDrain
    with writer_recv_order [OF ord c, of WDrainRelease] step show ?thesis by (simp add: writer_step_def)
  next
    case (WRelease m good)
    with step show ?thesis
      by (intro moved [of "(procs s ! c)\<lparr>wpc := if good then WSuccess m else WFail\<rparr>"])
         (auto simp: writer_step_def writer_release_def bind_res_eq_Inr)
  next
    case (WDrainRelease m)
    with step show ?thesis
      by (intro moved [of "(procs s ! c)\<lparr>wpc := WDrain\<rparr>"]) (auto simp: writer_step_def writer_release_def bind_res_eq_Inr)
  next
    case (WSuccess m)
    with step show ?thesis by (intro moved [of "(procs s ! c)\<lparr>wpc := WLatency m\<rparr>"]) (auto simp: writer_step_def)
  next
    case WFail
    with step show ?thesis by (intro moved [of "(procs s ! c)\<lparr>wpc := WClose\<rparr>"]) (auto simp: writer_step_def)
  next
    case WClose
    then obtain w where w: "Close_conn (ws (procs s ! c)) = Inr w" "s' = set_wpc c WDrain (set_ws c w s)"
      using step by (auto simp: writer_step_def bind_res_eq_Inr)
    with Close_conn_Inr [OF w(1)] c WClose show ?thesis
      by (intro moved [of "(procs s ! c)\<lparr>ws := w, wpc := WDrain\<rparr>"]) auto
  qed (use step in \<open>simp_all add: writer_step_def\<close>)
qed

text \<open>A message that is written moves from the part of its flow that is to be written to the part that is.\<close>

lemma write_done_order:
  assumes ord: "order_inv T X s" and sec: "sec_inv T X s" and c: "c < length (procs s)"
    and step: "write_done c good s = Some (Inr s')"
  shows "order_inv T (origins s s' T X) s'"
proof -
  obtain m bs where pc: "wpc (procs s ! c) = WWrite m"
    and s': "s' = set_wpc c (WRelease m good) (log_write c good bs s)"
    using step by (auto simp: write_done_def bind_res_eq_Inr split: wpc.splits)
  have X': "origins s s' T X = X @ [T (the (Buf m))]" by (simp add: origins_def s' hand_tags_def pc)
  have len: "length X = length (written s)" using list_all2_lengthD [OF sec_invD(3) [OF sec]] .
  have "flow T (X @ [T (the (Buf m))]) s' d = flow T X s d" for d
    using c pc len by (cases "d = c") (simp_all add: flow_def s' written_to_def stream_of_def)
  then show ?thesis
    unfolding X'
    by (intro order_inv_shrink [OF ord])
       (use c in \<open>auto simp: s' key_of_def nth_list_update fun_eq_iff\<close>)
qed

text \<open>An accepted frame has a number above all others.\<close>

lemma read_accepted_order:
  assumes ord: "order_inv T X s" and sec: "sec_inv T X s" and inv: "sys_inv s" and c: "c < length (procs s)"
    and pc: "rpc (procs s ! c) = RReading"
    and s': "accepted s' = accepted s @ [(c, ids, body)]" "written s' = written s"
      "procs s' = (procs s)[c := (procs s ! c)\<lparr>rpc := RHandle (next_buf (memory s)) t\<rparr>]"
  shows "order_inv (tags s s' T) X s'"
proof -
  let ?A = "accepted s" and ?K = "key_of s" and ?b = "next_buf (memory s)" and ?n = "length (procs s)"
  let ?T = "tags s s' T"
  have T': "?T = T(?b := length ?A)" by (simp add: tags_def s'(1))
  have fresh: "weight ?b (procs s ! j) = 0" if "j < ?n" for j
    using owners_ge [OF that, of ?b] mem_invD(3) [OF sys_invD(1) [OF inv], of ?b] by simp
  have "?T (the (Buf m)) = T (the (Buf m))" if m: "m \<in> outgoing (procs s ! j)" and j: "j < ?n" for m j
  proof -
    obtain b where "Buf m = Some b" using sec_invD(2) [OF sec j] m by (auto simp: proc_sec_def)
    with outgoing_weight [OF m] fresh [OF j] show ?thesis by (auto simp: T')
  qed
  then have flows: "flow ?T X s' j = flow T X s j" if "j < ?n" for j
    using that c by (cases "j = c") (auto simp: flow_def s' stream_of_def outgoing_def dest: unwritten_in_hand)
  have low: "x < length ?A" if "x \<in> set (flow T X s j)" "j < ?n" for x j
    by (rule flow_accepted [OF sec that(2,1)])
  have snd: "sender (accepted s') x = sender ?A x" if "x < length ?A" for x
    using that by (simp add: sender_def s'(1) nth_append)
  have key: "key_of s' = ?K" using c by (auto simp: fun_eq_iff s'(3) key_of_def nth_list_update)
  have len: "length (procs s') = ?n" by (simp add: s'(3))
  have old: "handler_order (accepted s') ?K ?T (flow ?T X s') ?n i (rpc (procs s ! i))" if i: "i < ?n" for i
  proof -
    have "?T b = T b" if "reader_buf (rpc (procs s ! i)) = Some b" for b
      using weight_reader [OF that] fresh [OF i] by (auto simp: T')
    then show ?thesis
      using order_invD(2) [OF ord i] low snd by (auto simp: handler_order_def comes_after_def flows)
  qed
  show ?thesis
    unfolding order_inv_def len key
  proof (intro conjI allI impI)
    fix j assume j: "j < ?n"
    have "sorted_wrt (later (accepted s')) (flow T X s j)"
      by (rule sorted_wrt_mono_rel [OF _ order_invD(1) [OF ord j]]) (use low [OF _ j] snd in \<open>auto simp: later_def\<close>)
    then show "sorted_wrt (later (accepted s')) (flow ?T X s' j)" by (simp add: flows [OF j])
  next
    fix i assume i: "i < ?n"
    show "handler_order (accepted s') ?K ?T (flow ?T X s') ?n i (rpc (procs s' ! i))"
    proof (cases "i = c")
      case True
      have "comes_after (accepted s') c (length ?A) True (flow T X s j)" if "j < ?n" for j
        using low [OF _ that] by (auto simp: comes_after_def less_imp_le)
      moreover have "?T ?b = length ?A" by (simp add: T')
      ultimately show ?thesis using True c by (simp add: s'(3) handler_order_def flows)
    qed (use old [OF i] in \<open>simp add: s'(3)\<close>)
  qed
qed

lemma read_frame_order:
  assumes ord: "order_inv T X s" and sec: "sec_inv T X s" and inv: "sys_inv s" and c: "c < length (procs s)"
    and step: "read_frame read malloc c r t s = Some (Inr s')"
    and rd: "io_reader read stream ending patience" "patience r = 0" and mal: "malloc_ok malloc"
  shows "order_inv (tags s s' T) X s'"
proof -
  have pc: "rpc (procs s ! c) = RReading" and wr: "written s' = written s"
    and res: "case decode_frame (int MaxMessageSize) (stream r) (ending r) of
         Inl e \<Rightarrow> accepted s' = accepted s \<and> procs s' = (procs s)[c := (procs s ! c)\<lparr>rpc := after_error e\<rparr>]
       | Inr (ids, body) \<Rightarrow>
           accepted s' = accepted s @ [(c, ids, body)] \<and>
           procs s' = (procs s)[c := (procs s ! c)\<lparr>rpc := RHandle (next_buf (memory s)) t\<rparr>]"
    using read_frame_inv [OF inv c step rd mal refl] by (auto split: sum.splits)
  show ?thesis
  proof (cases "decode_frame (int MaxMessageSize) (stream r) (ending r)")
    case (Inl e)
    have "remaining (key_of s) (after_error e) = []" by (simp add: after_error_def split: err.split)
    with Inl res wr show ?thesis
      by (simp, intro order_inv_one [OF ord c, of _ "(procs s ! c)\<lparr>rpc := after_error e\<rparr>"])
         (auto simp: after_error_simps)
  next
    case (Inr x)
    with res wr read_accepted_order [OF ord sec inv c pc] show ?thesis by (cases x) simp
  qed
qed

lemma accept_order:
  assumes ord: "order_inv T X s" and sec: "sec_inv T X s" and inv: "sys_inv s"
  shows "order_inv T X (s\<lparr>procs := procs s @ [\<lparr>ws = new_wsconn k n, rpc = RNew, wpc = WNone\<rparr>]\<rparr>)"
    (is "order_inv T X ?s")
proof -
  let ?A = "accepted s" and ?n = "length (procs s)"
  have key: "key_of ?s j = key_of s j" if "j < ?n" for j
    using that by (simp add: key_of_def nth_append)
  have "\<forall>j < length (written s). fst (written s ! j) < ?n"
    using sec_invD(3) [OF sec] by (simp add: list_all2_conv_all_nth out_ok_def)
  then have "e < ?n" if "(e, x) \<in> set (zip (map fst (written s)) X)" for e x
    using set_zip_leftD [OF that] by (fastforce simp: in_set_conv_nth)
  then have "written_to X (written s) ?n = []" by (fastforce simp: written_to_def filter_empty_conv)
  then have new: "flow T X ?s ?n = []" by (simp add: flow_def stream_of_def new_wsconn_def Let_def)
  have old: "flow T X ?s j = flow T X s j" if "j < ?n" for j using that by (simp add: flow_def nth_append)
  have "sorted_wrt (later ?A) (flow T X ?s j)" if "j < Suc ?n" for j
    using that order_invD(1) [OF ord, of j] new old [of j] by (cases "j = ?n") simp_all
  moreover have "handler_order ?A (key_of ?s) T (flow T X ?s) (Suc ?n) i (rpc (procs ?s ! i))" if "i < Suc ?n" for i
  proof (cases "i = ?n")
    case False
    then have i: "i < ?n" using that by simp
    have "remaining (key_of ?s) (rpc (procs s ! i)) = remaining (key_of s) (rpc (procs s ! i))"
      using sys_invD(6) [OF inv i] key by (cases "rpc (procs s ! i)") auto
    moreover have "may_reach (key_of ?s) (rpc (procs s ! i)) j = may_reach (key_of s) (rpc (procs s ! i)) j" if "j < ?n" for j
      using sys_invD(6) [OF inv i] key that by (cases "rpc (procs s ! i)") auto
    ultimately show ?thesis
      using order_invD(2) [OF ord i] i new old
      by (auto simp: handler_order_def nth_append less_Suc_eq comes_after_def)
  qed (simp add: handler_order_def)
  ultimately show ?thesis by (simp add: order_inv_def)
qed

lemma exec_order:
  assumes inv: "sys_inv s" and sec: "sec_inv T X s" and ord: "order_inv T X s"
    and env: "calm_reader read stream ending" "malloc_ok malloc" and step: "exec read malloc a s = Some (Inr s')"
  shows "order_inv (tags s s' T) (origins s s' T X) s'"
proof -
  have app_only: "order_inv T X (s\<lparr>app := x\<rparr>)" for x
    using ord by (simp add: order_inv_def key_of_def [abs_def] flow_def [abs_def])
  show ?thesis
  proof (cases a)
    case (Accept k n)
    with step accept_order [OF ord sec inv, of k n] show ?thesis by (auto split: if_splits)
  next
    case (ReadError c)
    then have c: "c < length (procs s)" and s': "s' = set_rpc c RDisconnect s"
      using step by (auto split: if_splits)
    then have "order_inv T X s'"
      by (intro order_inv_one [OF ord c, of _ "(procs s ! c)\<lparr>rpc := RDisconnect\<rparr>"]) simp_all
    then show ?thesis by (simp add: s')
  next
    case (ReadText c)
    with step ord show ?thesis by (auto split: if_splits)
  next
    case (ReadFrame c r t)
    with step read_frame_order [OF ord sec inv _ _ env(1) [unfolded calm_reader_def] refl env(2)]
      read_frame_sec(2) [OF sec inv _ _ env(1) [unfolded calm_reader_def] refl env(2)] show ?thesis
      by (simp split: if_splits)
  next
    case (Reader c)
    with step reader_step_order [OF ord sec inv] reader_step_keeps [of c s s'] show ?thesis by (simp split: if_splits)
  next
    case (Writer c)
    with step writer_step_order [OF ord] writer_step_keeps [of c s s'] show ?thesis by (simp split: if_splits)
  next
    case (WriteDone c good)
    with step write_done_order [OF ord sec] write_done_keeps [of c good s s'] show ?thesis by (simp split: if_splits)
  next
    case (Latency c d)
    then have c: "c < length (procs s)" using step by (auto split: if_splits)
    obtain m a' where pc: "wpc (procs s ! c) = WLatency m" and s': "s' = set_wpc c WRecv (s\<lparr>app := a'\<rparr>)"
      using step Latency c by (auto simp: record_latency_def bind_res_eq_Inr split: wpc.splits)
    then have "order_inv T X s'"
      by (intro order_inv_one [OF ord c, of _ "(procs s ! c)\<lparr>wpc := WRecv\<rparr>"]) (simp_all add: stream_of_def)
    then show ?thesis by (simp add: s')
  next
    case LatencyTake
    with step app_only show ?thesis by auto
  next
    case CloseApp
    with step app_only show ?thesis by (auto split: if_splits)
  qed
qed

lemma reachable_order:
  assumes "reachable read malloc (init_sys t F) s" and "calm_reader read stream ending" and "malloc_ok malloc"
  obtains T X where "sec_inv T X s" "order_inv T X s"
proof (rule reachable_ghosts [OF assms, where P = order_inv])
  show "order_inv (\<lambda>b. 0) [] (init_sys t F)" by (simp add: order_inv_def init_sys_def)
qed (rule exec_order [OF _ _ _ assms(2,3)])

end
