(* ===== verification/Relay_Safety.thy ===== *)
theory Relay_Safety
  imports Relay_Runs
begin

section \<open>No panics, and no buffer used after its last release\<close>

text \<open>
  Some misuse of a buffer is not a panic: reading a freed one gives an empty slice, and \<open>Retain\<close> counts
  on without looking. So the theorem about panics also states which buffers a step uses, that all of
  them are in use, and that nothing is done to any other.
\<close>

subsection \<open>The buffers a step uses\<close>

text \<open>Those a handler reads, rewrites, retains, pushes or releases at a program counter.\<close>

fun handler_touches :: "rpc \<Rightarrow> baddr list" where
  "handler_touches (RHandle b t) = [b]"
| "handler_touches (RLooked b t d ts k) = [b]"
| "handler_touches (RRetained b t d ts k) = [b]"
| "handler_touches (RUndo b t ts k) = [b]"
| "handler_touches (RRelease b) = [b]"
| "handler_touches _ = []"

definition buffer_of :: "out_message \<Rightarrow> baddr list" where
  "buffer_of m = (case Buf m of None \<Rightarrow> [] | Some b \<Rightarrow> [b])"

text \<open>Those a write pump reads while it writes, or releases.\<close>

fun pump_touches :: "wpc \<Rightarrow> baddr list" where
  "pump_touches (WRelease m ok) = buffer_of m"
| "pump_touches (WDrainRelease m) = buffer_of m"
| "pump_touches _ = []"

fun write_touches :: "wpc \<Rightarrow> baddr list" where
  "write_touches (WWrite m) = buffer_of m"
| "write_touches _ = []"

fun touched :: "'r action \<Rightarrow> 'f sys \<Rightarrow> baddr list" where
  "touched (Reader c) s = handler_touches (rpc (procs s ! c))"
| "touched (Writer c) s = pump_touches (wpc (procs s ! c))"
| "touched (WriteDone c ok) s = write_touches (wpc (procs s ! c))"
| "touched _ s = []"

fun retained :: "'r action \<Rightarrow> 'f sys \<Rightarrow> baddr list" where
  "retained (Reader c) s = (case rpc (procs s ! c) of RLooked b t d ts k \<Rightarrow> [b] | _ \<Rightarrow> [])"
| "retained _ s = []"

text \<open>A buffer with at least one reference.\<close>

definition in_use :: "mem \<Rightarrow> baddr \<Rightarrow> bool" where
  "in_use h b \<longleftrightarrow> (case refs_of h b of None \<Rightarrow> False | Some n \<Rightarrow> 0 < n)"

text \<open>A buffer whose count has room for one more reference.\<close>

definition retainable :: "mem \<Rightarrow> baddr \<Rightarrow> bool" where
  "retainable h b \<longleftrightarrow> (case refs_of h b of None \<Rightarrow> False | Some n \<Rightarrow> n \<le> int MaxTargetsPerMessage)"

lemma set_buffer_of: "b \<in> set (buffer_of m) \<longleftrightarrow> Buf m = Some b"
  by (auto simp: buffer_of_def split: option.splits)

lemma weight_pump: "Buf m = Some b \<Longrightarrow> m \<in> set (in_hand (wpc p)) \<Longrightarrow> 0 < weight b p"
  by (auto simp: weight_def held_def filter_empty_conv)

lemma held_in_use: "sys_inv s \<Longrightarrow> c < length (procs s) \<Longrightarrow> 0 < weight b (procs s ! c) \<Longrightarrow> in_use (memory s) b"
  using held_owner(2,3) sys_invD(1) by (fastforce simp: in_use_def)

lemma touched_in_use:
  assumes inv: "sys_inv s" and step: "exec read malloc a s = Some out"
  shows "list_all (in_use (memory s)) (touched a s)"
proof (cases a)
  case (Reader c)
  with step have "c < length (procs s)" by (auto split: if_splits)
  then show ?thesis using Reader held_in_use [OF inv _ weight_reader] by (cases "rpc (procs s ! c)") simp_all
next
  case (Writer c)
  with step have "c < length (procs s)" by (auto split: if_splits)
  then show ?thesis using Writer held_in_use [OF inv _ weight_pump]
    by (cases "wpc (procs s ! c)") (simp_all add: list_all_iff set_buffer_of)
next
  case (WriteDone c good)
  with step have "c < length (procs s)" by (auto split: if_splits)
  then show ?thesis using WriteDone held_in_use [OF inv _ weight_pump]
    by (cases "wpc (procs s ! c)") (simp_all add: list_all_iff set_buffer_of)
qed simp_all

lemma retained_retainable:
  assumes inv: "sys_inv s" and step: "exec read malloc a s = Some out"
  shows "list_all (retainable (memory s)) (retained a s)"
proof (cases a)
  case (Reader c)
  with step have c: "c < length (procs s)" by (auto split: if_splits)
  show ?thesis
  proof (cases "rpc (procs s ! c)")
    case (RLooked b t d ts k)
    then have "reader_buf (rpc (procs s ! c)) = Some b" by simp
    with mem_invD(5) [OF sys_invD(1) [OF inv] c this] held_owner(2) [OF sys_invD(1) [OF inv] c weight_reader [OF this]]
    show ?thesis using Reader RLooked by (simp add: retainable_def)
  qed (use Reader in simp_all)
qed simp_all

subsection \<open>Nothing happens to the others\<close>

lemma Release_frame: "Release b h = Inr h' \<Longrightarrow> b' \<noteq> b \<Longrightarrow> content_of h' b' = content_of h b'"
  by (auto simp: Release_def Release_linux_def Release_other_def content_of_def Let_def
      split: build_target.splits option.splits if_splits)

lemma reader_frame:
  assumes inv: "sys_inv s" and c: "c < length (procs s)" and step: "reader_step c s = Some (Inr s')"
    and b: "b \<notin> set (handler_touches (rpc (procs s ! c)))"
  shows "content_of (memory s') b = content_of (memory s) b"
  using inv c step
proof (cases rule: reader_step_cases)
  case (handle b' t)
  obtain msg where "content_of (memory s) b' = Some msg"
    using held_content [OF sys_invD(1) [OF inv] c weight_reader] handle by fastforce
  with handle_start_inv [OF inv c handle(1)] handle b show ?thesis by (auto simp: Let_def)
next
  case retain
  with retain_step_inv [OF inv c retain(1)] show ?thesis by auto
next
  case push
  with push_step_inv [OF inv c push(1)] show ?thesis by auto
next
  case (release b' t ts k pc)
  from release(1) release(2) [symmetric] b Release_frame [of b' "memory s" _ b] show ?thesis
    by (auto simp: release_step_def bind_res_eq_Inr)
qed simp_all

lemma writer_frame:
  assumes step: "writer_step c s = Some (Inr s')" and b: "b \<notin> set (pump_touches (wpc (procs s ! c)))"
  shows "content_of (memory s') b = content_of (memory s) b"
  using assms Release_frame [of _ "memory s" _ b]
  by (cases "wpc (procs s ! c)")
     (auto simp: writer_step_def writer_recv_def writer_release_def drop_ref_def set_buffer_of bind_res_eq_Inr
       split: received.splits prod.splits option.splits)

lemma exec_frame:
  assumes inv: "sys_inv s" and env: "calm_reader read stream ending" "malloc_ok malloc"
    and step: "exec read malloc a s = Some (Inr s')" and b: "b < next_buf (memory s)" "b \<notin> set (touched a s)"
  shows "content_of (memory s') b = content_of (memory s) b"
proof (cases a)
  case (Reader c)
  with step reader_frame [OF inv] b(2) show ?thesis by (simp split: if_splits)
next
  case (Writer c)
  with step writer_frame b(2) show ?thesis by (simp split: if_splits)
next
  case (WriteDone c good)
  with step write_done_inv [OF inv] show ?thesis by (fastforce split: if_splits)
next
  case (Latency c d)
  with step show ?thesis by (auto simp: record_latency_def bind_res_eq_Inr split: if_splits wpc.splits)
next
  case (ReadFrame c r t)
  then have "c < length (procs s)" "read_frame read malloc c r t s = Some (Inr s')" using step by (auto split: if_splits)
  from read_frame_inv [OF inv this env(1) [unfolded calm_reader_def] refl env(2) refl] b(1) show ?thesis
    by (auto split: sum.splits)
qed (use step in \<open>auto split: if_splits\<close>)

subsection \<open>Properties\<close>

text \<open>Alice's message is on its way to Bob: his pump is writing it.\<close>

lemma hello_pumping:
  obtains s m b where "reachable busy_read bump_malloc (init_sys OtherTarget no_floats) s" and "1 < length (procs s)"
    and "wpc (procs s ! 1) = WWrite m" and "Buf m = Some b" and "\<not> latencyChClosed (app s)"
    and "content_of (memory s) b = Some (build_message alice [zero_key] [104, 105])"
proof -
  let ?s = "connected OtherTarget" and ?b = "next_buf (memory (connected OtherTarget))"
  have reach: "reachable busy_read bump_malloc (init_sys OtherTarget no_floats) ?s" by (rule connected_reachable)
  have r: "receives ?s 0 [bob] 1" by (simp add: receives_def)
  have idle: "0 < length (procs ?s)" "rpc (procs ?s ! 0) = RReading" "1 < length (procs ?s)" by simp_all
  obtain n s1 where
    s1: "exec_all busy_read bump_malloc (ReadFrame 0 hello 7 # replicate n (Reader 0)) ?s = Some (Inr s1)"
    "map wpc (procs s1) = map wpc (procs ?s)"
    "outChan (ws (procs s1 ! 1)) = outChan (ws (procs ?s ! 1)) @ [\<lparr>RecvTime = 7, Buf = Some ?b\<rparr>]"
    "content_of (memory s1) ?b = Some (build_message (key_of ?s 0) (replicate (length [bob]) zero_key) [104, 105])"
    by (rule deliver_run_to [OF reach idle(1,2) busy_calm bump_malloc_ok _ hello_frame r idle(3), where t = 7])
       (simp add: bump_total)
  let ?m = "\<lparr>RecvTime = 7, Buf = Some ?b\<rparr>"
  have q: "outChan (ws (procs s1 ! 1)) = [?m]" using s1(3) by simp
  have pc: "1 < length (procs s1)" "wpc (procs s1 ! 1) = WRecv"
    using arg_cong [OF s1(2), of length] arg_cong [OF s1(2), of "\<lambda>xs. xs ! 1"] by simp_all
  let ?s2 = "set_wpc 1 (WWrite ?m) (set_ws 1 ((ws (procs s1 ! 1))\<lparr>outChan := []\<rparr>) s1)"
  have "exec busy_read bump_malloc (Writer 1) s1 = Some (Inr ?s2)"
    using pc q by (simp add: writer_step_def writer_recv_def recv_def)
  from reachable.step [OF exec_all_reachable [OF s1(1) reach] this]
  have "reachable busy_read bump_malloc (init_sys OtherTarget no_floats) ?s2" .
  moreover have "\<not> latencyChClosed (app s1)"
    by (rule open_run [OF s1(1) _ _ reachable_inv [OF reach busy_calm bump_malloc_ok] busy_calm bump_malloc_ok]) auto
  ultimately show thesis using pc s1(4) by (intro that [of ?s2 ?m ?b]) simp_all
qed

text \<open>
  C1 (safety): until the application is closed, no step of any handler, write pump or client, in any
  interleaving, panics: no buffer is released twice, nothing is sent on a closed channel, no channel
  is closed twice, no slice or array is indexed out of range, whatever bytes the clients send; the one
  exception is an allocator that is out of memory. And no buffer is misused without a panic: every
  buffer a step reads, rewrites, retains, pushes or releases has a reference when it does, a buffer that
  is retained has at most \<open>MaxTargetsPerMessage\<close>, so its 32-bit count does not overflow, and the
  contents of all others stay as they are.
\<close>

theorem server_never_panics:
  assumes "reachable read malloc (init_sys t F) s" and "calm_reader read stream ending" and "malloc_ok malloc"
    and "\<not> latencyChClosed (app s)" and "exec read malloc a s = Some out"
  shows "((\<exists>s'. out = Inr s') \<or> out = Inl OutOfMemory) \<and>
    list_all (in_use (memory s)) (touched a s) \<and> list_all (retainable (memory s)) (retained a s) \<and>
    (\<forall>s' b. out = Inr s' \<and> b < next_buf (memory s) \<and> b \<notin> set (touched a s) \<longrightarrow>
      content_of (memory s') b = content_of (memory s) b)"
proof -
  have inv: "sys_inv s" by (rule reachable_inv [OF assms(1-3)])
  have "(\<exists>s'. out = Inr s') \<or> out = Inl OutOfMemory" using exec_inv [OF inv assms(2,3,5)] assms(4) by blast
  then show ?thesis
    using touched_in_use [OF inv assms(5)] retained_retainable [OF inv assms(5)] exec_frame [OF inv assms(2,3)] assms(5)
    by (intro conjI allI impI) auto
qed

theorem server_never_panics_witness:
  "\<exists>(s :: unit sys) b s'. touched (WriteDone 1 True) s = [b] \<and> in_use (memory s) b \<and>
    exec busy_read bump_malloc (WriteDone 1 True) s = Some (Inr s') \<and> wpc (procs s ! 1) \<noteq> wpc (procs s' ! 1)"
proof -
  obtain s :: "unit sys" and m b where s: "reachable busy_read bump_malloc (init_sys OtherTarget no_floats) s"
    "1 < length (procs s)" "wpc (procs s ! 1) = WWrite m" "Buf m = Some b" "\<not> latencyChClosed (app s)" by (rule hello_pumping)
  obtain out where out: "exec busy_read bump_malloc (WriteDone 1 True) s = Some out"
    using s(2,3) by (simp add: write_done_def)
  note safe = server_never_panics [OF s(1) busy_calm bump_malloc_ok s(5) out]
  have "out \<noteq> Inl OutOfMemory"
    using write_done_inv [OF reachable_inv [OF s(1) busy_calm bump_malloc_ok] s(2), of True out] out s(2) by auto
  with safe obtain s' where s': "out = Inr s'" by blast
  have "touched (WriteDone 1 True) s = [b]" using s(3,4) by (simp add: buffer_of_def)
  moreover have "wpc (procs s' ! 1) = WRelease m True"
    using out s' s(2,3) by (auto simp: write_done_def bind_res_eq_Inr)
  ultimately show ?thesis using safe out s' s(3) by (intro exI [of _ s] exI [of _ b] exI [of _ s']) simp
qed

text \<open>
  C4 (invariant): in every state the server can reach, the reference count of every buffer is exactly
  the number of references to it in the connectors' queues, the handlers and the write pumps, so a
  buffer is freed exactly when nobody can touch it any more.
\<close>

theorem refs_are_owners:
  assumes "reachable read malloc (init_sys t F) s" and "calm_reader read stream ending" and "malloc_ok malloc"
  shows "refs_of (memory s) b =
    (if b < next_buf (memory s)
     then Some (int (\<Sum>p \<leftarrow> procs s. held b (outChan (ws p)) + rhold b (rpc p) + held b (in_hand (wpc p))))
     else None)"
proof -
  have "mem_inv (memory s) (procs s)" using reachable_inv [OF assms] by (simp add: sys_inv_def)
  then show ?thesis using mem_invD(7) by (simp add: owners_def weight_def [abs_def])
qed

theorem refs_are_owners_witness:
  "\<exists>(s :: unit sys) m b. wpc (procs s ! 1) = WWrite m \<and> Buf m = Some b \<and>
    content_of (memory s) b = Some (build_message alice [zero_key] [104, 105]) \<and>
    refs_of (memory s) b =
      Some (int (\<Sum>p \<leftarrow> procs s. held b (outChan (ws p)) + rhold b (rpc p) + held b (in_hand (wpc p))))"
proof -
  obtain s :: "unit sys" and m b where s: "reachable busy_read bump_malloc (init_sys OtherTarget no_floats) s"
    "1 < length (procs s)" "wpc (procs s ! 1) = WWrite m" "Buf m = Some b" "\<not> latencyChClosed (app s)"
    "content_of (memory s) b = Some (build_message alice [zero_key] [104, 105])" by (rule hello_pumping)
  have inv: "sys_inv s" by (rule reachable_inv [OF s(1) busy_calm bump_malloc_ok])
  have "b < next_buf (memory s)"
    by (rule held_owner(1) [OF sys_invD(1) [OF inv] s(2) weight_pump [OF s(4)]]) (use s(3) in simp)
  with refs_are_owners [OF s(1) busy_calm bump_malloc_ok, of b] s show ?thesis by auto
qed

end
