(* ===== verification/Relay_Theorems.thy ===== *)
theory Relay_Theorems
  imports Relay_Counters Relay_Order Relay_Safety
begin

section \<open>What the running server guarantees\<close>

text \<open>
  The properties of whole runs: the inlined handler is \<open>HandleMessage\<close>, an accepted frame reaches
  its recipients, what reaches them is authentic, pumps end, and \<open>Count\<close> counts.
\<close>

subsection \<open>The handler\<close>

text \<open>
  C7 (refinement): in any reachable state where a handler has a message in hand, \<open>HandleMessage\<close> on
  the connectors, the memory and the relayer of that state returns, without a panic, and the handler's
  small steps, run without interruption, end in exactly the state it computes, with every write pump
  and every other handler where it was.
\<close>

theorem handler_refines:
  assumes "reachable read malloc (init_sys t0 F) s" and "calm_reader read stream ending" and "malloc_ok malloc"
    and "c < length (procs s)" and "rpc (procs s ! c) = RHandle b t"
  shows "\<exists>h' S' r' n s'.
    HandleMessage push_in (key_of s c) \<lparr>RecvTime = t, Buf = Some b\<rparr> (memory s) (conns_of s) (app s) = Inr (h', S', r') \<and>
    exec_all read malloc (replicate n (Reader c)) s = Some (Inr s') \<and>
    rpc (procs s' ! c) = RRelease b \<and> memory s' = h' \<and> conns_of s' = S' \<and> app s' = r' \<and>
    others_same c s s'"
proof -
  have inv: "sys_inv s" by (rule reachable_inv [OF assms(1-3)])
  obtain T X where sec: "sec_inv T X s" by (rule reachable_sec [OF assms(1-3)])
  obtain tos payload where msg: "content_of (memory s) b = Some (build_message (key_of s c) tos payload)"
    and fo: "frame_ok (int MaxMessageSize) tos payload"
    by (rule sec_inv_handle [OF sec assms(4,5)])
  obtain h' S' r' where hm: "HandleMessage push_in (key_of s c) \<lparr>RecvTime = t, Buf = Some b\<rparr> (memory s) (conns_of s)
    (app s) = Inr (h', S', r')"
    using handle_total [OF inv assms(4,5) msg fo] by blast
  then obtain n s' where "exec_all read malloc (replicate n (Reader c)) s = Some (Inr s')"
    "rpc (procs s' ! c) = RRelease b" "memory s' = h'" "conns_of s' = S'" "app s' = r'" "others_same c s s'"
    using handle_steps [OF assms(4,5) hm, of read malloc] unfolding handler_runs_def by blast
  with hm show ?thesis by blast
qed

subsection \<open>Delivery\<close>

text \<open>From the frame on the wire of one client to the frame on the wire of another.\<close>

lemma end_to_end:
  assumes reach: "reachable read malloc (init_sys g F) s" and c: "c < length (procs s)" and pc: "rpc (procs s ! c) = RReading"
    and env: "calm_reader read stream ending" "malloc_ok malloc" "\<forall>m n. malloc m n \<noteq> None"
    and v: "decode_frame (int MaxMessageSize) (stream r) (ending r) = Inr (tos, payload)"
    and d: "receives s c tos d" "pump_running (wpc (procs s ! d))" and ch: "\<not> latencyChClosed (app s)"
  shows "\<exists>as s' before. exec_all read malloc (ReadFrame c r t # as) s = Some (Inr s') \<and>
    list_all (\<lambda>a. a = Reader c \<or> pump_works d a) as \<and>
    written s' = written s @ before @ [(d, build_message (key_of s c) (replicate (length tos) zero_key) payload)] \<and>
    completed s' = completed s @ before @ [(d, build_message (key_of s c) (replicate (length tos) zero_key) payload)]"
proof -
  let ?m = "\<lparr>RecvTime = t, Buf = Some (next_buf (memory s))\<rparr>" and ?bs = "build_message (key_of s c) (replicate (length tos) zero_key) payload"
  have inv: "sys_inv s" by (rule reachable_inv [OF reach env(1,2)])
  have dl: "d < length (procs s)" using d(1) sys_invD(5) [OF inv] by (auto simp: receives_def)
  obtain n s1 where s1: "exec_all read malloc (ReadFrame c r t # replicate n (Reader c)) s = Some (Inr s1)"
    "written s1 = written s" "map wpc (procs s1) = map wpc (procs s)"
    "outChan (ws (procs s1 ! d)) = outChan (ws (procs s ! d)) @ [?m]"
    "content_of (memory s1) (next_buf (memory s)) = Some ?bs"
    by (rule deliver_run_to [OF reach c pc env v d(1) dl])
  have len: "length (procs s1) = length (procs s)" using arg_cong [OF s1(3), of length] by simp
  have reach1: "reachable read malloc (init_sys g F) s1" by (rule exec_all_reachable [OF s1(1) reach])
  have inv1: "sys_inv s1" by (rule reachable_inv [OF reach1 env(1,2)])
  obtain T X where sec1: "sec_inv T X s1" by (rule reachable_sec [OF reach1 env(1,2)])
  have pc1: "pump_running (wpc (procs s1 ! d))"
    using arg_cong [OF s1(3), of "\<lambda>xs. xs ! d"] dl len d(2) by simp
  have bufs: "\<forall>m \<in> set (outChan (ws (procs s1 ! d))) \<union> set (in_hand (wpc (procs s1 ! d))). Buf m \<noteq> None"
    using sec_invD(2) [OF sec1, of d] dl len by (fastforce simp: proc_sec_def outgoing_def)
  have ch1: "\<not> latencyChClosed (app s1)"
    by (rule open_run [OF s1(1) _ ch inv env(1,2)]) auto
  let ?q = "outChan (ws (procs s1 ! d))"
  obtain bs s2 before where s2: "exec_all read malloc bs s1 = Some (Inr s2)" "list_all (pump_works d) bs"
    "written s2 = written s1 @ before @ map (\<lambda>m. (d, bytes_of s1 m)) ?q"
    using pump_serves_queue [OF inv1 _ pc1 bufs ch1, of read malloc] dl len by auto
  have "exec_all read malloc (ReadFrame c r t # (replicate n (Reader c) @ bs)) s = Some (Inr s2)"
    using exec_all_append [of read malloc "ReadFrame c r t # replicate n (Reader c)" bs s] s1(1) s2(1) by simp
  moreover have "list_all (\<lambda>a. a = Reader c \<or> pump_works d a) (replicate n (Reader c) @ bs)"
    using s2(2) by (auto simp: list_all_iff)
  moreover have "list_all (\<lambda>a. \<not> fails a) (ReadFrame c r t # (replicate n (Reader c) @ bs))"
    using s2(2) pump_works_succeeds by (auto simp: list_all_iff)
  moreover from exec_all_completes [OF calculation(1,3)]
  obtain out where "written s2 = written s @ out" "completed s2 = completed s @ out" by blast
  moreover have "bytes_of s1 ?m = ?bs" by (rule bytes_of_eq [OF _ s1(5)]) simp
  ultimately show ?thesis using s2(3) s1(2,4)
    by (intro exI [of _ "replicate n (Reader c) @ bs"] exI [of _ s2]
        exI [of _ "before @ map (\<lambda>m. (d, bytes_of s1 m)) (outChan (ws (procs s ! d)))"] conjI) simp_all
qed



text \<open>The state after Alice's handler has read her message.\<close>

lemma hello_read:
  obtains s where "reachable busy_read bump_malloc (init_sys OtherTarget no_floats) s" "0 < length (procs s)"
    "rpc (procs s ! 0) = RHandle 0 7"
proof -
  let ?s = "connected OtherTarget"
  have reach: "reachable busy_read bump_malloc (init_sys OtherTarget no_floats) ?s" by (rule connected_reachable)
  obtain s where "exec busy_read bump_malloc (ReadFrame 0 hello 7) ?s = Some (Inr s)"
    "procs s = (procs ?s)[0 := (procs ?s ! 0)\<lparr>rpc := RHandle (next_buf (memory ?s)) 7\<rparr>]"
    using read_frame_accepts [OF reachable_inv [OF reach busy_calm bump_malloc_ok] _ _ busy_calm bump_malloc_ok _ hello_frame,
      of 0 7] bump_total by auto
  with reachable.step [OF reach this(1)] show ?thesis by (intro that [of s]) (simp_all add: empty_mem_def)
qed

theorem handler_refines_witness:
  "\<exists>s h' S' r' n s'.
    HandleMessage push_in (key_of s 0) \<lparr>RecvTime = 7, Buf = Some 0\<rparr> (memory s) (conns_of s) (app s) = Inr (h', S', r') \<and>
    exec_all busy_read bump_malloc (replicate n (Reader 0)) s = Some (Inr s') \<and>
    rpc (procs s' ! 0) = RRelease 0 \<and> memory s' = h' \<and> conns_of s' = S' \<and> app s' = r' \<and>
    others_same 0 (s :: unit sys) s'"
proof -
  obtain s where "reachable busy_read bump_malloc (init_sys OtherTarget no_floats) s" "0 < length (procs s)"
    "rpc (procs s ! 0) = RHandle 0 7" by (rule hello_read)
  from handler_refines [OF this(1) busy_calm bump_malloc_ok this(2,3)] show ?thesis by blast
qed

subsection \<open>Authenticity\<close>

text \<open>
  C2 (safety): in any interleaving, every message written to a connection was sent, as a well-formed
  frame, by some connection that named the receiver's key among its recipients and is not the
  receiver itself; it carries the authenticated key of that sender whatever the sender put on the
  wire, its payload unchanged, and nothing of the recipient list but its length.
\<close>

theorem delivered_messages_authentic:
  assumes "reachable read malloc (init_sys g F) s" and "calm_reader read stream ending" and "malloc_ok malloc"
    and "(d, bs) \<in> set (written s)"
  shows "\<exists>c tos payload. (c, tos, payload) \<in> set (accepted s) \<and> frame_ok (int MaxMessageSize) tos payload \<and>
    key_of s d \<in> set tos \<and> key_of s d \<noteq> key_of s c \<and>
    bs = build_message (key_of s c) (replicate (length tos) zero_key) payload"
proof -
  obtain T X where sec: "sec_inv T X s" by (rule reachable_sec [OF assms(1-3)])
  obtain x where "sealed (accepted s) (key_of s) x (key_of s d) bs"
    by (rule sec_inv_written [OF sec assms(4)])
  then show ?thesis
    using sec_invD(1) [OF sec] by (fastforce simp: sealed_def frames_valid_def dest: sentD)
qed

lemma hello_written:
  obtains s where "reachable busy_read bump_malloc (init_sys OtherTarget no_floats) s"
    "(1, build_message alice [zero_key] [104, 105]) \<in> set (written s)"
proof -
  let ?s = "connected OtherTarget"
  have reach: "reachable busy_read bump_malloc (init_sys OtherTarget no_floats) ?s" by (rule connected_reachable)
  have "receives ?s 0 [bob] 1" by (simp add: receives_def)
  from end_to_end [OF reach _ _ busy_calm bump_malloc_ok _ hello_frame this, of 7] bump_total
  obtain as s' before where "exec_all busy_read bump_malloc (ReadFrame 0 hello 7 # as) ?s = Some (Inr s')"
    "written s' = written ?s @ before @ [(1, build_message alice [zero_key] [104, 105])]" by auto
  with exec_all_reachable [OF this(1) reach] show ?thesis by (intro that [of s']) auto
qed

theorem delivered_messages_authentic_witness:
  "\<exists>s :: unit sys. (1, build_message alice [zero_key] [104, 105]) \<in> set (written s) \<and>
    (\<exists>c tos payload. (c, tos, payload) \<in> set (accepted s) \<and> frame_ok (int MaxMessageSize) tos payload \<and>
      key_of s 1 \<in> set tos \<and> key_of s 1 \<noteq> key_of s c \<and>
      build_message alice [zero_key] [104, 105] = build_message (key_of s c) (replicate (length tos) zero_key) payload)"
proof -
  obtain s where "reachable busy_read bump_malloc (init_sys OtherTarget no_floats) s"
    "(1, build_message alice [zero_key] [104, 105]) \<in> set (written s)" by (rule hello_written)
  with delivered_messages_authentic [OF this(1) busy_calm bump_malloc_ok this(2)] show ?thesis by blast
qed

subsection \<open>Order and multiplicity\<close>

text \<open>
  C3 (safety): in any interleaving, every message written to a connection can be traced back to a frame
  of its own: \<open>origin ! j\<close> is the number, in the order of acceptance, of the frame the \<open>j\<close>-th write is
  the authenticated and cleared copy of, and along the writes to one connection the numbers of the
  frames accepted from one connection increase strictly. So what one connection sends another is written to it in
  the order it was accepted, and no frame twice, whatever the other connections and the pumps
  do. Sender and recipient are connections, not keys: across a reconnect of either side the theorem orders
  nothing, and while an old and a new connection of a key are both being served their messages may interleave.
\<close>

theorem delivered_in_order:
  assumes "reachable read malloc (init_sys g F) s" and "calm_reader read stream ending" and "malloc_ok malloc"
  shows "\<exists>origin. length origin = length (written s) \<and>
    (\<forall>j < length (written s). case written s ! j of (d, bs) \<Rightarrow>
       origin ! j < length (accepted s) \<and>
       (case accepted s ! (origin ! j) of (c, tos, payload) \<Rightarrow>
          key_of s d \<in> set tos \<and> key_of s d \<noteq> key_of s c \<and>
          bs = build_message (key_of s c) (replicate (length tos) zero_key) payload)) \<and>
    (\<forall>i j. i < j \<and> j < length (written s) \<and> fst (written s ! i) = fst (written s ! j) \<and>
       fst (accepted s ! (origin ! i)) = fst (accepted s ! (origin ! j)) \<longrightarrow> origin ! i < origin ! j)"
proof -
  obtain T X where sec: "sec_inv T X s" and ord: "order_inv T X s"
    by (rule reachable_order [OF assms])
  have ok: "list_all2 (out_ok (length (procs s)) (accepted s) (key_of s)) X (written s)" by (rule sec_invD(3) [OF sec])
  then have len: "length X = length (written s)" by (rule list_all2_lengthD)
  have "case written s ! j of (d, bs) \<Rightarrow> X ! j < length (accepted s) \<and>
      (case accepted s ! (X ! j) of (c, tos, payload) \<Rightarrow> key_of s d \<in> set tos \<and> key_of s d \<noteq> key_of s c \<and>
        bs = build_message (key_of s c) (replicate (length tos) zero_key) payload)" if "j < length (written s)" for j
    using list_all2_nthD2 [OF ok that] by (auto simp: out_ok_def sealed_def sent_def split: prod.splits)
  moreover have "X ! i < X ! j" if ij: "i < j" "j < length (written s)" and eq: "fst (written s ! i) = fst (written s ! j)"
    and snd: "fst (accepted s ! (X ! i)) = fst (accepted s ! (X ! j))" for i j
  proof -
    let ?d = "fst (written s ! j)"
    have "?d < length (procs s)" using list_all2_nthD2 [OF ok ij(2)] by (simp add: out_ok_def)
    then have "sorted_wrt (later (accepted s)) (written_to X (written s) ?d)"
      using order_invD(1) [OF ord, of ?d] by (simp add: flow_def sorted_wrt_append)
    then have "later (accepted s) (X ! i) (X ! j)"
      by (rule written_to_nth) (use ij eq len in simp_all)
    then show ?thesis using snd by (simp add: later_def sender_def)
  qed
  ultimately show ?thesis using len by (intro exI [of _ X]) blast
qed

theorem delivered_in_order_witness:
  "\<exists>(s :: unit sys) origin. written s \<noteq> [] \<and> length origin = length (written s) \<and>
    (case hd (written s) of (d, bs) \<Rightarrow>
       case accepted s ! hd origin of (c, tos, payload) \<Rightarrow>
         key_of s d \<in> set tos \<and> bs = build_message (key_of s c) (replicate (length tos) zero_key) payload)"
proof -
  obtain s where s: "reachable busy_read bump_malloc (init_sys OtherTarget no_floats) s" "written s \<noteq> []"
    by (rule hello_written) force
  from delivered_in_order [OF s(1) busy_calm bump_malloc_ok] obtain origin where
    len: "length origin = length (written s)" and
    ok: "\<forall>j < length (written s). case written s ! j of (d, bs) \<Rightarrow>
       origin ! j < length (accepted s) \<and>
       (case accepted s ! (origin ! j) of (c, tos, payload) \<Rightarrow>
          key_of s d \<in> set tos \<and> key_of s d \<noteq> key_of s c \<and>
          bs = build_message (key_of s c) (replicate (length tos) zero_key) payload)" by (elim exE conjE)
  have "hd (written s) = written s ! 0" "hd origin = origin ! 0"
    using s(2) len by (simp_all add: hd_conv_nth flip: length_greater_0_conv)
  with spec [OF ok, of 0] s(2) len show ?thesis
    by (intro exI [of _ s] exI [of _ origin]) (simp split: prod.splits)
qed

subsection \<open>The shutdown race\<close>

text \<open>
  C16 (error): from any state the server can be in, with a message queued for a connection whose write
  pump waits for the next one, one interleaving of that pump with \<open>Shutdown\<close> ends in a panic: the pump writes
  the message, the application is closed, and the pump's latency report is a send on a closed channel.
  \<open>Shutdown\<close> closes the application without waiting for the pumps.
\<close>

theorem shutdown_panics_pump:
  assumes "reachable read malloc (init_sys g F) s" and "calm_reader read stream ending" and "malloc_ok malloc"
    and "d < length (procs s)" and "wpc (procs s ! d) = WRecv" and "outChan (ws (procs s ! d)) \<noteq> []"
    and "\<not> latencyChClosed (app s)"
  shows "exec_all read malloc [Writer d, WriteDone d True, Writer d, Writer d, CloseApp, Latency d l] s =
    Some (Inl SendOnClosedChan)"
proof -
  obtain m q where q: "outChan (ws (procs s ! d)) = m # q" using assms(6) by (cases "outChan (ws (procs s ! d))") auto
  obtain T X where sec: "sec_inv T X s" by (rule reachable_sec [OF assms(1-3)])
  obtain b where b: "Buf m = Some b" using sec_invD(2) [OF sec assms(4)] by (auto simp: proc_sec_def outgoing_def q)
  obtain s4 where s4: "exec_all read malloc [Writer d, WriteDone d True, Writer d, Writer d] s = Some (Inr s4)"
    "length (procs s4) = length (procs s)" "wpc (procs s4 ! d) = WLatency m" "\<not> latencyChClosed (app s4)"
    using pump_writes_next [OF reachable_inv [OF assms(1-3)] assms(4,5) q b, of read malloc] assms(7) by auto
  then have "exec_all read malloc [CloseApp, Latency d l] s4 = Some (Inl SendOnClosedChan)"
    using assms(4) by (simp add: record_latency_def RecordLatency_def Let_def)
  with exec_all_append [of read malloc "[Writer d, WriteDone d True, Writer d, Writer d]" "[CloseApp, Latency d l]" s] s4(1)
  show ?thesis by simp
qed

theorem shutdown_panics_pump_witness:
  "\<exists>s :: unit sys. reachable busy_read bump_malloc (init_sys OtherTarget no_floats) s \<and>
    exec_all busy_read bump_malloc [Writer 1, WriteDone 1 True, Writer 1, Writer 1, CloseApp, Latency 1 5] s =
      Some (Inl SendOnClosedChan)"
proof -
  let ?s = "connected OtherTarget"
  have reach: "reachable busy_read bump_malloc (init_sys OtherTarget no_floats) ?s" by (rule connected_reachable)
  have r: "receives ?s 0 [bob] 1" by (simp add: receives_def)
  have idle: "0 < length (procs ?s)" "rpc (procs ?s ! 0) = RReading" "1 < length (procs ?s)" by simp_all
  obtain n s1 where
    s1: "exec_all busy_read bump_malloc (ReadFrame 0 hello 7 # replicate n (Reader 0)) ?s = Some (Inr s1)"
    "map wpc (procs s1) = map wpc (procs ?s)" and
    "outChan (ws (procs s1 ! 1)) = outChan (ws (procs ?s ! 1)) @ [\<lparr>RecvTime = 7, Buf = Some (next_buf (memory ?s))\<rparr>]"
    by (rule deliver_run_to [OF reach idle(1,2) busy_calm bump_malloc_ok _ hello_frame r idle(3), where t = 7])
       (simp add: bump_total)
  then have q1: "outChan (ws (procs s1 ! 1)) \<noteq> []" by simp
  have r1: "reachable busy_read bump_malloc (init_sys OtherTarget no_floats) s1" by (rule exec_all_reachable [OF s1(1) reach])
  have pc1: "1 < length (procs s1)" "wpc (procs s1 ! 1) = WRecv"
    using arg_cong [OF s1(2), of length] arg_cong [OF s1(2), of "\<lambda>xs. xs ! 1"] by simp_all
  have "\<not> latencyChClosed (app s1)"
    by (rule open_run [OF s1(1) _ _ reachable_inv [OF reach busy_calm bump_malloc_ok] busy_calm bump_malloc_ok]) auto
  from shutdown_panics_pump [OF r1 busy_calm bump_malloc_ok pc1 q1 this] r1 show ?thesis by blast
qed

subsection \<open>Termination of the pumps\<close>

text \<open>
  C11 (termination): once a connection is closed, its write pump takes at most
  \<open>pump_left\<close> further steps in any run of the server, and as long as the application is not closed it
  is never stuck: from wherever the run has got to, steps of the pump alone lead to its end, within
  the same bound.
\<close>

theorem pump_terminates:
  assumes "reachable read malloc (init_sys g F) s" and "calm_reader read stream ending" and "malloc_ok malloc"
    and "d < length (procs s)" and "isClosed (ws (procs s ! d))" and "wpc (procs s ! d) \<noteq> WNone"
    and "exec_all read malloc as s = Some (Inr s1)" and "\<not> latencyChClosed (app s1)"
  shows "\<exists>bs s2. length (filter (pump_action d) as) + length bs \<le> pump_left (procs s ! d) \<and>
    list_all (pump_action d) bs \<and> exec_all read malloc bs s1 = Some (Inr s2) \<and> wpc (procs s2 ! d) = WDone"
proof -
  note run = exec_all_pump [OF reachable_inv [OF assms(1-3)] assms(4-6,2,3,7)]
  then obtain bs s2 where "list_all (pump_action d) bs" "length bs \<le> pump_left (procs s1 ! d)"
    "exec_all read malloc bs s1 = Some (Inr s2)" "wpc (procs s2 ! d) = WDone"
    using pump_ends [OF _ _ _ _ assms(8,2,3)] by blast
  then show ?thesis using run by (intro exI [of _ bs] exI [of _ s2]) auto
qed

text \<open>Alice's connection fails and her handler returns.\<close>

definition alice_left :: "build_target \<Rightarrow> unit sys" where
  "alice_left t = projr (the (exec_all busy_read bump_malloc
     (connect_run @ [ReadError 0, Reader 0, Reader 0, Reader 0]) (init_sys t no_floats)))"

lemma alice_left_run:
  "exec_all busy_read bump_malloc (connect_run @ [ReadError 0, Reader 0, Reader 0, Reader 0]) (init_sys t no_floats) =
    Some (Inr (alice_left t))"
  "isClosed (ws (procs (alice_left t) ! 0))" "wpc (procs (alice_left t) ! 0) = WRecv"
  "length (procs (alice_left t)) = 2" "\<not> latencyChClosed (app (alice_left t))"
  by (simp_all add: alice_left_def connect_run_def init_sys_def reader_step_def Close_conn_def set_rpc_def set_wpc_def
      set_ws_def set_proc_def key_of_def ID_def new_wsconn_def map_Swap_def map_CompareAndDelete_def NewRelayer_def)

theorem pump_terminates_witness:
  "\<exists>bs s2. length (filter (pump_action 0) ([] :: fragments action list)) + length bs \<le> pump_left (procs (alice_left LinuxCgo) ! 0) \<and>
    list_all (pump_action 0) bs \<and> exec_all busy_read bump_malloc bs (alice_left LinuxCgo) = Some (Inr s2) \<and>
    wpc (procs s2 ! 0) = WDone"
  by (rule pump_terminates [OF exec_all_reachable [OF alice_left_run(1) reachable.start] busy_calm bump_malloc_ok])
     (simp_all add: alice_left_run)

subsection \<open>Counting connections\<close>

text \<open>
  C13 (invariant): in every reachable state the connection counter, as a 64-bit word, differs from the
  number of registered keys only by the handlers that have changed the registry and not yet the
  counter; when there are none, \<open>Count\<close> is the number of registered keys.
\<close>

theorem count_is_registered:
  assumes "reachable read malloc (init_sys g F) s" and "calm_reader read stream ending" and "malloc_ok malloc"
  shows "connCount (app s) + of_nat (length (filter (\<lambda>p. rpc p = RSwapped False) (procs s))) =
      of_nat (card (dom (connectors (app s)))) + of_nat (length (filter (\<lambda>p. rpc p = RDecrement True) (procs s))) \<and>
    (filter (\<lambda>p. rpc p = RSwapped False \<or> rpc p = RDecrement True) (procs s) = [] \<and> length (procs s) < 2 ^ 63 \<longrightarrow>
      Count (app s) = int (card (dom (connectors (app s)))))"
proof (intro conjI impI)
  have inv: "sys_inv s" by (rule reachable_inv [OF assms])
  show eq: "connCount (app s) + of_nat (length (filter (\<lambda>p. rpc p = RSwapped False) (procs s))) =
      of_nat (card (dom (connectors (app s)))) + of_nat (length (filter (\<lambda>p. rpc p = RDecrement True) (procs s)))"
    using reachable_count [OF assms] by (simp add: count_ok_def handlers_at_filter)
  assume quiet: "filter (\<lambda>p. rpc p = RSwapped False \<or> rpc p = RDecrement True) (procs s) = [] \<and> length (procs s) < 2 ^ 63"
  then have "filter (\<lambda>p. rpc p = RSwapped False) (procs s) = []" "filter (\<lambda>p. rpc p = RDecrement True) (procs s) = []"
    by (auto simp: filter_empty_conv)
  with eq have cc: "connCount (app s) = of_nat (card (dom (connectors (app s))))" by simp
  have "card (dom (connectors (app s))) \<le> card (key_of s ` {..<length (procs s)})"
    by (rule card_mono) (use sys_invD(5) [OF inv] in fastforce)+
  also have "\<dots> \<le> length (procs s)" using card_image_le [of "{..<length (procs s)}"] by simp
  finally have "card (dom (connectors (app s))) < 2 ^ 63" using quiet by linarith
  then show "Count (app s) = int (card (dom (connectors (app s))))"
    unfolding Count_def cc by (simp add: signed_of_nat signed_take_bit_int_eq_self)
qed

theorem count_is_registered_witness:
  "let s = connected LinuxCgo in
    connCount (app s) + of_nat (length (filter (\<lambda>p. rpc p = RSwapped False) (procs s))) =
      of_nat (card (dom (connectors (app s)))) + of_nat (length (filter (\<lambda>p. rpc p = RDecrement True) (procs s)))"
  unfolding Let_def by (rule conjunct1 [OF count_is_registered [OF connected_reachable busy_calm bump_malloc_ok]])

subsection \<open>The registry and the connections\<close>

text \<open>
  C14 (safety): in every reachable state a registered connector belongs to a connection with that key
  whose handler has not begun to take it out, so a connection that ends leaves nothing behind in the
  registry even when the key reconnected in the meantime; once every handler has returned, the registry
  is empty and the counter is zero.
\<close>

theorem registered_connections_live:
  assumes "reachable read malloc (init_sys g F) s" and "calm_reader read stream ending" and "malloc_ok malloc"
  shows "(case connectors (app s) k of
       None \<Rightarrow> True
     | Some c \<Rightarrow> c < length (procs s) \<and> key_of s c = k \<and>
         rpc (procs s ! c) \<notin> {RNew, RDecrement True, RDecrement False, RClose, RDone}) \<and>
    (if list_all (\<lambda>p. rpc p = RDone) (procs s)
     then connectors (app s) = Map.empty \<and> connCount (app s) = 0 else True)"
proof -
  have inv: "sys_inv s" and live: "registered_live s" and cnt: "count_ok s"
    using reachable_inv [OF assms] reachable_live [OF assms] reachable_count [OF assms] by blast+
  have reg: "c < length (procs s) \<and> key_of s c = j \<and> \<not> unregistered (rpc (procs s ! c))"
    if "connectors (app s) j = Some c" for j c
    using sys_invD(5) [OF inv that] registered_liveD [OF live that] by blast
  then have "case connectors (app s) k of
      None \<Rightarrow> True
    | Some c \<Rightarrow> c < length (procs s) \<and> key_of s c = k \<and>
        rpc (procs s ! c) \<notin> {RNew, RDecrement True, RDecrement False, RClose, RDone}"
    by (auto split: option.split dest!: reg)
  moreover have "connectors (app s) = Map.empty \<and> connCount (app s) = 0" if fin: "list_all (\<lambda>p. rpc p = RDone) (procs s)"
  proof -
    have pc: "rpc (procs s ! c) = RDone" if "c < length (procs s)" for c
      using fin that by (simp add: list_all_length)
    have "connectors (app s) j = None" for j
      using reg [of j] pc by (cases "connectors (app s) j") auto
    then have "connectors (app s) = Map.empty" by (simp add: fun_eq_iff)
    moreover have "filter (\<lambda>p. rpc p = pc') (procs s) = []" if "pc' \<noteq> RDone" for pc'
      using fin that by (auto simp: filter_empty_conv list_all_iff)
    ultimately show ?thesis using cnt by (simp add: count_ok_def handlers_at_filter)
  qed
  ultimately show ?thesis by simp
qed

theorem registered_connections_live_witness:
  "connectors (app (hungup LinuxCgo)) = Map.empty \<and> connCount (app (hungup LinuxCgo)) = 0"
proof -
  have "list_all (\<lambda>p. rpc p = RDone) (procs (hungup LinuxCgo))"
    using hungup_run(2) by (auto simp: list_all_iff)
  with registered_connections_live [OF exec_all_reachable [OF hungup_run(1) reachable.start] busy_calm bump_malloc_ok]
  show ?thesis by auto
qed

end
