(* ===== verification/App_Interface.thy ===== *)
theory App_Interface
  imports Relay_Memory
begin

section \<open>internal/core: the App and Connector interfaces, and a connection served through them\<close>







subsection \<open>The read loop and the write pump of one connection\<close>




datatype pump = Waiting | Writing out_message | Returned














subsection \<open>Counts and stores\<close>










text \<open>A closed connector's queue only shrinks.\<close>

definition sealed_in :: "conns \<Rightarrow> conns \<Rightarrow> bool" where
  "sealed_in S S' \<longleftrightarrow> (\<forall>c. closed_in S c \<longrightarrow> closed_in S' c \<and> queued_in S' c = queued_in S c)"

lemma sealed_refl [simp]: "sealed_in S S"
  by (simp add: sealed_in_def)





subsection \<open>The contract\<close>

text \<open>The messages the pump holds.\<close>

definition hand :: "pump \<Rightarrow> out_message list" where
  "hand p = (case p of Writing m \<Rightarrow> [m] | _ \<Rightarrow> [])"

lemma hand_simps [simp]: "hand Waiting = []" "hand (Writing m) = [m]" "hand Returned = []"
  by (simp_all add: hand_def)


subsection \<open>The relayer keeps the contract\<close>






lemma latencyChClosed_registry [simp]:
  "latencyChClosed (OnConnect k c r) = latencyChClosed r" "latencyChClosed (OnDisconnect k c r) = latencyChClosed r"
  by (simp_all add: OnConnect_def OnDisconnect_def map_Swap_def map_CompareAndDelete_def Let_def split: option.split prod.split)


subsection \<open>Properties\<close>



end
