(* ===== verification/Go_Text.thy ===== *)
theory Go_Text
  imports Prelude
begin

section \<open>Go strings: hex, white space, splitting\<close>

text \<open>
  What the program uses of \<open>encoding/hex\<close>, \<open>strings\<close> and \<open>fmt\<close>. A Go string is a sequence of bytes,
  here a list of HOL's 8-bit characters; text is UTF-8. White space is what \<open>unicode.IsSpace\<close>
  accepts, by its encodings, which no other rune's encoding contains.
\<close>

definition string_bytes :: "string \<Rightarrow> bytes" where
  "string_bytes s = map of_char s"

lemma length_string_bytes [simp]: "length (string_bytes s) = length s"
  by (simp add: string_bytes_def)

lemma string_bytes_append: "string_bytes (s @ t) = string_bytes s @ string_bytes t"
  by (simp add: string_bytes_def)

lemma unat_of_char: "unat (of_char c :: byte) = of_char c"
proof -
  have "of_char c < (256 :: nat)" by (rule nat_of_char_less_256)
  then have "unat (of_nat (of_char c) :: byte) = of_char c" by (simp add: unat_of_nat)
  then show ?thesis by (simp only: of_nat_of_char)
qed

lemma inj_of_char_byte: "(of_char c :: byte) = of_char d \<longleftrightarrow> c = d"
  by (metis unat_of_char of_char_eq_iff)

lemma string_bytes_inj: "string_bytes s = string_bytes t \<longleftrightarrow> s = t"
  unfolding string_bytes_def by (rule inj_map_eq_map) (simp add: inj_def inj_of_char_byte)

subsection \<open>encoding/hex\<close>

definition from_hex_char :: "char \<Rightarrow> byte option" where
  "from_hex_char c =
     (let n = of_char c :: nat in
      if 48 \<le> n \<and> n \<le> 57 then Some (of_nat (n - 48))
      else if 97 \<le> n \<and> n \<le> 102 then Some (of_nat (n - 87))
      else if 65 \<le> n \<and> n \<le> 70 then Some (of_nat (n - 55))
      else None)"

fun hex_DecodeString :: "string \<Rightarrow> bytes option" where
  "hex_DecodeString [] = Some []"
| "hex_DecodeString [c] = None"
| "hex_DecodeString (c # d # s) =
     (case (from_hex_char c, from_hex_char d, hex_DecodeString s) of
        (Some hi, Some lo, Some bs) \<Rightarrow> Some ((push_bit 4 hi OR lo) # bs)
      | _ \<Rightarrow> None)"

definition hex_digits :: string where
  "hex_digits = ''0123456789abcdef''"

definition hex_EncodeToString :: "bytes \<Rightarrow> string" where
  "hex_EncodeToString bs =
     concat (map (\<lambda>b. [hex_digits ! unat (drop_bit 4 b), hex_digits ! unat (b AND 15)]) bs)"

lemma from_hex_digit: "n < 16 \<Longrightarrow> from_hex_char (hex_digits ! n) = Some (of_nat n)"
proof -
  have "list_all (\<lambda>n. from_hex_char (hex_digits ! n) = Some (of_nat n)) [0..<16]"
    by (simp add: upt_rec hex_digits_def from_hex_char_def)
  then show "n < 16 \<Longrightarrow> ?thesis" by (simp add: list_all_iff)
qed

lemma nibbles:
  fixes b :: byte
  shows "unat (drop_bit 4 b) < 16" "unat (b AND 15) < 16" "push_bit 4 (drop_bit 4 b) OR (b AND 15) = b"
proof -
  show "unat (drop_bit 4 b) < 16"
    using unsigned_less [where 'a = nat, of b] by (simp add: drop_bit_eq_div unat_div)
  have m: "15 = (mask 4 :: byte)" by (simp add: mask_eq_decr_exp)
  have "b AND 15 = take_bit 4 b" unfolding m by (simp only: take_bit_eq_mask)
  then have "b AND 15 = b mod 16" by (simp add: take_bit_eq_mod)
  then show "unat (b AND 15) < 16" by (simp add: unat_mod)
  show "push_bit 4 (drop_bit 4 b) OR (b AND 15) = b"
    unfolding m by (rule bit_word_eqI) (auto simp: bit_simps)
qed

lemma hex_encode_Cons:
  "hex_EncodeToString (b # bs) =
    hex_digits ! unat (drop_bit 4 b) # hex_digits ! unat (b AND 15) # hex_EncodeToString bs"
  by (simp add: hex_EncodeToString_def)

lemma hex_encode_Nil [simp]: "hex_EncodeToString [] = []"
  by (simp add: hex_EncodeToString_def)

lemma hex_roundtrip [simp]: "hex_DecodeString (hex_EncodeToString bs) = Some bs"
  by (induction bs) (simp_all add: hex_encode_Cons from_hex_digit nibbles)

lemma length_hex_decode: "hex_DecodeString s = Some bs \<Longrightarrow> length s = 2 * length bs"
  by (induction s arbitrary: bs rule: hex_DecodeString.induct) (auto split: option.splits)

lemma length_hex_encode [simp]: "length (hex_EncodeToString bs) = 2 * length bs"
  by (induction bs) (simp_all add: hex_encode_Cons)

lemma hex_encode_eq_Nil [simp]: "hex_EncodeToString bs = [] \<longleftrightarrow> bs = []"
  by (cases bs) (simp_all add: hex_encode_Cons)

lemma set_hex_encode: "set (hex_EncodeToString bs) \<subseteq> set hex_digits"
proof (induction bs)
  case (Cons b bs)
  have "length hex_digits = 16" by (simp add: hex_digits_def)
  then show ?case using Cons nibbles [of b] by (simp add: hex_encode_Cons)
qed simp

subsection \<open>White space\<close>

definition space_runes :: "string list" where
  "space_runes =
     [[CHR 0x09], [CHR 0x0A], [CHR 0x0B], [CHR 0x0C], [CHR 0x0D], [CHR 0x20],
      [CHR 0xC2, CHR 0x85], [CHR 0xC2, CHR 0xA0], [CHR 0xE1, CHR 0x9A, CHR 0x80]] @
     map (\<lambda>c. [CHR 0xE2, CHR 0x80, c])
       [CHR 0x80, CHR 0x81, CHR 0x82, CHR 0x83, CHR 0x84, CHR 0x85, CHR 0x86, CHR 0x87, CHR 0x88, CHR 0x89,
        CHR 0x8A, CHR 0xA8, CHR 0xA9, CHR 0xAF] @
     [[CHR 0xE2, CHR 0x81, CHR 0x9F], [CHR 0xE3, CHR 0x80, CHR 0x80]]"

text \<open>The length of the white-space rune at the front, 0 when there is none.\<close>

definition space_len :: "string list \<Rightarrow> string \<Rightarrow> nat" where
  "space_len runes s = (case find (\<lambda>r. take (length r) s = r) runes of None \<Rightarrow> 0 | Some r \<Rightarrow> length r)"

lemma space_len_le: "space_len runes s \<le> length s"
proof (cases "find (\<lambda>r. take (length r) s = r) runes")
  case (Some r)
  then have "take (length r) s = r" by (auto simp: find_Some_iff)
  then have "length r \<le> length s" by (metis length_take min.bounded_iff order_refl)
  with Some show ?thesis by (simp add: space_len_def)
qed (simp add: space_len_def)

lemma space_len_0: "(\<And>r. r \<in> set runes \<Longrightarrow> r \<noteq> [] \<and> hd r \<noteq> c) \<Longrightarrow> space_len runes (c # s) = 0"
  by (auto simp: space_len_def find_Some_iff split: option.splits)
     (metis list.sel(1) list.size(3) nth_mem take_eq_Nil hd_take length_greater_0_conv)

function trim_left :: "string list \<Rightarrow> string \<Rightarrow> string" where
  "trim_left runes s = (if space_len runes s = 0 then s else trim_left runes (drop (space_len runes s) s))"
  by auto

termination
proof (relation "measure (\<lambda>(_, s). length s)")
  fix runes s
  assume "space_len runes s \<noteq> 0"
  then show "((runes, drop (space_len runes s) s), (runes, s)) \<in> measure (\<lambda>(_, s). length s)"
    using space_len_le [of runes s] by simp
qed simp

declare trim_left.simps [simp del]

definition strings_TrimSpace :: "string \<Rightarrow> string" where
  "strings_TrimSpace s = rev (trim_left (map rev space_runes) (rev (trim_left space_runes s)))"

text \<open>\<open>strings.Fields\<close>: \<open>cur\<close> is the field being read.\<close>

definition flush :: "string \<Rightarrow> string list" where
  "flush cur = (if cur = [] then [] else [cur])"

function fields_from :: "string \<Rightarrow> string \<Rightarrow> string list" where
  "fields_from cur [] = flush cur"
| "fields_from cur (c # s) =
     (let n = space_len space_runes (c # s) in
      if n = 0 then fields_from (cur @ [c]) s
      else flush cur @ fields_from [] (drop n (c # s)))"
  by pat_completeness auto

termination
  by (relation "measure (\<lambda>(_, s). length s)") auto

definition strings_Fields :: "string \<Rightarrow> string list" where
  "strings_Fields s = fields_from [] s"

subsection \<open>Splitting and joining\<close>

fun split_char :: "char \<Rightarrow> string \<Rightarrow> string list" where
  "split_char sep [] = [[]]"
| "split_char sep (c # s) =
     (if c = sep then [] # split_char sep s
      else (case split_char sep s of [] \<Rightarrow> [[c]] | w # ws \<Rightarrow> (c # w) # ws))"

fun strings_Join :: "string list \<Rightarrow> string \<Rightarrow> string" where
  "strings_Join [] sep = []"
| "strings_Join [w] sep = w"
| "strings_Join (w # ws) sep = w @ sep @ strings_Join ws sep"

definition strings_HasPrefix :: "string \<Rightarrow> string \<Rightarrow> bool" where
  "strings_HasPrefix s p \<longleftrightarrow> take (length p) s = p"

definition strings_TrimPrefix :: "string \<Rightarrow> string \<Rightarrow> string" where
  "strings_TrimPrefix s p = (if strings_HasPrefix s p then drop (length p) s else s)"

lemma split_char_nonempty [simp]: "split_char sep s \<noteq> []"
  by (cases s) (auto split: list.splits)

lemma split_char_word: "sep \<notin> set w \<Longrightarrow> split_char sep w = [w]"
  by (induction w) auto

lemma split_char_append: "sep \<notin> set w \<Longrightarrow> split_char sep (w @ sep # s) = w # split_char sep s"
  by (induction w) auto

lemma split_join: "ws \<noteq> [] \<Longrightarrow> \<forall>w \<in> set ws. sep \<notin> set w \<Longrightarrow> split_char sep (strings_Join ws [sep]) = ws"
  by (induction ws "[sep]" rule: strings_Join.induct) (auto simp: split_char_word split_char_append)

lemma length_split_char: "length (split_char sep s) = Suc (length (filter (\<lambda>c. c = sep) s))"
  by (induction s) (auto split: list.splits)

text \<open>Hex text, and lists of it, have no white space to trim.\<close>

definition hex_list_chars :: string where
  "hex_list_chars = hex_digits @ '',''"

lemma space_len_hex:
  assumes "c \<in> set hex_list_chars"
  shows "space_len space_runes (c # s) = 0" and "space_len (map rev space_runes) (c # s) = 0"
proof -
  have "list_all (\<lambda>r. r \<noteq> [] \<and> hd r \<notin> set hex_list_chars \<and> hd (rev r) \<notin> set hex_list_chars) space_runes"
    by (simp add: space_runes_def hex_list_chars_def hex_digits_def)
  then have "r \<noteq> [] \<and> hd r \<noteq> c \<and> hd (rev r) \<noteq> c" if "r \<in> set space_runes" for r
    using that assms by (auto simp: list_all_iff)
  then have fwd: "\<And>r. r \<in> set space_runes \<Longrightarrow> r \<noteq> [] \<and> hd r \<noteq> c"
    and bwd: "\<And>r. r \<in> set (map rev space_runes) \<Longrightarrow> r \<noteq> [] \<and> hd r \<noteq> c" by fastforce+
  show "space_len space_runes (c # s) = 0" by (rule space_len_0 [OF fwd])
  show "space_len (map rev space_runes) (c # s) = 0" by (rule space_len_0 [OF bwd])
qed

lemma space_len_Nil [simp]: "[] \<notin> set runes \<Longrightarrow> space_len runes [] = 0"
  by (auto simp: space_len_def find_Some_iff split: option.splits)

lemma trim_hex_text:
  assumes "set s \<subseteq> set hex_list_chars"
  shows "strings_TrimSpace s = s"
proof -
  have *: "trim_left space_runes t = t \<and> trim_left (map rev space_runes) t = t" if "set t \<subseteq> set hex_list_chars" for t
  proof (cases t)
    case Nil
    have "[] \<notin> set space_runes" "[] \<notin> set (map rev space_runes)" by (auto simp: space_runes_def)
    then show ?thesis using Nil by (simp add: trim_left.simps)
  next
    case (Cons c u)
    with that space_len_hex [of c u] show ?thesis by (simp add: trim_left.simps)
  qed
  show ?thesis using * [OF assms] * [of "rev s"] assms by (simp add: strings_TrimSpace_def)
qed

lemma trim_hex [simp]: "strings_TrimSpace (hex_EncodeToString bs) = hex_EncodeToString bs"
  using set_hex_encode [of bs] by (intro trim_hex_text) (auto simp: hex_list_chars_def)

lemma hex_no_comma [simp]: "CHR '','' \<notin> set (hex_EncodeToString k)"
  using set_hex_encode [of k] by (auto simp: hex_digits_def)

lemma trim_hex_list:
  "strings_TrimSpace (strings_Join (map hex_EncodeToString ks) '','') = strings_Join (map hex_EncodeToString ks) '',''"
proof (rule trim_hex_text)
  show "set (strings_Join (map hex_EncodeToString ks) '','') \<subseteq> set hex_list_chars"
  proof (induction "map hex_EncodeToString ks" "'',''" arbitrary: ks rule: strings_Join.induct)
    case (2 w)
    then obtain k where "w = hex_EncodeToString k" by auto
    with set_hex_encode [of k] show ?case by (auto simp: hex_list_chars_def simp flip: 2)
  next
    case (3 w v ws)
    then obtain k ks' where "ks = k # ks'" "v # ws = map hex_EncodeToString ks'" by (cases ks) auto
    with 3(1) [of ks'] set_hex_encode [of k] show ?case by (auto simp: hex_list_chars_def simp flip: 3(2))
  qed simp
qed

text \<open>Text in ASCII: blanks (space and tab) are white space, the other printable characters are not.\<close>

definition blanks :: "string \<Rightarrow> bool" where
  "blanks s \<longleftrightarrow> set s \<subseteq> {CHR 0x20, CHR 0x09}"

definition plain :: "char \<Rightarrow> bool" where
  "plain c \<longleftrightarrow> 33 \<le> (of_char c :: nat) \<and> (of_char c :: nat) < 128"

lemma space_len_1:
  assumes "[c] \<in> set runes" and "\<And>r. r \<in> set runes \<Longrightarrow> r \<noteq> [] \<and> (hd r = c \<longrightarrow> r = [c])"
  shows "space_len runes (c # s) = 1"
proof (cases "find (\<lambda>r. take (length r) (c # s) = r) runes")
  case None
  then show ?thesis using assms(1) by (auto simp: find_None_iff)
next
  case (Some r)
  then have r: "r \<in> set runes" "take (length r) (c # s) = r" by (auto simp: find_Some_iff)
  have "r \<noteq> []" using assms(2) [OF r(1)] by simp
  then have "hd r = c" using r(2) by (cases r) auto
  then have "r = [c]" using assms(2) [OF r(1)] by simp
  then show ?thesis using Some by (simp add: space_len_def)
qed

lemma space_len_blank:
  assumes "c \<in> {CHR 0x20, CHR 0x09}"
  shows "space_len space_runes (c # s) = 1" and "space_len (map rev space_runes) (c # s) = 1"
proof -
  have "list_all (\<lambda>r. r \<noteq> [] \<and> (hd r \<in> {CHR 0x20, CHR 0x09} \<longrightarrow> r = [hd r]) \<and>
      (hd (rev r) \<in> {CHR 0x20, CHR 0x09} \<longrightarrow> rev r = [hd (rev r)])) space_runes"
    by (simp add: space_runes_def)
  then have one: "r \<noteq> [] \<and> (hd r = c \<longrightarrow> r = [c]) \<and> (hd (rev r) = c \<longrightarrow> rev r = [c])" if "r \<in> set space_runes" for r
    using that assms by (fastforce simp: list_all_iff)
  have mem: "[c] \<in> set space_runes" using assms by (auto simp: space_runes_def)
  then have mem': "[c] \<in> set (map rev space_runes)" by force
  show "space_len space_runes (c # s) = 1" by (rule space_len_1 [OF mem]) (use one in blast)
  show "space_len (map rev space_runes) (c # s) = 1" by (rule space_len_1 [OF mem']) (use one in auto)
qed

lemma space_len_plain:
  assumes "plain c"
  shows "space_len space_runes (c # s) = 0" and "space_len (map rev space_runes) (c # s) = 0"
proof -
  have "list_all (\<lambda>r. r \<noteq> [] \<and> \<not> plain (hd r) \<and> \<not> plain (hd (rev r))) space_runes"
    by (simp add: space_runes_def plain_def)
  then have "r \<noteq> [] \<and> hd r \<noteq> c \<and> hd (rev r) \<noteq> c" if "r \<in> set space_runes" for r
    using that assms by (auto simp: list_all_iff)
  then have fwd: "\<And>r. r \<in> set space_runes \<Longrightarrow> r \<noteq> [] \<and> hd r \<noteq> c"
    and bwd: "\<And>r. r \<in> set (map rev space_runes) \<Longrightarrow> r \<noteq> [] \<and> hd r \<noteq> c" by fastforce+
  show "space_len space_runes (c # s) = 0" by (rule space_len_0 [OF fwd])
  show "space_len (map rev space_runes) (c # s) = 0" by (rule space_len_0 [OF bwd])
qed

text \<open>Both ends at once: \<open>runes\<close> are the white-space runes or their reversals.\<close>

lemma trim_blanks:
  assumes "blanks l" and "runes \<in> {space_runes, map rev space_runes}"
  shows "trim_left runes (l @ s) = trim_left runes s"
  using assms(1)
proof (induction l)
  case (Cons c l)
  then have "space_len runes (c # l @ s) = 1" using assms(2) space_len_blank [of c "l @ s"] by (auto simp: blanks_def)
  with Cons show ?case by (subst trim_left.simps) (simp add: blanks_def)
qed simp

lemma trim_plain:
  assumes "plain c" and "runes \<in> {space_runes, map rev space_runes}"
  shows "trim_left runes (c # s) = c # s"
  using assms space_len_plain [OF assms(1), of s] by (subst trim_left.simps) auto

lemma trim_nothing: "runes \<in> {space_runes, map rev space_runes} \<Longrightarrow> trim_left runes [] = []"
proof -
  assume "runes \<in> {space_runes, map rev space_runes}"
  then have "[] \<notin> set runes" by (auto simp: space_runes_def)
  then show ?thesis by (subst trim_left.simps) simp
qed

lemma trim_piece:
  assumes "blanks l" and "blanks r" and "list_all plain t" and "runes \<in> {space_runes, map rev space_runes}"
    and "plain c"
  shows "trim_left runes (l @ t @ r @ c # s) = (if t = [] then [] else t @ r) @ c # s"
    and "trim_left runes (l @ t @ r) = (if t = [] then [] else t @ r)"
proof -
  show "trim_left runes (l @ t @ r @ c # s) = (if t = [] then [] else t @ r) @ c # s"
    using assms by (cases t) (simp_all add: trim_blanks trim_plain)
  show "trim_left runes (l @ t @ r) = (if t = [] then [] else t @ r)"
    using assms trim_blanks [OF assms(2,4), of "[]"] trim_nothing [OF assms(4)]
    by (cases t) (simp_all add: trim_blanks trim_plain)
qed

lemma blanks_rev [simp]: "blanks (rev s) = blanks s"
  by (simp add: blanks_def)

lemma TrimSpace_piece:
  assumes "blanks l" and "blanks r" and "list_all plain t"
  shows "strings_TrimSpace (l @ t @ r) = t"
proof -
  have c: "plain CHR ''x''" by (simp add: plain_def)
  have "list_all plain (rev t)" "blanks (rev r)" "blanks []" using assms by (simp_all add: blanks_def)
  then show ?thesis
    using trim_piece(2) [OF assms(1,2,3) _ c, of space_runes]
      trim_piece(2) [of "rev r" "[]" "rev t" "map rev space_runes" "CHR ''x''"] c
      trim_nothing [of "map rev space_runes"]
    by (cases "t = []") (auto simp: strings_TrimSpace_def)
qed

lemma TrimSpace_Nil [simp]: "strings_TrimSpace [] = []"
  using TrimSpace_piece [of "[]" "[]" "[]"] by (simp add: blanks_def)

lemma Join_ends: "strings_Join (a # ws @ [b]) [c] = a @ c # concat (map (\<lambda>w. w @ [c]) ws) @ b"
proof (induction ws arbitrary: a)
  case (Cons w ws)
  then show ?case by simp
qed simp

text \<open>Of a separated list only the blanks at the two ends are trimmed.\<close>

lemma TrimSpace_Join:
  assumes "blanks l" "blanks r" "list_all plain t" and "blanks l'" "blanks r'" "list_all plain t'" and c: "plain c"
  shows "strings_TrimSpace (strings_Join ((l @ t @ r) # ws @ [l' @ t' @ r']) [c]) =
    strings_Join ((if t = [] then [] else t @ r) # ws @ [if t' = [] then [] else l' @ t']) [c]"
proof -
  let ?m = "c # concat (map (\<lambda>w. w @ [c]) ws)" and ?a = "if t = [] then [] else t @ r"
  have j: "strings_Join ((l @ t @ r) # ws @ [l' @ t' @ r']) [c] = l @ t @ r @ ?m @ l' @ t' @ r'"
    by (simp add: Join_ends)
  have left: "trim_left space_runes (l @ t @ r @ ?m @ l' @ t' @ r') = ?a @ ?m @ l' @ t' @ r'"
    using trim_piece(1) [OF assms(1,2,3) _ c, of space_runes] by simp
  obtain m where m: "?m = m @ [c]" by (cases ws rule: rev_cases) simp_all
  have "trim_left (map rev space_runes) (rev r' @ rev t' @ rev l' @ c # rev (?a @ m)) =
      (if rev t' = [] then [] else rev t' @ rev l') @ c # rev (?a @ m)"
    by (rule trim_piece(1)) (use assms in \<open>simp_all\<close>)
  moreover have "strings_TrimSpace (l @ t @ r @ ?m @ l' @ t' @ r') =
      rev (trim_left (map rev space_runes) (rev (?a @ ?m @ l' @ t' @ r')))"
    unfolding strings_TrimSpace_def left ..
  ultimately have "strings_TrimSpace (l @ t @ r @ ?m @ l' @ t' @ r') = ?a @ ?m @ (if t' = [] then [] else l' @ t')"
    unfolding m by (simp split: if_splits)
  then show ?thesis unfolding j by (simp add: Join_ends)
qed

subsection \<open>Decimal numerals\<close>

fun decimal :: "nat \<Rightarrow> string" where
  "decimal n = (if n < 10 then [''0123456789'' ! n] else decimal (n div 10) @ [''0123456789'' ! (n mod 10)])"

declare decimal.simps [simp del]

lemma digit_inj: "m < 10 \<Longrightarrow> n < 10 \<Longrightarrow> ''0123456789'' ! m = ''0123456789'' ! n \<Longrightarrow> m = n"
  by (simp add: nth_eq_iff_index_eq)

lemma decimal_nonempty [simp]: "decimal n \<noteq> []"
  by (subst decimal.simps) simp

lemma decimal_nonempty' [simp]: "[] \<noteq> decimal n"
  using decimal_nonempty [of n] by metis

lemma decimal_inj: "decimal m = decimal n \<Longrightarrow> m = n"
proof (induction m arbitrary: n rule: less_induct)
  case (less m)
  show ?case
  proof (cases "m < 10")
    case True
    then show ?thesis
      using less.prems digit_inj [of m n] by (cases "n < 10") (auto simp: decimal.simps [of m] decimal.simps [of n])
  next
    case False
    then have n: "\<not> n < 10" using less.prems by (auto simp: decimal.simps [of m] decimal.simps [of n])
    have "decimal (m div 10) = decimal (n div 10)" "''0123456789'' ! (m mod 10) = ''0123456789'' ! (n mod 10)"
      using less.prems False n by (simp_all add: decimal.simps [of m] decimal.simps [of n])
    then have "m div 10 = n div 10" "m mod 10 = n mod 10"
      using less.IH [of "m div 10" "n div 10"] False digit_inj [of "m mod 10" "n mod 10"] by simp_all
    then show ?thesis by (metis div_mult_mod_eq)
  qed
qed

lemma length_decimal: "0 < k \<Longrightarrow> n < 10 ^ k \<Longrightarrow> length (decimal n) \<le> k"
proof (induction k arbitrary: n)
  case (Suc k)
  show ?case
  proof (cases "n < 10")
    case False
    then have "0 < k" using Suc.prems by (cases k) auto
    moreover have "n div 10 < 10 ^ k" using Suc.prems by (simp add: div_less_iff_less_mult mult.commute)
    ultimately have "length (decimal (n div 10)) \<le> k" by (rule Suc.IH)
    then show ?thesis using False by (simp add: decimal.simps [of n])
  qed (simp add: decimal.simps [of n])
qed simp

lemma set_decimal: "set (decimal n) \<subseteq> set ''0123456789''"
proof (induction n rule: less_induct)
  case (less n)
  have d: "''0123456789'' ! m \<in> set ''0123456789''" if "m < 10" for m
    using that nth_mem [of m "''0123456789''"] by simp
  show ?case
  proof (cases "n < 10")
    case True
    with d show ?thesis by (subst decimal.simps) simp
  next
    case False
    with d less.IH [of "n div 10"] show ?thesis by (subst decimal.simps) simp
  qed
qed

end
