(* ===== verification/Http_Server.thy ===== *)
theory Http_Server
  imports Go_Text Relay_Steps
begin

section \<open>internal/server: HTTP endpoints, identities, CPU sampling, shutdown\<close>

text \<open>
  The server wraps the application with three HTTP endpoints. A request is what the handlers read of
  it, its path and its parsed query; \<open>net/http\<close>, \<open>encoding/json\<close>, the WebSocket upgrade and the
  operating system's counters are arguments of the definitions that use them. A handler's result is
  the response it writes.
\<close>

record request =
  Path :: string
  Query :: "(string \<times> string) list"

definition query_Get :: "string \<Rightarrow> request \<Rightarrow> string" where
  "query_Get k r = (case map_of (Query r) k of None \<Rightarrow> [] | Some v \<Rightarrow> v)"

record auth_result =
  PubKey :: pubkey
  UserID :: string

text \<open>\<open>Authenticator\<close> and \<open>Registrar\<close>: an error message, or an identity with a 32-byte key.\<close>

type_synonym identify = "request \<Rightarrow> string + auth_result"

subsection \<open>Identities\<close>

definition DefaultAuthenticator_Authenticate :: identify where
  "DefaultAuthenticator_Authenticate r =
     (let pub = query_Get ''pub'' r in
      if pub = [] then Inl ''missing pub''
      else case hex_DecodeString pub of
        None \<Rightarrow> Inl ''invalid pub (expect 64 hex chars)''
      | Some pubBytes \<Rightarrow> Inr \<lparr>PubKey = go_copy zero_key pubBytes, UserID = pub\<rparr>)"

definition DefaultRegistrar_Register :: identify where
  "DefaultRegistrar_Register r = Inr \<lparr>PubKey = zero_key, UserID = ''anonymous''\<rparr>"

text \<open>What the handlers rely on: the key has the type \<open>[32]byte\<close>.\<close>

locale identity_source =
  fixes identify :: identify
  assumes identity_key: "identify r = Inr a \<Longrightarrow> is_key (PubKey a)"
begin

lemma registered_text:
  "identify r = Inr a \<Longrightarrow> length (hex_EncodeToString (PubKey a)) = 64"
  by (drule identity_key) (simp add: is_key_def)

lemma readable_key:
  "identify r = Inr a \<Longrightarrow> hex_DecodeString (hex_EncodeToString (PubKey a)) = Some (PubKey a) \<and>
    go_copy zero_key (PubKey a) = PubKey a"
  by (drule identity_key) (simp add: is_key_def zero_key_def)

end

interpretation default_auth: identity_source DefaultAuthenticator_Authenticate
  by unfold_locales
     (auto simp: DefaultAuthenticator_Authenticate_def Let_def is_key_def zero_key_def split: if_splits option.splits)

interpretation default_registrar: identity_source DefaultRegistrar_Register
  by unfold_locales (auto simp: DefaultRegistrar_Register_def)

subsection \<open>The server\<close>

record ('c, 'f) server =
  srv_app :: "('c, 'f) relayer"
  srv_addr :: string
  srv_outBuf :: int
  srv_start :: int
  cpuRecent :: 'f
  samplerStopped :: bool
  srv_auth :: identify
  srv_registrar :: identify

text \<open>\<open>nil\<close> arguments are \<open>None\<close>; \<open>now\<close> is the clock, in nanoseconds.\<close>

definition NewServer ::
  "'f float64_ops \<Rightarrow> int \<Rightarrow> string \<Rightarrow> int \<Rightarrow> identify option \<Rightarrow> identify option \<Rightarrow> ('c, 'f) relayer option \<Rightarrow>
    ('c, 'f) server res" where
  "NewServer F now addr outBuf auth reg a_opt =
     (case a_opt of
        None \<Rightarrow> Inl AppMustNotBeNil
      | Some a \<Rightarrow> Inr
          \<lparr>srv_app = StartRecording a, srv_addr = addr, srv_outBuf = outBuf, srv_start = now, cpuRecent = f_lit F 0,
           samplerStopped = False,
           srv_auth = (case auth of None \<Rightarrow> DefaultAuthenticator_Authenticate | Some f \<Rightarrow> f),
           srv_registrar = (case reg of None \<Rightarrow> DefaultRegistrar_Register | Some f \<Rightarrow> f)\<rparr>)"

text \<open>
  The routes, and how \<open>http.ServeMux\<close> chooses among them for a clean path: an exact match, or else the
  longest pattern that ends in a slash and is a prefix of the path.
\<close>

datatype route = WsRoute | RegisterRoute | MetricsRoute

definition routes :: "(string \<times> route) list" where
  "routes = [(''/'', WsRoute), (''/register'', RegisterRoute), (''/metrics'', MetricsRoute)]"

definition mux_handler :: "(string \<times> 'h) list \<Rightarrow> string \<Rightarrow> 'h option" where
  "mux_handler pats path =
     (case map_of pats path of
        Some h \<Rightarrow> Some h
      | None \<Rightarrow>
          map_option snd
            (fold (\<lambda>(p, h) best.
                if p \<noteq> [] \<and> last p = CHR ''/'' \<and> strings_HasPrefix path p \<and>
                  (case best of None \<Rightarrow> True | Some (q, _) \<Rightarrow> length q < length p)
                then Some (p, h) else best) pats None))"

subsection \<open>The WebSocket endpoint\<close>

definition readLimit :: nat where
  "readLimit = 1 + MaxTargetsPerMessage * 32 + 4 + MaxMessageSize"

text \<open>
  What \<open>wsHandler\<close> does before \<open>ReadWriteLoop\<close> takes over: refuse, or install the read limit and
  register a new connector, the object \<open>c\<close>. \<open>upgraded\<close> is the outcome of \<open>websocket.Accept\<close>, which
  answers the request itself when it fails.
\<close>

datatype ws_outcome =
    HttpError nat string
  | UpgradeFailed
  | Serving wsconn nat

definition wsHandler ::
  "('c, 'f) server \<Rightarrow> request \<Rightarrow> bool \<Rightarrow> 'c \<Rightarrow> (ws_outcome \<times> ('c, 'f) server) res" where
  "wsHandler s r upgraded c =
     (case srv_auth s r of
        Inl msg \<Rightarrow> Inr (HttpError 400 msg, s)
      | Inr authResult \<Rightarrow>
          if \<not> upgraded then Inr (UpgradeFailed, s)
          else bind_res (NewWSConnector (PubKey authResult) (srv_outBuf s)) (\<lambda>w.
            Inr (Serving w readLimit, s\<lparr>srv_app := OnConnect (PubKey authResult) c (srv_app s)\<rparr>)))"

subsection \<open>Registration\<close>

datatype response =
    TextResponse nat string
  | JsonResponse "(string \<times> string) list"

definition registerHandler :: "('c, 'f) server \<Rightarrow> request \<Rightarrow> response" where
  "registerHandler s r =
     (case srv_registrar s r of
        Inl e \<Rightarrow> TextResponse 500 ''internal server error''
      | Inr authResult \<Rightarrow>
          JsonResponse [(''status'', ''success''), (''pub_key'', hex_EncodeToString (PubKey authResult))])"

subsection \<open>CPU sampling and metrics\<close>

record rusage =
  UtimeSec :: int
  UtimeUsec :: int
  StimeSec :: int
  StimeUsec :: int

definition total_cpu :: "'f float64_ops \<Rightarrow> rusage \<Rightarrow> 'f" where
  "total_cpu F ru =
     f_add F (f_add F (f_add F (f_of_int F (UtimeSec ru)) (f_div F (f_of_int F (UtimeUsec ru)) (f_lit F 1000000)))
       (f_of_int F (StimeSec ru))) (f_div F (f_of_int F (StimeUsec ru)) (f_lit F 1000000))"

text \<open>\<open>Duration.Seconds\<close>: whole seconds and the remaining nanoseconds, of a duration that does not go back.\<close>

definition duration_Seconds :: "'f float64_ops \<Rightarrow> int \<Rightarrow> 'f" where
  "duration_Seconds F d =
     f_add F (f_of_int F (d div 1000000000)) (f_div F (f_of_int F (d mod 1000000000)) (f_lit F 1000000000))"

record 'f sampler =
  prevTotal :: 'f
  prevTime :: int
  recentBits :: 'f

text \<open>
  What \<open>cpuSampler\<close> starts from: the counters at that moment (zeros when \<open>getrusage\<close> fails), the time, and a
  gauge nothing has been stored in.
\<close>

definition sampler_start :: "'f float64_ops \<Rightarrow> rusage option \<Rightarrow> int \<Rightarrow> 'f sampler" where
  "sampler_start F ru now =
     (let ru = (case ru of None \<Rightarrow> \<lparr>UtimeSec = 0, UtimeUsec = 0, StimeSec = 0, StimeUsec = 0\<rparr> | Some ru \<Rightarrow> ru)
      in \<lparr>prevTotal = total_cpu F ru, prevTime = now, recentBits = f_lit F 0\<rparr>)"

text \<open>One turn of the loop of \<open>cpuSampler\<close>; \<open>None\<close> is a failed \<open>getrusage\<close>.\<close>

definition sampler_tick :: "'f float64_ops \<Rightarrow> rusage option \<Rightarrow> int \<Rightarrow> 'f sampler \<Rightarrow> 'f sampler" where
  "sampler_tick F ru now st =
     (case ru of
        None \<Rightarrow> st
      | Some ru2 \<Rightarrow>
          (let total = total_cpu F ru2;
               deltaCPU = f_sub F total (prevTotal st);
               deltaWall = duration_Seconds F (now - prevTime st);
               percent =
                 (if f_less F (f_lit F 0) deltaWall then
                    (let p = f_mul F (f_lit F 100) (f_div F deltaCPU deltaWall)
                     in if f_less F p (f_lit F 0) then f_lit F 0 else p)
                  else f_lit F 0)
           in \<lparr>prevTotal = total, prevTime = now, recentBits = percent\<rparr>))"

datatype sampler_event = Tick "rusage option" int | StopSampler

fun cpuSampler :: "'f float64_ops \<Rightarrow> sampler_event list \<Rightarrow> 'f sampler \<Rightarrow> 'f sampler" where
  "cpuSampler F [] st = st"
| "cpuSampler F (Tick ru now # evs) st = cpuSampler F evs (sampler_tick F ru now st)"
| "cpuSampler F (StopSampler # evs) st = st"

text \<open>The fields of \<open>RelayerMetrics\<close> under their JSON names.\<close>

datatype 'f json_number = JsonUint u64 | JsonFloat 'f

definition relayer_metrics_fields :: "u64 \<times> u64 \<times> u64 \<times> 'f latency_snapshot \<Rightarrow> (string \<times> 'f json_number) list" where
  "relayer_metrics_fields am =
     (case am of (p, d, nr, snap) \<Rightarrow>
        [(''processed_messages'', JsonUint p), (''delivered_messages'', JsonUint d),
         (''no_recipient_messages'', JsonUint nr), (''latency_count'', JsonUint (snapCount snap)),
         (''latency_mean_ms'', JsonFloat (snapMeanMs snap)), (''latency_std_ms'', JsonFloat (snapStdMs snap)),
         (''latency_p50_ms'', JsonFloat (snapP50Ms snap)), (''latency_p95_ms'', JsonFloat (snapP95Ms snap)),
         (''latency_p99_ms'', JsonFloat (snapP99Ms snap))])"

text \<open>A JSON number read into a \<open>float64\<close>.\<close>

definition json_float :: "'f float64_ops \<Rightarrow> 'f json_number \<Rightarrow> 'f" where
  "json_float F v = (case v of JsonUint n \<Rightarrow> f_of_int F (uint n) | JsonFloat x \<Rightarrow> x)"

text \<open>What the metrics handler reads of the Go run time and the operating system.\<close>

record runtime_stats =
  NumGoroutine :: int
  AllocBytes :: u64
  TotalAllocBytes :: u64
  SysBytes :: u64
  HeapObjects :: u64
  NumCPU :: int
  Usage :: rusage
  Now :: int

record ('f, 'm) metrics =
  active_connections :: int
  m_runtime :: runtime_stats
  cpu_seconds :: 'f
  cpu_percent :: 'f
  cpu_recent_percent :: 'f
  cpu_recent_percent_per_cpu :: 'f
  uptime_seconds :: 'f
  app_metrics :: 'm

definition metrics_of ::
  "'f float64_ops \<Rightarrow> runtime_stats \<Rightarrow> ('c, 'f) server \<Rightarrow> ('f, u64 \<times> u64 \<times> u64 \<times> 'f latency_snapshot) metrics res" where
  "metrics_of F rt s =
     (let totalCPU = f_add F
            (f_add F (f_of_int F (UtimeSec (Usage rt))) (f_div F (f_of_int F (UtimeUsec (Usage rt))) (f_lit F 1000000)))
            (f_add F (f_of_int F (StimeSec (Usage rt))) (f_div F (f_of_int F (StimeUsec (Usage rt))) (f_lit F 1000000)));
          uptime = duration_Seconds F (Now rt - srv_start s);
          cpuPercent = (if f_less F (f_lit F 0) uptime then f_mul F (f_lit F 100) (f_div F totalCPU uptime) else f_lit F 0);
          perCPU = (if 0 < NumCPU rt then f_div F (cpuRecent s) (f_of_int F (NumCPU rt)) else f_lit F 0)
      in bind_res (FetchMetrics F (srv_app s)) (\<lambda>am.
           Inr \<lparr>active_connections = Count (srv_app s), m_runtime = rt, cpu_seconds = totalCPU,
             cpu_percent = cpuPercent, cpu_recent_percent = cpuRecent s, cpu_recent_percent_per_cpu = perCPU,
             uptime_seconds = uptime, app_metrics = am\<rparr>))"

text \<open>\<open>json.Marshal\<close>, an argument, fails on values it cannot encode.\<close>

definition metricsHandler ::
  "(('f, u64 \<times> u64 \<times> u64 \<times> 'f latency_snapshot) metrics \<Rightarrow> string option) \<Rightarrow> 'f float64_ops \<Rightarrow> runtime_stats \<Rightarrow>
    ('c, 'f) server \<Rightarrow> response res" where
  "metricsHandler json_Marshal F rt s =
     bind_res (metrics_of F rt s) (\<lambda>m.
       Inr (case json_Marshal m of
          None \<Rightarrow> TextResponse 500 ''internal server error''
        | Some body \<Rightarrow> TextResponse 200 body))"

subsection \<open>Shutdown, and the shipped entry point\<close>

text \<open>
  \<open>close(s.stopSampler)\<close>, the application, and only then the HTTP server, whose own shutdown is an
  argument: it reports an error or none, and does not touch connections that were upgraded.
\<close>

definition Shutdown ::
  "'f float64_ops \<Rightarrow> (u64 \<Rightarrow> int \<Rightarrow> int) \<Rightarrow> (('c, 'f) server \<Rightarrow> string option) \<Rightarrow>
    ('c, 'f) server \<Rightarrow> (string option \<times> ('c, 'f) server) res" where
  "Shutdown F rnd http_Shutdown s =
     (if samplerStopped s then Inl CloseOfClosedChan
      else bind_res (Close F rnd (StopRecording (srv_app s))) (\<lambda>a.
        let s' = s\<lparr>samplerStopped := True, srv_app := a\<rparr> in Inr (http_Shutdown s', s')))"

text \<open>\<open>cmd/relayer\<close>: its flags, with their defaults, and the server it starts.\<close>

record relayer_flags =
  flag_addr :: string
  flag_outbuf :: int

definition default_flags :: relayer_flags where
  "default_flags = \<lparr>flag_addr = '':8080'', flag_outbuf = 256\<rparr>"

definition relayer_main :: "'f float64_ops \<Rightarrow> int \<Rightarrow> relayer_flags \<Rightarrow> ('c, 'f) server res" where
  "relayer_main F now flags = NewServer F now (flag_addr flags) (flag_outbuf flags) None None (Some (NewRelayer F))"

text \<open>
  The process: \<open>Start\<close> serves in a goroutine until it returns an error, which ends the process unless it
  is \<open>http.ErrServerClosed\<close>; the first signal makes the main goroutine shut down and end.
\<close>

definition Start :: "(string \<Rightarrow> 'e) \<Rightarrow> ('c, 'f) server \<Rightarrow> 'e" where
  "Start http_ListenAndServe s = http_ListenAndServe (srv_addr s)"

datatype main_event = StartReturned string | StopSignal

datatype main_end = Running | LogFatal string | Stopped

definition ErrServerClosed :: string where
  "ErrServerClosed = ''http: Server closed''"

fun main_events ::
  "'f float64_ops \<Rightarrow> (u64 \<Rightarrow> int \<Rightarrow> int) \<Rightarrow> (('c, 'f) server \<Rightarrow> string option) \<Rightarrow> main_event list \<Rightarrow>
    ('c, 'f) server \<Rightarrow> (main_end \<times> ('c, 'f) server) res" where
  "main_events F rnd http_Shutdown [] s = Inr (Running, s)"
| "main_events F rnd http_Shutdown (StartReturned err # evs) s =
     (if err \<noteq> ErrServerClosed then Inr (LogFatal (''server error: '' @ err), s)
      else main_events F rnd http_Shutdown evs s)"
| "main_events F rnd http_Shutdown (StopSignal # evs) s =
     bind_res (Shutdown F rnd http_Shutdown s) (\<lambda>(err, s').
       Inr (case err of Some e \<Rightarrow> LogFatal (''server shutdown error: '' @ e) | None \<Rightarrow> Stopped, s'))"

definition relayer_process ::
  "'f float64_ops \<Rightarrow> (u64 \<Rightarrow> int \<Rightarrow> int) \<Rightarrow> (('c, 'f) server \<Rightarrow> string option) \<Rightarrow> int \<Rightarrow> relayer_flags \<Rightarrow>
    main_event list \<Rightarrow> (main_end \<times> ('c, 'f) server) res" where
  "relayer_process F rnd http_Shutdown now flags evs =
     bind_res (relayer_main F now flags) (main_events F rnd http_Shutdown evs)"

subsection \<open>Properties\<close>

text \<open>A process that is stopped before anything was recorded ends without a panic, the application closed.\<close>

lemma relayer_process_stops:
  assumes "http_Shutdown = (\<lambda>s. None)"
  shows "\<exists>s'. relayer_process F rnd http_Shutdown now flags (StopSignal # evs) = Inr (Stopped, s') \<and>
    samplerStopped s' \<and> latencyChClosed (srv_app s') \<and> srv_outBuf s' = flag_outbuf flags"
  using assms
  by (simp add: relayer_process_def relayer_main_def NewServer_def Shutdown_def Close_def NewRelayer_def
      StartRecording_def StopRecording_def Let_def)

lemma mux_routes:
  "mux_handler routes (CHR ''/'' # path) =
    Some (if path = ''register'' then RegisterRoute else if path = ''metrics'' then MetricsRoute else WsRoute)"
  by (simp add: mux_handler_def routes_def strings_HasPrefix_def)

lemma sampled_percent_nonneg: "0 \<le> recentBits st \<Longrightarrow> 0 \<le> recentBits (cpuSampler exact evs st)"
proof (induction exact evs st rule: cpuSampler.induct)
  case (2 ru now evs st)
  have "0 \<le> recentBits (sampler_tick exact ru now st)"
    using 2 by (auto simp: sampler_tick_def Let_def exact_def split: option.splits)
  with 2 show ?case by simp
qed simp_all

definition plain_server :: "('c, 'f) relayer \<Rightarrow> ('c, 'f) server" where
  "plain_server a =
     \<lparr>srv_app = a, srv_addr = '':8080'', srv_outBuf = 256, srv_start = 0, cpuRecent = undefined, samplerStopped = False,
      srv_auth = DefaultAuthenticator_Authenticate, srv_registrar = DefaultRegistrar_Register\<rparr>"

text \<open>
  C30 (roundtrip): the key a registration answers with, presented as the \<open>pub\<close> parameter of a
  connection, authenticates as exactly the key that was registered.
\<close>

theorem register_then_authenticate:
  assumes "srv_registrar s r = Inr a" and "is_key (PubKey a)"
  shows "\<exists>v. registerHandler s r = JsonResponse [(''status'', ''success''), (''pub_key'', v)] \<and> length v = 64 \<and>
    DefaultAuthenticator_Authenticate \<lparr>Path = p, Query = [(''pub'', v)]\<rparr> = Inr \<lparr>PubKey = PubKey a, UserID = v\<rparr>"
proof -
  have len: "length (hex_EncodeToString (PubKey a)) = 64" using assms(2) by (simp add: is_key_def)
  then have "hex_EncodeToString (PubKey a) \<noteq> []" by (metis list.size(3) zero_neq_numeral)
  then have "DefaultAuthenticator_Authenticate \<lparr>Path = p, Query = [(''pub'', hex_EncodeToString (PubKey a))]\<rparr> =
      Inr \<lparr>PubKey = PubKey a, UserID = hex_EncodeToString (PubKey a)\<rparr>"
    using assms(2) by (simp add: DefaultAuthenticator_Authenticate_def query_Get_def is_key_def zero_key_def)
  with assms(1) len show ?thesis by (intro exI [of _ "hex_EncodeToString (PubKey a)"]) (simp add: registerHandler_def)
qed

theorem register_then_authenticate_witness:
  "\<exists>v. registerHandler (plain_server (NewRelayer exact :: (nat, real) relayer)) \<lparr>Path = ''/register'', Query = []\<rparr> =
      JsonResponse [(''status'', ''success''), (''pub_key'', v)] \<and> length v = 64 \<and>
    DefaultAuthenticator_Authenticate \<lparr>Path = ''/'', Query = [(''pub'', v)]\<rparr> =
      Inr \<lparr>PubKey = PubKey \<lparr>PubKey = zero_key, UserID = ''anonymous''\<rparr>, UserID = v\<rparr>"
  by (rule register_then_authenticate) (simp_all add: plain_server_def DefaultRegistrar_Register_def)

text \<open>
  The default authenticator does not insist on the 64 hex digits its error message asks
  for: hex of any number of bytes is accepted, padded with zeros or cut to 32 bytes.
\<close>

lemma authenticate_any_length:
  assumes "bs \<noteq> []"
  shows "DefaultAuthenticator_Authenticate \<lparr>Path = p, Query = [(''pub'', hex_EncodeToString bs)]\<rparr> =
    Inr \<lparr>PubKey = take 32 (bs @ replicate 32 0), UserID = hex_EncodeToString bs\<rparr>"
proof -
  have "hex_EncodeToString bs \<noteq> []" using assms by simp
  then show ?thesis
    by (simp add: DefaultAuthenticator_Authenticate_def query_Get_def go_copy_def zero_key_def min_def)
qed

text \<open>
  C29 (bounds): the WebSocket read limit is exact for the protocol: every frame the parser accepts fits
  in it, and some accepted frame has exactly that length.
\<close>

theorem read_limit_exact:
  assumes "decode_frame (int MaxMessageSize) bs e = Inr (tos, payload)"
  shows "length bs \<le> readLimit \<and>
    (\<exists>tos' payload'. decode_frame (int MaxMessageSize) (frame_bytes tos' payload') EOF = Inr (tos', payload') \<and>
      length (frame_bytes tos' payload') = readLimit)"
proof
  have len: "length (frame_bytes ts p) = 1 + length ts * 32 + 4 + length p" if "frame_ok (int MaxMessageSize) ts p" for ts p
    using frame_ok_parts [OF that is_key_zero] parts_okD(5) by (simp add: frame_bytes_def)
  note ok = decode_frame_InrD [OF assms]
  then show "length bs \<le> readLimit" using len [of tos payload] by (simp add: frame_ok_def readLimit_def)
  let ?tos = "map (\<lambda>i. of_nat i # replicate 31 0) [0..<10] :: pubkey list" and ?p = "replicate MaxMessageSize 0"
  have "distinct ?tos"
  proof -
    have "inj_on (\<lambda>i. of_nat i # replicate 31 0 :: bytes) {0..<10}"
    proof (rule inj_onI)
      fix i j :: nat
      assume ij: "i \<in> {0..<10}" "j \<in> {0..<10}" and "(of_nat i # replicate 31 0 :: bytes) = of_nat j # replicate 31 0"
      then have "unat (of_nat i :: byte) = unat (of_nat j :: byte)" by simp
      with ij show "i = j" by (simp add: unat_of_nat)
    qed
    then show ?thesis by (simp add: distinct_map)
  qed
  then have fo: "frame_ok (int MaxMessageSize) ?tos ?p"
    by (simp add: frame_ok_def MaxTargetsPerMessage_def MaxMessageSize_def list_all_iff is_key_def del: upt_conv_Cons upt_rec_numeral)
  have "length (frame_bytes ?tos ?p) = readLimit"
    using len [OF fo] by (simp add: readLimit_def MaxTargetsPerMessage_def)
  with decode_frame_bytes [OF fo]
  show "\<exists>tos' payload'. decode_frame (int MaxMessageSize) (frame_bytes tos' payload') EOF = Inr (tos', payload') \<and>
      length (frame_bytes tos' payload') = readLimit" by blast
qed

theorem read_limit_exact_witness:
  "length (frame_bytes [zero_key] []) \<le> readLimit \<and>
    (\<exists>tos' payload'. decode_frame (int MaxMessageSize) (frame_bytes tos' payload') EOF = Inr (tos', payload') \<and>
      length (frame_bytes tos' payload') = readLimit)"
  by (rule read_limit_exact [OF decode_frame_bytes])
     (simp add: frame_ok_def MaxTargetsPerMessage_def MaxMessageSize_def)

text \<open>
  C15 (refinement): accepting a connection in the running system and letting its handler take its first
  two steps is \<open>wsHandler\<close>: the same connector, the same registry, the same counter, and the handler
  about to start its loop.
\<close>

theorem ws_handler_is_accept:
  assumes "wsHandler srv r True (length (procs s)) = Inr (Serving w limit, srv')" and "srv_app srv = app s"
    and "is_key (ID w)"
  shows "\<exists>s'. exec_all read malloc [Accept (ID w) (srv_outBuf srv), Reader (length (procs s)), Reader (length (procs s))] s
      = Some (Inr s') \<and>
    procs s' = procs s @ [\<lparr>ws = w, rpc = RStart, wpc = WNone\<rparr>] \<and> app s' = srv_app srv' \<and> limit = readLimit \<and>
    memory s' = memory s \<and> accepted s' = accepted s \<and> written s' = written s"
proof -
  let ?c = "length (procs s)"
  obtain a where a: "srv_auth srv r = Inr a" and w: "w = new_wsconn (PubKey a) (srv_outBuf srv)" and fits: "queue_fits (srv_outBuf srv)"
    and lim: "limit = readLimit" and srv': "srv' = srv\<lparr>srv_app := OnConnect (PubKey a) ?c (srv_app srv)\<rparr>"
    using assms(1) by (auto simp: wsHandler_def NewWSConnector_def split: sum.splits if_splits)
  have id: "ID w = PubKey a" by (simp add: w ID_def new_wsconn_def Let_def)
  let ?s1 = "s\<lparr>procs := procs s @ [\<lparr>ws = w, rpc = RNew, wpc = WNone\<rparr>]\<rparr>"
  have key: "key_of ?s1 ?c = PubKey a" by (simp add: key_of_def id)
  have s1: "exec read malloc (Accept (ID w) (srv_outBuf srv)) s = Some (Inr ?s1)"
    using assms(3) fits by (simp add: id flip: w)
  show ?thesis
  proof (cases "connectors (app s) (PubKey a)")
    case None
    with s1 key show ?thesis
      by (simp add: reader_step_def map_Swap_def OnConnect_def srv' lim assms(2) set_rpc_def set_proc_def)
  next
    case (Some d)
    with s1 key show ?thesis
      by (simp add: reader_step_def map_Swap_def OnConnect_def srv' lim assms(2) set_rpc_def set_proc_def)
  qed
qed

theorem ws_handler_is_accept_witness:
  "\<exists>s'. exec_all frag_read bump_malloc
      [Accept (ID (new_wsconn (171 # replicate 31 0) 256))
         (srv_outBuf (plain_server (NewRelayer exact))), Reader (length (procs (init_sys LinuxCgo exact))),
       Reader (length (procs (init_sys LinuxCgo exact)))] (init_sys LinuxCgo exact) = Some (Inr s') \<and>
    procs s' = procs (init_sys LinuxCgo exact) @
      [\<lparr>ws = new_wsconn (171 # replicate 31 0) 256, rpc = RStart, wpc = WNone\<rparr>] \<and>
    app s' = OnConnect (171 # replicate 31 0) 0 (NewRelayer exact) \<and> readLimit = readLimit \<and>
    memory s' = memory (init_sys LinuxCgo exact) \<and> accepted s' = accepted (init_sys LinuxCgo exact) \<and>
    written s' = written (init_sys LinuxCgo exact)"
proof -
  let ?srv = "plain_server (NewRelayer exact) :: (cid, real) server"
  let ?k = "171 # replicate 31 0 :: pubkey"
  have "DefaultAuthenticator_Authenticate \<lparr>Path = ''/'', Query = [(''pub'', ''ab'')]\<rparr> = Inr \<lparr>PubKey = ?k, UserID = ''ab''\<rparr>"
    by (simp add: DefaultAuthenticator_Authenticate_def query_Get_def from_hex_char_def go_copy_def zero_key_def)
  then have "wsHandler ?srv \<lparr>Path = ''/'', Query = [(''pub'', ''ab'')]\<rparr> True (length (procs (init_sys LinuxCgo exact))) =
    Inr (Serving (new_wsconn ?k 256) readLimit, ?srv\<lparr>srv_app := OnConnect ?k 0 (NewRelayer exact)\<rparr>)"
    by (simp add: wsHandler_def plain_server_def init_sys_def NewWSConnector_def queue_fits_def makes_def max_alloc_def)
  from ws_handler_is_accept [OF this] show ?thesis
    by (simp add: plain_server_def init_sys_def is_key_def ID_def new_wsconn_def)
qed

text \<open>
  \<open>Shutdown\<close> closes the application before the HTTP server is asked to stop, so a write
  pump that reports a latency from then on panics, and so does a second \<open>Shutdown\<close>.
\<close>

theorem shutdown_closes_app_first:
  assumes "Shutdown F rnd http_Shutdown s = Inr (e, s')"
  shows "e = http_Shutdown s' \<and> RecordLatency d (srv_app s') = Inl SendOnClosedChan \<and>
    Shutdown F rnd http_Shutdown s' = Inl CloseOfClosedChan"
proof -
  obtain a where a: "Close F rnd (srv_app s) = Inr a" and s': "s' = s\<lparr>samplerStopped := True, srv_app := a\<rparr>"
    and e: "e = http_Shutdown s'"
    using assms by (auto simp: Shutdown_def StopRecording_def bind_res_eq_Inr Let_def split: if_splits)
  have "latencyChClosed a" by (rule Close_closes [OF a])
  with s' e show ?thesis by (simp add: RecordLatency_def Let_def Shutdown_def)
qed

theorem shutdown_closes_app_first_witness:
  "let s' = (plain_server (NewRelayer exact) :: (nat, real) server)\<lparr>samplerStopped := True,
      srv_app := (NewRelayer exact)\<lparr>latencyChClosed := True\<rparr>\<rparr> in
    None = (\<lambda>_. None :: string option) s' \<and> RecordLatency 5000 (srv_app s') = Inl SendOnClosedChan \<and>
    Shutdown exact (\<lambda>_ _. 0) (\<lambda>_. None) s' = Inl CloseOfClosedChan"
  unfolding Let_def
  by (rule shutdown_closes_app_first [where s = "plain_server (NewRelayer exact)"])
     (simp add: Shutdown_def StopRecording_def Close_def plain_server_def NewRelayer_def)

end
