(* ===== verification/Client.thy ===== *)
theory Client
  imports Http_Server
begin

section \<open>cmd/client: the interactive client\<close>

text \<open>
  The command-line client: its check of its own key, the check of inbound frames, the command loop
  and the frames it sends. Console output is left out. Standard input and the context arrive as
  events, the outcome of writing a frame is an argument.
\<close>

subsection \<open>Recipients\<close>

definition parse_id :: "string \<Rightarrow> pubkey" where
  "parse_id t =
     (case hex_DecodeString t of
        Some b \<Rightarrow> go_copy zero_key b
      | None \<Rightarrow>
          (let bs = string_bytes t in
           if length bs > 32 then go_copy zero_key (take 32 bs) else go_copy zero_key bs))"

fun parse_parts :: "string list \<Rightarrow> pubkey list \<Rightarrow> pubkey list" where
  "parse_parts [] out = out"
| "parse_parts (p # ps) out =
     (let t = strings_TrimSpace p in
      if t \<noteq> [] then parse_parts ps (out @ [parse_id t]) else parse_parts ps out)"

definition parseRecipients :: "string \<Rightarrow> pubkey list" where
  "parseRecipients s =
     (let s = strings_TrimSpace s in
      if s = [] then [] else parse_parts (split_char CHR '','' s) [])"

subsection \<open>Frames\<close>

definition maxPayloadPerFrame :: nat where
  "maxPayloadPerFrame = 32 * 1024"

text \<open>\<open>append_ids rs k i frame\<close>: the loop that appends the ids from index \<open>i\<close>, \<open>k\<close> of them.\<close>

fun append_ids :: "pubkey list \<Rightarrow> nat \<Rightarrow> nat \<Rightarrow> bytes \<Rightarrow> bytes res" where
  "append_ids rs 0 i frame = Inr frame"
| "append_ids rs (Suc k) i frame =
     bind_res (go_index (int i) rs) (\<lambda>r. append_ids rs k (Suc i) (frame @ r))"

definition client_frame :: "pubkey list \<Rightarrow> bytes \<Rightarrow> bytes res" where
  "client_frame currentRecipients chunk =
     (let n = (if length currentRecipients > MaxTargetsPerMessage then MaxTargetsPerMessage else length currentRecipients)
      in bind_res (append_ids currentRecipients n 0 [of_nat n]) (\<lambda>frame.
           Inr (frame @ be_put_uint32 (of_nat (length chunk)) @ chunk)))"

record client =
  currentRecipients :: "pubkey list"
  sent :: "bytes list"
  cancelled :: bool

text \<open>The chunk loop; the result says whether the command loop goes on.\<close>

function send_chunks :: "(bytes list \<Rightarrow> bytes \<Rightarrow> bool) \<Rightarrow> bytes \<Rightarrow> nat \<Rightarrow> client \<Rightarrow> (client \<times> bool) res" where
  "send_chunks conn_Write payload off c =
     (if off < length payload then
        (let fin = (if off + maxPayloadPerFrame > length payload then length payload else off + maxPayloadPerFrame) in
         bind_res (go_slice off fin payload) (\<lambda>chunk.
         bind_res (client_frame (currentRecipients c) chunk) (\<lambda>frame.
           if conn_Write (sent c) frame
           then send_chunks conn_Write payload (off + maxPayloadPerFrame) (c\<lparr>sent := sent c @ [frame]\<rparr>)
           else Inr (c\<lparr>cancelled := True\<rparr>, False))))
      else Inr (c, True))"
  by auto

termination
  by (relation "measure (\<lambda>(_, payload, off, _). length payload - off)") (auto simp: maxPayloadPerFrame_def)

declare send_chunks.simps [simp del]

subsection \<open>The command loop\<close>

definition process_line ::
  "(bytes list \<Rightarrow> bytes \<Rightarrow> bool) \<Rightarrow> string \<Rightarrow> client \<Rightarrow> (client \<times> bool) res" where
  "process_line conn_Write input c =
     (let line = strings_TrimSpace input in
      if line = [] then Inr (c, True)
      else if strings_HasPrefix line ''/'' then
        (let parts = strings_Fields (strings_TrimPrefix line ''/'') in
         bind_res (go_index 0 parts) (\<lambda>cmd.
           if cmd = ''chat'' then
             (if length parts < 2 then Inr (c, True)
              else bind_res (go_slice 1 (length parts) parts) (\<lambda>args.
                Inr (c\<lparr>currentRecipients := parseRecipients (strings_Join args '' '')\<rparr>, True)))
           else if cmd = ''exit'' then Inr (c\<lparr>currentRecipients := []\<rparr>, True)
           else if cmd = ''quit'' then Inr (c\<lparr>cancelled := True\<rparr>, False)
           else Inr (c, True)))
      else send_chunks conn_Write (string_bytes line) 0 c)"

datatype client_event = Typed string | StdinError | CtxDone

fun command_loop :: "(bytes list \<Rightarrow> bytes \<Rightarrow> bool) \<Rightarrow> client_event list \<Rightarrow> client \<Rightarrow> client res" where
  "command_loop conn_Write [] c = Inr c"
| "command_loop conn_Write (CtxDone # evs) c = Inr c"
| "command_loop conn_Write (StdinError # evs) c = Inr c"
| "command_loop conn_Write (Typed line # evs) c =
     bind_res (process_line conn_Write line c) (\<lambda>(c', more).
       if more then command_loop conn_Write evs c' else Inr c')"

subsection \<open>The key and the reader\<close>

text \<open>\<open>None\<close> stands for \<open>log.Fatalf\<close>, which ends the process.\<close>

definition client_key :: "string \<Rightarrow> pubkey option" where
  "client_key pub =
     (if pub = [] then None
      else case hex_DecodeString pub of
        None \<Rightarrow> None
      | Some pubBytes \<Rightarrow> if length pubBytes \<noteq> 32 then None else Some (go_copy zero_key pubBytes))"

text \<open>
  The program from its \<open>pub\<close> flag on: dialling reports an error or none; the reader runs beside the command
  loop, and its cancelling the context is one of the loop's events.
\<close>

definition client_request :: "string \<Rightarrow> request" where
  "client_request pub = \<lparr>Path = ''/'', Query = [(''pub'', pub)]\<rparr>"

datatype client_exit = ClientFatal string | ClientExit client

definition client_main ::
  "string \<Rightarrow> (request \<Rightarrow> string option) \<Rightarrow> (bytes list \<Rightarrow> bytes \<Rightarrow> bool) \<Rightarrow> client_event list \<Rightarrow> client_exit res" where
  "client_main pub dial conn_Write evs =
     (if pub = [] then Inr (ClientFatal ''pub required and must be 64-hex'')
      else case client_key pub of
        None \<Rightarrow> Inr (ClientFatal ''invalid pub, must be 64 hex chars representing 32 bytes'')
      | Some pubKey \<Rightarrow>
          (case dial (client_request pub) of
             Some e \<Rightarrow> Inr (ClientFatal (''dial error: '' @ e))
           | None \<Rightarrow>
               bind_res (command_loop conn_Write evs \<lparr>currentRecipients = [], sent = [], cancelled = False\<rparr>) (\<lambda>c.
                 Inr (ClientExit c))))"

definition client_inbound :: "bytes \<Rightarrow> bool res" where
  "client_inbound data =
     (if length data < 37 then Inr False
      else
        bind_res (go_slice 0 32 data) (\<lambda>from.
        bind_res (go_index 32 data) (\<lambda>b.
          let nTo = unat b; dataLenOff = 33 + nTo * 32 in
          if dataLenOff + 4 > length data then Inr False
          else
            bind_res (go_slice dataLenOff (dataLenOff + 4) data) (\<lambda>s.
            bind_res (be_uint32 s) (\<lambda>v.
              let payloadLen = unat v; start = dataLenOff + 4 in
              Inr (\<not> (start + payloadLen > length data)))))))"

text \<open>
  The reader goroutine: \<open>conn.Read\<close> fails, or yields a message, binary or not. It looks at what it gets
  and does nothing with it.
\<close>

datatype inbound = ReadFailed | Message bool bytes

fun client_reader :: "inbound list \<Rightarrow> client \<Rightarrow> client res" where
  "client_reader [] c = Inr c"
| "client_reader (ReadFailed # ins) c = Inr (c\<lparr>cancelled := True\<rparr>)"
| "client_reader (Message binary data # ins) c =
     (if \<not> binary then client_reader ins c
      else bind_res (client_inbound data) (\<lambda>ok. client_reader ins c))"

subsection \<open>Properties\<close>

lemma parse_id_key: "is_key (parse_id t)"
  by (simp add: parse_id_def is_key_def zero_key_def Let_def split: option.split)

lemma parse_parts_append: "parse_parts ps out = out @ parse_parts ps []"
proof (induction ps arbitrary: out)
  case (Cons p ps)
  show ?case
    using Cons.IH [of "out @ [parse_id (strings_TrimSpace p)]"] Cons.IH [of "[parse_id (strings_TrimSpace p)]"] Cons.IH [of out]
    by (simp add: Let_def)
qed simp

lemma parse_parts_map:
  "parse_parts ps [] = map parse_id (filter (\<lambda>t. t \<noteq> []) (map strings_TrimSpace ps))"
proof (induction ps)
  case (Cons p ps)
  then show ?case
    using parse_parts_append [of ps "[parse_id (strings_TrimSpace p)]"] by (simp add: Let_def)
qed simp

text \<open>What a user may type for a recipient: nothing, a name, or a key in hex; and the ids they stand for.\<close>

datatype typed = Blank | Name string | Hex bytes

fun typed_text :: "typed \<Rightarrow> string" where
  "typed_text Blank = []"
| "typed_text (Name t) = t"
| "typed_text (Hex b) = hex_EncodeToString b"

fun typed_ids :: "typed \<Rightarrow> pubkey list" where
  "typed_ids Blank = []"
| "typed_ids (Name t) = [take 32 (string_bytes t @ replicate 32 0)]"
| "typed_ids (Hex b) = [take 32 (b @ replicate 32 0)]"

fun typed_ok :: "typed \<Rightarrow> bool" where
  "typed_ok Blank = True"
| "typed_ok (Name t) = (t \<noteq> [] \<and> list_all plain t \<and> CHR '','' \<notin> set t \<and> hex_DecodeString t = None)"
| "typed_ok (Hex b) = (b \<noteq> [])"

definition entry_ok :: "string \<times> typed \<times> string \<Rightarrow> bool" where
  "entry_ok x = (case x of (l, e, r) \<Rightarrow> blanks l \<and> blanks r \<and> typed_ok e)"

definition entry_text :: "string \<times> typed \<times> string \<Rightarrow> string" where
  "entry_text x = (case x of (l, e, r) \<Rightarrow> l @ typed_text e @ r)"

lemma go_copy_zero_key: "go_copy zero_key b = take 32 (b @ replicate 32 0)"
  by (simp add: go_copy_def zero_key_def)

lemma typed_text_ok:
  assumes "typed_ok e"
  shows "list_all plain (typed_text e)" and "CHR '','' \<notin> set (typed_text e)"
    and "(if typed_text e = [] then [] else [parse_id (typed_text e)]) = typed_ids e"
proof -
  have "\<forall>c \<in> set hex_digits. plain c" by (simp add: hex_digits_def plain_def)
  then have "list_all plain (hex_EncodeToString b)" for b
    using set_hex_encode [of b] by (auto simp: list_all_iff)
  then show "list_all plain (typed_text e)" and "CHR '','' \<notin> set (typed_text e)"
    using assms by (cases e; simp)+
  show "(if typed_text e = [] then [] else [parse_id (typed_text e)]) = typed_ids e"
    using assms by (cases e) (simp_all add: parse_id_def go_copy_zero_key Let_def)
qed

lemma comma_plain: "plain CHR '',''"
  by (simp add: plain_def)

text \<open>The parts, each trimmed, of a list whose ends have been trimmed.\<close>

lemma parse_entries:
  assumes "list_all entry_ok es" and "es \<noteq> []"
  shows "map strings_TrimSpace (split_char CHR '','' (strings_TrimSpace (strings_Join (map entry_text es) '',''))) =
    map (\<lambda>(l, e, r). typed_text e) es"
proof -
  have no: "CHR '','' \<notin> set (l @ typed_text e @ q)" if "blanks l" "blanks q" "typed_ok e" for l e q
    using that typed_text_ok(2) [of e] by (auto simp: blanks_def)
  have part: "strings_TrimSpace (l @ typed_text e @ q) = typed_text e" if "blanks l" "blanks q" "typed_ok e" for l e q
    using TrimSpace_piece [OF that(1,2) typed_text_ok(1) [OF that(3)]] .
  have one: "strings_TrimSpace (entry_text x) = (case x of (l, e, r) \<Rightarrow> typed_text e) \<and> CHR '','' \<notin> set (entry_text x)"
    if "entry_ok x" for x
  proof -
    obtain l e r where x: "x = (l, e, r)" by (cases x)
    with that have "blanks l" "blanks r" "typed_ok e" by (simp_all add: entry_ok_def)
    from part [OF this] no [OF this] show ?thesis by (simp add: x entry_text_def)
  qed
  have parts: "map strings_TrimSpace (map entry_text xs) = map (\<lambda>(l, e, r). typed_text e) xs"
    and nos: "\<forall>w \<in> set (map entry_text xs). CHR '','' \<notin> set w" if "list_all entry_ok xs" for xs
    using that one by (simp_all add: list_all_iff)
  obtain l e q where x: "hd es = (l, e, q)" by (cases "hd es")
  have first: "blanks l" "blanks q" "typed_ok e" using assms x by (cases es; simp add: entry_ok_def)+
  have nil: "blanks []" by (simp add: blanks_def)
  note T = typed_text_ok(1) [OF first(3)]
  show ?thesis
  proof (cases "tl es")
    case Nil
    then have "es = [(l, e, q)]" using assms(2) x by (cases es) simp_all
    then show ?thesis
      using part [OF first] part [OF nil nil first(3)] no [OF nil nil first(3)]
      by (simp add: entry_text_def split_char_word)
  next
    case (Cons y ys)
    obtain mid l' e' q' where es: "es = (l, e, q) # mid @ [(l', e', q')]"
      using Cons x assms(2) by (cases es rule: list.exhaust; cases "tl es" rule: rev_cases) auto
    have last: "blanks l'" "blanks q'" "typed_ok e'" and mid: "list_all entry_ok mid"
      using assms(1) es by (simp_all add: entry_ok_def)
    note T' = typed_text_ok(1) [OF last(3)]
    let ?a = "if typed_text e = [] then [] else typed_text e @ q"
    let ?b = "if typed_text e' = [] then [] else l' @ typed_text e'"
    have "strings_TrimSpace (strings_Join (map entry_text es) '','') = strings_Join (?a # map entry_text mid @ [?b]) '',''"
      using TrimSpace_Join [OF first(1,2) T last(1,2) T' comma_plain, of "map entry_text mid"]
      by (simp add: es entry_text_def)
    moreover have "split_char CHR '','' (strings_Join (?a # map entry_text mid @ [?b]) '','') = ?a # map entry_text mid @ [?b]"
      by (rule split_join) (use no [OF nil first(2,3)] no [OF last(1) nil last(3)] nos [OF mid] in auto)
    ultimately show ?thesis
      using part [OF nil first(2,3)] part [OF last(1) nil last(3)] part [OF nil nil first(3)] part [OF nil nil last(3)] parts [OF mid]
      by (simp add: es)
  qed
qed

lemma parse_parts_eq: "parse_parts ps [] = concat (map (\<lambda>t. if t = [] then [] else [parse_id t]) (map strings_TrimSpace ps))"
  unfolding parse_parts_map by (induction ps) simp_all

text \<open>
  C39 (functional): a recipient list, whatever mixture of entries it has: entries separated by commas, each
  with any spaces and tabs around it, are parsed in order; one with nothing in it is dropped, hex text becomes
  the bytes it encodes, any other printable text its own bytes, both cut to 32 bytes or padded with
  zeros to 32.
\<close>

theorem parse_recipients_entries:
  assumes "list_all entry_ok es"
  shows "parseRecipients (strings_Join (map entry_text es) '','') = concat (map (\<lambda>(l, e, r). typed_ids e) es)"
proof (cases "es = []")
  case True
  then show ?thesis by (simp add: parseRecipients_def)
next
  case False
  let ?s = "strings_TrimSpace (strings_Join (map entry_text es) '','')"
  have "parseRecipients (strings_Join (map entry_text es) '','') = parse_parts (split_char CHR '','' ?s) []"
    by (cases "?s = []") (simp_all add: parseRecipients_def)
  also have "\<dots> = concat (map (\<lambda>t. if t = [] then [] else [parse_id t]) (map (\<lambda>(l, e, r). typed_text e) es))"
    by (simp only: parse_parts_eq parse_entries [OF assms False])
  also have "\<dots> = concat (map (\<lambda>(l, e, r). typed_ids e) es)"
  proof (unfold map_map, intro arg_cong [of _ _ concat] map_cong refl)
    fix x assume "x \<in> set es"
    moreover obtain l e r where x: "x = (l, e, r)" by (cases x)
    ultimately have "typed_ok e" using assms by (auto simp: list_all_iff entry_ok_def)
    from typed_text_ok(3) [OF this]
    show "((\<lambda>t. if t = [] then [] else [parse_id t]) \<circ> (\<lambda>(l, e, r). typed_text e)) x = (case x of (l, e, r) \<Rightarrow> typed_ids e)"
      by (simp add: x split: if_splits)
  qed
  finally show ?thesis .
qed

theorem parse_recipients_entries_witness:
  "parseRecipients '' bob,abcd , ,'' =
    [take 32 (string_bytes ''bob'' @ replicate 32 0), take 32 ([171, 205] @ replicate 32 0)]"
proof -
  let ?es = "[('' '', Name ''bob'', ''''), ('''', Hex [171, 205], '' ''), ('' '', Blank, ''''), ('''', Blank, '''')]"
  have hex: "hex_EncodeToString [171, 205] = ''abcd''" by (simp add: hex_encode_Cons hex_digits_def)
  have "list_all entry_ok ?es"
    by (simp add: entry_ok_def blanks_def plain_def from_hex_char_def)
  from parse_recipients_entries [OF this] show ?thesis
    by (simp add: entry_text_def hex)
qed

text \<open>
  C40 (roundtrip): recipients written as comma-separated 64-digit hex keys are parsed to those keys, in
  order.
\<close>

theorem parse_recipients_roundtrip:
  assumes "list_all is_key ks"
  shows "parseRecipients (strings_Join (map hex_EncodeToString ks) '','') = ks"
proof (cases ks)
  case Nil
  have "strings_TrimSpace (hex_EncodeToString []) = hex_EncodeToString []" by (rule trim_hex)
  with Nil show ?thesis by (simp add: parseRecipients_def)
next
  case (Cons k ks')
  have hex: "strings_TrimSpace (hex_EncodeToString j) = hex_EncodeToString j \<and> hex_EncodeToString j \<noteq> [] \<and>
    parse_id (hex_EncodeToString j) = j" if "j \<in> set ks" for j
  proof -
    have "length j = 32" using that assms by (simp add: list_all_iff is_key_def)
    then show ?thesis by (auto simp: parse_id_def zero_key_def)
  qed
  have ne: "strings_Join (map hex_EncodeToString ks) '','' \<noteq> []"
    using hex [of k] Cons by (cases ks') auto
  have "split_char CHR '','' (strings_Join (map hex_EncodeToString ks) '','') = map hex_EncodeToString ks"
    by (rule split_join) (use Cons in auto)
  moreover have "map parse_id (filter (\<lambda>t. t \<noteq> []) (map strings_TrimSpace (map hex_EncodeToString js))) = js"
    if "set js \<subseteq> set ks" for js
    using that hex by (induction js) auto
  ultimately show ?thesis
    using ne by (simp add: parseRecipients_def trim_hex_list parse_parts_map Let_def)
qed

theorem parse_recipients_roundtrip_witness:
  "parseRecipients (strings_Join (map hex_EncodeToString [replicate 32 171, zero_key]) '','') =
    [replicate 32 171, zero_key]"
  by (rule parse_recipients_roundtrip) (simp add: is_key_def zero_key_def)

lemma append_ids_eq:
  "i + k \<le> length rs \<Longrightarrow> append_ids rs k i frame = Inr (frame @ concat (take k (drop i rs)))"
proof (induction rs k i frame rule: append_ids.induct)
  case (2 rs k i frame)
  then have "drop i rs = rs ! i # drop (Suc i) rs" by (simp add: Cons_nth_drop_Suc)
  with 2 show ?case by simp
qed simp

lemma client_frame_eq: "client_frame rs chunk = Inr (frame_bytes (take MaxTargetsPerMessage rs) chunk)"
  by (simp add: client_frame_def append_ids_eq frame_bytes_def min_def Let_def)

text \<open>The chunk loop, when no write fails.\<close>

lemma send_chunks_frames:
  assumes "list_all is_key (currentRecipients c)"
  shows "\<exists>chunks. send_chunks (\<lambda>_ _. True) payload off c =
      Inr (c\<lparr>sent := sent c @ map (frame_bytes (take MaxTargetsPerMessage (currentRecipients c))) chunks\<rparr>, True) \<and>
    concat chunks = drop off payload \<and> list_all (\<lambda>ch. ch \<noteq> [] \<and> length ch \<le> maxPayloadPerFrame) chunks"
  using assms
proof (induction "length payload - off" arbitrary: off c rule: less_induct)
  case less
  show ?case
  proof (cases "off < length payload")
    case False
    then show ?thesis by (intro exI [of _ "[]"]) (simp add: send_chunks.simps)
  next
    case True
    let ?fr = "frame_bytes (take MaxTargetsPerMessage (currentRecipients c))"
    define ch where "ch = take maxPayloadPerFrame (drop off payload)"
    let ?c = "c\<lparr>sent := sent c @ [?fr ch]\<rparr>" and ?off = "off + maxPayloadPerFrame"
    have step: "send_chunks (\<lambda>_ _. True) payload off c = send_chunks (\<lambda>_ _. True) payload ?off ?c"
      using True by (subst send_chunks.simps) (auto simp: client_frame_eq ch_def Let_def)
    have "length payload - ?off < length payload - off" using True by (simp add: maxPayloadPerFrame_def)
    from less.hyps [OF this, of ?c] less.prems obtain chunks where
      chunks: "send_chunks (\<lambda>_ _. True) payload ?off ?c = Inr (?c\<lparr>sent := sent ?c @ map ?fr chunks\<rparr>, True)"
      "concat chunks = drop ?off payload" "list_all (\<lambda>ch. ch \<noteq> [] \<and> length ch \<le> maxPayloadPerFrame) chunks"
      by auto
    have "ch \<noteq> []" "length ch \<le> maxPayloadPerFrame" using True by (simp_all add: ch_def maxPayloadPerFrame_def)
    moreover have "ch @ drop ?off payload = drop off payload"
      by (simp add: ch_def add.commute flip: drop_drop)
    ultimately show ?thesis using step chunks by (intro exI [of _ "ch # chunks"]) simp
  qed
qed

text \<open>
  C25 (functional): a typed line that is not a command is sent as frames whose payloads are the trimmed
  line cut into pieces, and each frame is read by the server as follows: with no recipients it is
  skipped, with a recipient named twice among the first ten it is a protocol violation that costs the
  connection, and otherwise it is a message of that piece to the first ten recipients.
\<close>

theorem client_frames_decode:
  assumes "list_all is_key (currentRecipients c)" and "strings_TrimSpace input \<noteq> []"
    and "\<not> strings_HasPrefix (strings_TrimSpace input) ''/''"
  shows "\<exists>chunks frames. process_line (\<lambda>_ _. True) input c = Inr (c\<lparr>sent := sent c @ frames\<rparr>, True) \<and>
    concat chunks = string_bytes (strings_TrimSpace input) \<and> chunks \<noteq> [] \<and>
    map (\<lambda>f. decode_frame (int MaxMessageSize) f EOF) frames =
    map (\<lambda>ch. let ts = take 10 (currentRecipients c) in
      if ts = [] then Inl ErrSkipMessage
      else if \<not> distinct ts then Inl ErrInvalidMessage
      else Inr (ts, ch)) chunks"
proof -
  let ?p = "string_bytes (strings_TrimSpace input)" and ?ts = "take MaxTargetsPerMessage (currentRecipients c)"
  obtain chunks where chunks: "send_chunks (\<lambda>_ _. True) ?p 0 c = Inr (c\<lparr>sent := sent c @ map (frame_bytes ?ts) chunks\<rparr>, True)"
    "concat chunks = ?p" "list_all (\<lambda>ch. ch \<noteq> [] \<and> length ch \<le> maxPayloadPerFrame) chunks"
    using send_chunks_frames [OF assms(1), of ?p 0] by auto
  have "?p \<noteq> []" using assms(2) by (simp add: string_bytes_def)
  with chunks(2) have "chunks \<noteq> []" by auto
  moreover have "decode_frame (int MaxMessageSize) (frame_bytes ?ts ch) EOF =
      (let ts = take 10 (currentRecipients c) in
       if ts = [] then Inl ErrSkipMessage else if \<not> distinct ts then Inl ErrInvalidMessage else Inr (ts, ch))"
    if "ch \<in> set chunks" for ch
  proof -
    have "length ch \<le> 32768" using chunks(3) that by (simp add: list_all_iff maxPayloadPerFrame_def)
    moreover have "list_all is_key ?ts" using assms(1) by (auto simp: list_all_iff dest: in_set_takeD)
    ultimately show ?thesis
      by (subst decode_keys) (simp_all add: MaxMessageSize_def MaxTargetsPerMessage_def Let_def)
  qed
  ultimately show ?thesis
    using chunks(1,2) assms(2,3)
    by (intro exI [of _ chunks] exI [of _ "map (frame_bytes ?ts) chunks"]) (simp add: process_line_def Let_def)
qed

theorem client_frames_decode_witness:
  "let c = \<lparr>currentRecipients = [zero_key, replicate 32 1], sent = [], cancelled = False\<rparr> in
   \<exists>chunks frames. process_line (\<lambda>_ _. True) ''ab'' c = Inr (c\<lparr>sent := sent c @ frames\<rparr>, True) \<and>
    concat chunks = string_bytes (strings_TrimSpace ''ab'') \<and> chunks \<noteq> [] \<and>
    map (\<lambda>f. decode_frame (int MaxMessageSize) f EOF) frames =
    map (\<lambda>ch. let ts = take 10 (currentRecipients c) in
      if ts = [] then Inl ErrSkipMessage
      else if \<not> distinct ts then Inl ErrInvalidMessage
      else Inr (ts, ch)) chunks"
proof -
  have "strings_TrimSpace ''ab'' = ''ab''" by (rule trim_hex_text) (simp add: hex_list_chars_def hex_digits_def)
  then show ?thesis
    unfolding Let_def [where s = "\<lparr>currentRecipients = _, sent = _, cancelled = _\<rparr>"]
    by (intro client_frames_decode) (simp_all add: is_key_def zero_key_def strings_HasPrefix_def)
qed

text \<open>
  A line that is only a slash makes the client index an empty list of words and panic,
  whatever its state.
\<close>

lemma client_slash_panics: "process_line conn_Write ''/'' c = Inl IndexOutOfRange"
proof -
  have "space_len space_runes ''/'' = 0 \<and> space_len (map rev space_runes) ''/'' = 0"
    by (simp add: space_len_def space_runes_def)
  then have "strings_TrimSpace ''/'' = ''/''" by (simp add: strings_TrimSpace_def trim_left.simps)
  then show ?thesis
    by (simp add: process_line_def strings_HasPrefix_def strings_TrimPrefix_def strings_Fields_def flush_def go_index_def)
qed

lemma client_inbound_eq:
  "client_inbound data = Inr (case Payload data of Inr (Some p) \<Rightarrow> True | _ \<Rightarrow> False)"
proof (cases "length data < 37")
  case True
  then show ?thesis by (simp add: client_inbound_def Payload_def Let_def)
next
  case False
  then have n: "ToIDsLen data = data ! 32" by (simp add: ToIDsLen_def)
  let ?o = "33 + unat (data ! 32) * 32"
  show ?thesis
  proof (cases "length data < ?o + 4")
    case True
    with False n show ?thesis by (simp add: client_inbound_def Payload_def Let_def)
  next
    case enough: False
    then obtain v where "be_uint32 (take 4 (drop ?o data)) = Inr v" using be_uint32_total [of "take 4 (drop ?o data)"] by auto
    with False enough n show ?thesis by (simp add: client_inbound_def Payload_def Let_def)
  qed
qed

text \<open>
  The client's check of inbound frames never indexes out of range, and accepts
  exactly the frames whose payload the server's own accessor \<open>Payload\<close> can read.
\<close>

lemma client_inbound_is_payload:
  "client_inbound data = Inr (case Payload data of Inr (Some p) \<Rightarrow> True | _ \<Rightarrow> False)"
  by (rule client_inbound_eq)

lemma client_inbound_message: "message_parts_ok from tos payload \<Longrightarrow> client_inbound (build_message from tos payload) = Inr True"
  by (simp add: client_inbound_eq Payload_build)

text \<open>
  The key the client accepts on its command line is the key the server's default
  authenticator gives the connection it opens with it.
\<close>

theorem client_server_key:
  assumes "client_key pub = Some k"
  shows "DefaultAuthenticator_Authenticate \<lparr>Path = ''/'', Query = [(''pub'', pub)]\<rparr> = Inr \<lparr>PubKey = k, UserID = pub\<rparr> \<and>
    is_key k"
  using assms
  by (auto simp: client_key_def DefaultAuthenticator_Authenticate_def query_Get_def is_key_def zero_key_def
      split: if_splits option.splits)

theorem client_server_key_witness:
  "DefaultAuthenticator_Authenticate \<lparr>Path = ''/'', Query = [(''pub'', hex_EncodeToString (replicate 32 18))]\<rparr> =
      Inr \<lparr>PubKey = replicate 32 18, UserID = hex_EncodeToString (replicate 32 18)\<rparr> \<and>
    is_key (replicate 32 18)"
  by (rule client_server_key) (simp add: client_key_def zero_key_def)

end
