(* ===== verification/Load_Generators.thy ===== *)
theory Load_Generators
  imports Client
begin

section \<open>cmd/loadtest and cmd/churntest: generated traffic\<close>

text \<open>
  The two load generators: their identities, the choice of a target, the frames they build, the check
  and count of what comes back, and their timing. Random numbers come from a generator state
  through \<open>intn\<close>, for \<open>math/rand\<close>'s \<open>Intn\<close> and \<open>Int63n\<close>: both panic when the bound is not positive.
\<close>

subsection \<open>Identities, random choices, totals\<close>

definition load_pub :: "nat \<Rightarrow> pubkey" where
  "load_pub i = (let s = CHR ''C'' # decimal (i + 1) in go_copy zero_key (string_bytes s))"

definition load_pubs :: "nat \<Rightarrow> pubkey list" where
  "load_pubs n = map load_pub [0..<n]"

type_synonym 'g random = "int \<Rightarrow> 'g \<Rightarrow> int \<times> 'g"

definition rand_Intn :: "'g random \<Rightarrow> int \<Rightarrow> 'g \<Rightarrow> (int \<times> 'g) res" where
  "rand_Intn intn n g = (if n \<le> 0 then Inl InvalidArgument else Inr (intn n g))"

text \<open>What \<open>math/rand\<close> documents.\<close>

definition random_ok :: "'g random \<Rightarrow> bool" where
  "random_ok intn \<longleftrightarrow> (\<forall>n g. 0 < n \<longrightarrow> 0 \<le> fst (intn n g) \<and> fst (intn n g) < n)"

record totals =
  totalSent :: u64
  totalRecv :: u64
  totalErr :: u64

subsection \<open>cmd/loadtest\<close>

fun fill_payload :: "'g random \<Rightarrow> nat \<Rightarrow> 'g \<Rightarrow> bytes \<Rightarrow> (bytes \<times> 'g) res" where
  "fill_payload intn 0 g payload = Inr (payload, g)"
| "fill_payload intn (Suc k) g payload =
     bind_res (rand_Intn intn 26 g) (\<lambda>(r, g'). fill_payload intn k g' (payload @ [of_int (97 + r)]))"

definition load_tick :: "'g random \<Rightarrow> pubkey list \<Rightarrow> int \<Rightarrow> 'g \<Rightarrow> (bytes \<times> 'g) res" where
  "load_tick intn pubs idx g =
     bind_res (fill_payload intn 16 g []) (\<lambda>(payload, g1).
     bind_res (rand_Intn intn (int (length pubs) - 1) g1) (\<lambda>(i, g2).
       let targetIdx = (if i \<ge> idx then i + 1 else i) in
       bind_res (go_index targetIdx pubs) (\<lambda>target.
         Inr ([1] @ target @ be_put_uint32 16 @ payload, g2))))"

text \<open>The writer's loop; \<open>None\<close> is the end of the context, \<open>Some ok\<close> a tick whose write has that outcome.\<close>

fun load_writer ::
  "'g random \<Rightarrow> pubkey list \<Rightarrow> int \<Rightarrow> bool option list \<Rightarrow> 'g \<Rightarrow> bytes list \<Rightarrow> totals \<Rightarrow> (bytes list \<times> totals) res" where
  "load_writer intn pubs idx [] g out t = Inr (out, t)"
| "load_writer intn pubs idx (None # evs) g out t = Inr (out, t)"
| "load_writer intn pubs idx (Some ok # evs) g out t =
     bind_res (load_tick intn pubs idx g) (\<lambda>(buf, g').
       if ok then load_writer intn pubs idx evs g' (out @ [buf]) (t\<lparr>totalSent := totalSent t + 1\<rparr>)
       else Inr (out, t\<lparr>totalErr := totalErr t + 1\<rparr>))"

text \<open>\<open>time.Second / time.Duration(m)\<close> and the ticker, which panics on an interval that is not positive.\<close>

definition tick_interval :: "int \<Rightarrow> int res" where
  "tick_interval m =
     (if m = 0 then Inl DivideByZero
      else let interval = sgn m * (1000000000 div \<bar>m\<bar>) in
           if interval \<le> 0 then Inl InvalidArgument else Inr interval)"

text \<open>\<open>None\<close>: a connector with \<open>m \<le> 0\<close> sends nothing.\<close>

definition load_interval :: "int \<Rightarrow> int option res" where
  "load_interval m = (if m \<le> 0 then Inr None else bind_res (tick_interval m) (\<lambda>i. Inr (Some i)))"

text \<open>The reader; \<open>stopping\<close> says that the read context has been cancelled.\<close>

definition load_inbound :: "bytes \<Rightarrow> bool res" where
  "load_inbound data =
     (if length data < 37 then Inr False
      else
        bind_res (go_slice 0 32 data) (\<lambda>from.
        bind_res (go_index 32 data) (\<lambda>b.
          let nTo = unat b; dataLenOff = 33 + nTo * 32 in
          if dataLenOff + 4 > length data then Inr False
          else
            bind_res (go_slice dataLenOff (dataLenOff + 4) data) (\<lambda>s.
            bind_res (be_uint32 s) (\<lambda>v.
              if dataLenOff + 4 + unat v > length data then Inr False else Inr True)))))"

fun load_reader :: "bool \<Rightarrow> inbound list \<Rightarrow> totals \<Rightarrow> totals res" where
  "load_reader stopping [] t = Inr t"
| "load_reader stopping (ReadFailed # ins) t =
     Inr (if stopping then t else t\<lparr>totalErr := totalErr t + 1\<rparr>)"
| "load_reader stopping (Message binary data # ins) t =
     (if \<not> binary then load_reader stopping ins t
      else bind_res (load_inbound data) (\<lambda>ok.
        load_reader stopping ins (if ok then t\<lparr>totalRecv := totalRecv t + 1\<rparr> else t)))"

text \<open>The comparison with the server's counters, in 64-bit arithmetic.\<close>

definition expectedDelivered :: "u64 \<Rightarrow> u64 \<Rightarrow> u64" where
  "expectedDelivered p nr = (if p \<ge> nr then p - nr else 0)"

definition metric_deltas :: "u64 \<Rightarrow> u64 \<Rightarrow> u64 \<Rightarrow> totals \<Rightarrow> int \<times> int \<times> int" where
  "metric_deltas p d nr t =
     (sint (totalSent t - p), sint (expectedDelivered p nr - d), sint (totalRecv t - d))"

subsection \<open>cmd/churntest\<close>

definition churn_inbound :: "bytes \<Rightarrow> bool res" where
  "churn_inbound data =
     (if length data < 37 then Inr False
      else
        bind_res (go_index 32 data) (\<lambda>b.
          let dataLenOff = 33 + unat b * 32 in
          if dataLenOff + 4 > length data then Inr False
          else
            bind_res (go_slice dataLenOff (dataLenOff + 4) data) (\<lambda>s.
            bind_res (be_uint32 s) (\<lambda>v.
              if dataLenOff + 4 + unat v > length data then Inr False else Inr True))))"

fun churn_reader :: "inbound list \<Rightarrow> totals \<Rightarrow> totals res" where
  "churn_reader [] t = Inr t"
| "churn_reader (ReadFailed # ins) t = Inr t"
| "churn_reader (Message binary data # ins) t =
     (if \<not> binary then churn_reader ins t
      else bind_res (churn_inbound data) (\<lambda>ok.
        churn_reader ins (if ok then t\<lparr>totalRecv := totalRecv t + 1\<rparr> else t)))"

text \<open>A tick while online: \<open>None\<close> when there is nobody to send to.\<close>

definition churn_tick :: "'g random \<Rightarrow> pubkey list \<Rightarrow> int \<Rightarrow> 'g \<Rightarrow> (bytes option \<times> 'g) res" where
  "churn_tick intn pubs idx g =
     bind_res (rand_Intn intn (2048 - 512 + 1) g) (\<lambda>(r, g1).
       let sz = 512 + r; payload = replicate (nat sz) 0; n = int (length pubs) in
       if n \<le> 1 then Inr (None, g1)
       else
         bind_res (rand_Intn intn (n - 1) g1) (\<lambda>(j, g2).
           let targetIdx = (if j \<ge> idx then j + 1 else j) in
           bind_res (go_index targetIdx pubs) (\<lambda>target.
             Inr (Some ([1] @ target @ be_put_uint32 (of_nat (length payload)) @ payload), g2))))"

text \<open>The online loop: a tick and the outcome of its write, or the end of the context or of the online time.\<close>

datatype online_event = OnlineTick bool | OnlineEnd

fun churn_online ::
  "'g random \<Rightarrow> pubkey list \<Rightarrow> int \<Rightarrow> online_event list \<Rightarrow> 'g \<Rightarrow> bytes list \<Rightarrow> totals \<Rightarrow> (bytes list \<times> totals \<times> 'g) res" where
  "churn_online intn pubs idx [] g out t = Inr (out, t, g)"
| "churn_online intn pubs idx (OnlineEnd # evs) g out t = Inr (out, t, g)"
| "churn_online intn pubs idx (OnlineTick ok # evs) g out t =
     bind_res (churn_tick intn pubs idx g) (\<lambda>(frame, g').
       case frame of
         None \<Rightarrow> churn_online intn pubs idx evs g' out t
       | Some buf \<Rightarrow>
           if ok then churn_online intn pubs idx evs g' (out @ [buf]) (t\<lparr>totalSent := totalSent t + 1\<rparr>)
           else Inr (out, t\<lparr>totalErr := totalErr t + 1\<rparr>, g'))"

text \<open>
  A duration between \<open>lo\<close> and \<open>hi\<close>; \<open>hi - lo\<close> and \<open>delta + 1\<close> are 64-bit.
\<close>

definition random_duration :: "'g random \<Rightarrow> 64 word \<Rightarrow> 64 word \<Rightarrow> 'g \<Rightarrow> (64 word \<times> 'g) res" where
  "random_duration intn lo hi g =
     (if sint lo < sint hi then
        bind_res (rand_Intn intn (sint (hi - lo + 1)) g) (\<lambda>(r, g'). Inr (lo + of_int r, g'))
      else Inr (lo, g))"

text \<open>How long to wait after a failed dial.\<close>

definition retry_wait :: "'g random \<Rightarrow> 64 word \<Rightarrow> 'g \<Rightarrow> (64 word \<times> 'g) res" where
  "retry_wait intn onMin g =
     (if 0 < sint onMin then bind_res (rand_Intn intn (sint onMin) g) (\<lambda>(r, g'). Inr (of_int r, g'))
      else Inr (0, g))"

text \<open>
  One cycle of \<open>runChurnClient\<close> for a connector that could connect: the online time, the ticker, the
  messages sent and received meanwhile, and the offline time.
\<close>

definition churn_cycle ::
  "'g random \<Rightarrow> pubkey list \<Rightarrow> int \<Rightarrow> int \<Rightarrow> 64 word \<Rightarrow> 64 word \<Rightarrow> 64 word \<Rightarrow> 64 word \<Rightarrow> online_event list \<Rightarrow>
    inbound list \<Rightarrow> 'g \<Rightarrow> totals \<Rightarrow> (bytes list \<times> totals \<times> 64 word \<times> 64 word \<times> 'g) res" where
  "churn_cycle intn pubs idx m onMin onMax offMin offMax evs ins g t =
     bind_res (random_duration intn onMin onMax g) (\<lambda>(onDuration, g1).
     bind_res (churn_reader ins t) (\<lambda>t1.
     bind_res (tick_interval m) (\<lambda>interval.
     bind_res (churn_online intn pubs idx evs g1 [] t1) (\<lambda>(out, t2, g2).
     bind_res (random_duration intn offMin offMax g2) (\<lambda>(offDuration, g3).
       Inr (out, t2, onDuration, offDuration, g3))))))"

subsection \<open>Properties\<close>

lemma load_pub_key [simp]: "is_key (load_pub i)"
  by (simp add: load_pub_def is_key_def zero_key_def Let_def)

lemma unpad:
  assumes "xs @ replicate k (0 :: byte) = ys @ replicate l 0" and "0 \<notin> set xs" and "0 \<notin> set ys"
  shows "xs = ys"
proof -
  have "takeWhile (\<lambda>b. b \<noteq> 0) (zs @ replicate n 0) = zs" if "0 \<notin> set zs" for zs :: bytes and n
    using that by (subst takeWhile_append2) (auto simp: takeWhile_eq_Nil_iff)
  with assms show ?thesis by metis
qed

lemma load_pub_inj:
  assumes "i < 10 ^ 19" and "j < 10 ^ 19" and "load_pub i = load_pub j"
  shows "i = j"
proof -
  have *: "load_pub k = string_bytes (CHR ''C'' # decimal (k + 1)) @ replicate (31 - length (decimal (k + 1))) 0 \<and>
    0 \<notin> set (string_bytes (CHR ''C'' # decimal (k + 1)))" if "k < 10 ^ 19" for k
  proof
    have len: "length (decimal (k + 1)) \<le> 20" by (rule length_decimal) (use that in simp_all)
    then show "load_pub k = string_bytes (CHR ''C'' # decimal (k + 1)) @ replicate (31 - length (decimal (k + 1))) 0"
      by (simp add: load_pub_def go_copy_def zero_key_def Let_def)
    show "0 \<notin> set (string_bytes (CHR ''C'' # decimal (k + 1)))"
      using set_decimal [of "k + 1"] by (auto simp: string_bytes_def)
  qed
  then have "string_bytes (CHR ''C'' # decimal (i + 1)) = string_bytes (CHR ''C'' # decimal (j + 1))"
    using assms by (metis unpad)
  then show ?thesis by (simp add: string_bytes_inj) (metis decimal_inj Suc_inject)
qed

lemma fill_payload_ok:
  assumes "random_ok intn"
  shows "\<exists>p g'. fill_payload intn k g payload = Inr (payload @ p, g') \<and> length p = k"
proof (induction k arbitrary: g payload)
  case (Suc k)
  obtain r g1 where "intn 26 g = (r, g1)" by fastforce
  then show ?case using Suc.IH [of g1 "payload @ [of_int (97 + r)]"] by (auto simp: rand_Intn_def)
qed simp

lemma random_okD: "random_ok intn \<Longrightarrow> intn n g = (r, g') \<Longrightarrow> 0 < n \<Longrightarrow> 0 \<le> r \<and> r < n"
  unfolding random_ok_def by (metis fst_conv)

text \<open>Skipping one's own index, a number below \<open>n - 1\<close> becomes another index below \<open>n\<close>.\<close>

lemma pick_other:
  assumes "random_ok intn" and "0 \<le> idx" and "idx < int n" and "2 \<le> n" and "intn (int n - 1) g = (i, g')"
  defines "t \<equiv> if i \<ge> idx then i + 1 else i"
  shows "0 \<le> t \<and> t < int n \<and> t \<noteq> idx"
proof -
  have "0 \<le> i" "i < int n - 1" using random_okD [OF assms(1,5)] assms(4) by simp_all
  then show ?thesis using assms(2,3) by (auto simp: t_def)
qed

lemma load_frame_decodes:
  assumes "is_key target" and "length payload \<le> 2048"
  shows "decode_frame (int MaxMessageSize) ([1] @ target @ be_put_uint32 (of_nat (length payload)) @ payload) EOF =
    Inr ([target], payload)"
proof -
  have "[1] @ target @ be_put_uint32 (of_nat (length payload)) @ payload = frame_bytes [target] payload"
    by (simp add: frame_bytes_def)
  moreover have "frame_ok (int MaxMessageSize) [target] payload"
    using assms by (simp add: frame_ok_def MaxMessageSize_def MaxTargetsPerMessage_def)
  ultimately show ?thesis by (simp add: decode_frame_bytes)
qed

text \<open>A frame the server accepts, for another connector of the population than \<open>idx\<close>.\<close>

definition generated :: "nat \<Rightarrow> nat \<Rightarrow> nat \<Rightarrow> nat \<Rightarrow> bytes \<Rightarrow> bool" where
  "generated n lo hi idx buf \<longleftrightarrow>
     (\<exists>j payload. j < n \<and> load_pub j \<noteq> load_pub idx \<and> lo \<le> length payload \<and> length payload \<le> hi \<and>
        decode_frame (int MaxMessageSize) buf EOF = Inr ([load_pub j], payload))"

text \<open>
  With at least two connectors, every tick of the load test builds a frame the server
  accepts: one recipient, the identity of another connector and never the sender's own, and sixteen
  bytes of payload.
\<close>

lemma load_tick_ok:
  assumes "random_ok intn" and "2 \<le> n" and "n < 10 ^ 19" and "idx < n"
  shows "\<exists>buf g'. load_tick intn (load_pubs n) (int idx) g = Inr (buf, g') \<and> generated n 16 16 idx buf"
proof -
  obtain payload g1 where p: "fill_payload intn 16 g [] = Inr (payload, g1)" "length payload = 16"
    using fill_payload_ok [OF assms(1), of 16 g "[]"] by auto
  obtain i g2 where i: "intn (int n - 1) g1 = (i, g2)" by fastforce
  define t where "t = (if i \<ge> int idx then i + 1 else i)"
  have t: "0 \<le> t \<and> t < int n \<and> t \<noteq> int idx"
    using pick_other [OF assms(1) _ _ assms(2) i, of "int idx"] assms(4) by (simp add: t_def)
  then have j: "nat t < n" "nat t \<noteq> idx" by auto
  have "load_tick intn (load_pubs n) (int idx) g =
    Inr ([1] @ load_pub (nat t) @ be_put_uint32 16 @ payload, g2)"
    using p i t j assms(2) by (simp add: load_tick_def load_pubs_def rand_Intn_def flip: t_def)
  moreover have "decode_frame (int MaxMessageSize) ([1] @ load_pub (nat t) @ be_put_uint32 16 @ payload) EOF =
    Inr ([load_pub (nat t)], payload)"
    using load_frame_decodes [of "load_pub (nat t)" payload] p(2) by simp
  moreover have "load_pub (nat t) \<noteq> load_pub idx" using load_pub_inj [of "nat t" idx] j assms(3,4) by auto
  ultimately show ?thesis using j p(2) by (auto simp: generated_def)
qed

definition always_zero :: "unit random" where
  "always_zero n g = (0, g)"

lemma always_zero_ok: "random_ok always_zero"
  by (simp add: random_ok_def always_zero_def)

text \<open>
  With at least two connectors, every tick of the churn test builds a frame the server
  accepts: one recipient, the identity of another connector, and a payload of 512 to 2048 bytes. Alone
  it sends nothing.
\<close>

lemma churn_tick_ok:
  assumes "random_ok intn" and "n < 10 ^ 19" and "idx < n"
  shows "\<exists>out g'. churn_tick intn (load_pubs n) (int idx) g = Inr (out, g') \<and>
    (case out of None \<Rightarrow> n = 1 | Some buf \<Rightarrow> generated n 512 2048 idx buf)"
proof -
  obtain r g1 where r: "intn 1537 g = (r, g1)" by fastforce
  have rb: "0 \<le> r" "r < 1537" using random_okD [OF assms(1) r] by simp_all
  let ?p = "replicate (nat (512 + r)) (0 :: byte)"
  show ?thesis
  proof (cases "n \<le> 1")
    case True
    then show ?thesis using r assms(3) by (auto simp: churn_tick_def load_pubs_def rand_Intn_def Let_def)
  next
    case False
    obtain i g2 where i: "intn (int n - 1) g1 = (i, g2)" by fastforce
    define t where "t = (if i \<ge> int idx then i + 1 else i)"
    have t: "0 \<le> t \<and> t < int n \<and> t \<noteq> int idx"
      using pick_other [OF assms(1) _ _ _ i, of "int idx"] assms(3) False by (simp add: t_def)
    then have j: "nat t < n" "nat t \<noteq> idx" by auto
    have "churn_tick intn (load_pubs n) (int idx) g =
      Inr (Some ([1] @ load_pub (nat t) @ be_put_uint32 (of_nat (length ?p)) @ ?p), g2)"
      using r i t j False by (simp add: churn_tick_def load_pubs_def rand_Intn_def Let_def flip: t_def)
    moreover have "decode_frame (int MaxMessageSize) ([1] @ load_pub (nat t) @ be_put_uint32 (of_nat (length ?p)) @ ?p) EOF =
      Inr ([load_pub (nat t)], ?p)"
      by (rule load_frame_decodes) (use rb in simp_all)
    moreover have "load_pub (nat t) \<noteq> load_pub idx" using load_pub_inj [of "nat t" idx] j assms(2,3) by auto
    moreover have "512 \<le> length ?p" "length ?p \<le> 2048" using rb by simp_all
    ultimately show ?thesis using j(1) unfolding generated_def by (intro exI conjI) (assumption, simp only: option.case, blast)
  qed
qed

text \<open>Both generators count the frames the client would accept.\<close>

lemma load_inbound_eq: "load_inbound data = client_inbound data"
proof -
  have "(if a then Inr False else Inr True) = (Inr (\<not> a) :: bool res)" for a by simp
  then show ?thesis by (simp only: load_inbound_def client_inbound_def Let_def)
qed

lemma churn_inbound_eq: "churn_inbound data = client_inbound data"
proof -
  have "(if a then Inr False else Inr True) = (Inr (\<not> a) :: bool res)" for a by simp
  then show ?thesis by (simp add: churn_inbound_def client_inbound_def Let_def)
qed

lemma load_reader_counts:
  "list_all (\<lambda>ch. client_inbound ch = Inr True) chs \<Longrightarrow>
    load_reader stopping (map (Message True) chs) t = Inr (t\<lparr>totalRecv := totalRecv t + of_nat (length chs)\<rparr>)"
  by (induction chs arbitrary: t) (simp_all add: load_inbound_eq algebra_simps)

lemma churn_reader_counts:
  "list_all (\<lambda>ch. client_inbound ch = Inr True) chs \<Longrightarrow>
    churn_reader (map (Message True) chs) t = Inr (t\<lparr>totalRecv := totalRecv t + of_nat (length chs)\<rparr>)"
  by (induction chs arbitrary: t) (simp_all add: churn_inbound_eq algebra_simps)

text \<open>A random duration lies between its bounds, when they are not negative and not at the end of the range.\<close>

lemma random_duration_bounds:
  assumes "random_ok intn" and "0 \<le> sint lo" and "sint lo \<le> sint hi" and "sint hi < 2 ^ 63 - 1"
  shows "\<exists>d g'. random_duration intn lo hi g = Inr (d, g') \<and> sint lo \<le> sint d \<and> sint d \<le> sint hi"
proof (cases "sint lo < sint hi")
  case True
  have fit: "sint (w :: 64 word) = k" if "w = word_of_int k" "0 \<le> k" "k < 2 ^ 63" for w k
    using that by (simp add: signed_of_int signed_take_bit_int_eq_self)
  have "hi - lo + 1 = word_of_int (sint hi - sint lo + 1)" by simp
  then have b: "sint (hi - lo + 1) = sint hi - sint lo + 1" by (rule fit) (use True assms in linarith)+
  obtain r g' where r: "intn (sint hi - sint lo + 1) g = (r, g')" by fastforce
  have rb: "0 \<le> r" "r \<le> sint hi - sint lo" using random_okD [OF assms(1) r] True by simp_all
  have "lo + of_int r = word_of_int (sint lo + r)" by simp
  then have "sint (lo + of_int r) = sint lo + r" by (rule fit) (use rb assms in linarith)+
  with True b r rb show ?thesis by (simp add: random_duration_def rand_Intn_def)
qed (use assms(3) in \<open>simp add: random_duration_def\<close>)

text \<open>
  A load test with a single connector panics at its first tick, because it draws its target from no
  candidates; a churn test asked for no messages per second panics in its first cycle, when it
  computes its interval.
\<close>

lemma load_alone_panics:
  assumes "random_ok intn"
  shows "load_tick intn (load_pubs 1) 0 g = Inl InvalidArgument"
proof -
  obtain payload g1 where "fill_payload intn 16 g [] = Inr (payload, g1)"
    using fill_payload_ok [OF assms, of 16 g "[]"] by auto
  then show ?thesis by (simp add: load_tick_def load_pubs_def rand_Intn_def)
qed

lemma churn_zero_rate_panics:
  "sint onMax \<le> sint onMin \<Longrightarrow> churn_cycle intn pubs idx 0 onMin onMax offMin offMax evs [] g t = Inl DivideByZero"
  by (simp add: churn_cycle_def random_duration_def tick_interval_def)

end
