(* ===== verification/Load_Runs.thy ===== *)
theory Load_Runs
  imports Load_Generators
begin

section \<open>cmd/loadtest and cmd/churntest: whole runs\<close>

text \<open>
  The two programs around the traffic: flags, identities, dialling, one goroutine per connector, the
  ticker that reports rates and compares counters with the server's \<open>/metrics\<close>, and the final
  summary. Timers, the end of the context, dialled connections and the answers of the network are
  events. The goroutines share only three counters, which they add to atomically; each of them adds an
  amount that does not depend on the counters' values (\<open>load_reader_adds\<close>, \<open>load_writer_adds\<close> and their
  counterparts), so running them one after the other gives the totals of every interleaving.
\<close>

subsection \<open>What the programs share\<close>

text \<open>\<open>make([][32]byte, *n)\<close>, and \<open>make([]string, *n)\<close> of smaller elements. The second component is \<open>pubsStr\<close>.\<close>

definition identities :: "int \<Rightarrow> (pubkey list \<times> string list) res" where
  "identities n =
     (if \<not> makes 32 n 0 then Inl InvalidArgument
      else (let pubs = load_pubs (nat n) in Inr (pubs, map hex_EncodeToString pubs)))"

text \<open>A response of \<open>http.Client.Get\<close>, its status and body, or an error; \<open>decode\<close> is \<open>json.Decoder.Decode\<close>
  into a struct whose only field is the map under \<open>app_metrics\<close>.\<close>

type_synonym 'b http_get = "string \<Rightarrow> string + (nat \<times> 'b)"

definition load_fetchMetrics ::
  "'b http_get \<Rightarrow> ('b \<Rightarrow> string + (string \<rightharpoonup> 'f)) \<Rightarrow> string \<Rightarrow> string + (string \<rightharpoonup> 'f)" where
  "load_fetchMetrics http_Get decode url =
     (case http_Get url of
        Inl e \<Rightarrow> Inl e
      | Inr (status, body) \<Rightarrow>
          if status \<noteq> 200 then Inl (''metrics status '' @ decimal status)
          else (case decode body of Inl e \<Rightarrow> Inl e | Inr m \<Rightarrow> Inr m))"

text \<open>\<open>if v, ok := m[k]; ok { x = uint64(v) }\<close>; the conversion is an argument.\<close>

definition metric :: "('f \<Rightarrow> u64) \<Rightarrow> (string \<rightharpoonup> 'f) \<Rightarrow> string \<Rightarrow> u64" where
  "metric as_uint m k = (case m k of None \<Rightarrow> 0 | Some v \<Rightarrow> as_uint v)"

text \<open>What the reporting goroutine sees: a tick of either ticker, with the counters at that moment, or the end.\<close>

datatype 'b stats_event =
    SummaryTick int totals
  | MetricsTick "'b http_get" totals
  | StatsDone

text \<open>What it logs: the totals with their change since the last line, or the two sides' counters.\<close>

datatype stats_line =
    SummaryLine int totals totals
  | MetricsFetchError string
  | MetricsLine u64 u64 u64 totals
  | MetricsDeltas u64 u64 u64 totals u64 "int \<times> int \<times> int"

definition since :: "totals \<Rightarrow> totals \<Rightarrow> totals" where
  "since t prev =
     \<lparr>totalSent = totalSent t - totalSent prev, totalRecv = totalRecv t - totalRecv prev,
      totalErr = totalErr t - totalErr prev\<rparr>"

definition no_totals :: totals where
  "no_totals = \<lparr>totalSent = 0, totalRecv = 0, totalErr = 0\<rparr>"

subsection \<open>cmd/loadtest\<close>

record load_flags =
  lf_addr :: string
  lf_n :: int
  lf_m :: int
  lf_duration :: int
  lf_outbuf :: int
  lf_seed :: "64 word"

text \<open>The defaults; \<open>now\<close> is \<open>time.Now().UnixNano()\<close>.\<close>

definition load_defaults :: "64 word \<Rightarrow> load_flags" where
  "load_defaults now =
     \<lparr>lf_addr = ''localhost:8080'', lf_n = 22000, lf_m = 5, lf_duration = 0, lf_outbuf = 64, lf_seed = now\<rparr>"

definition load_request :: "string \<Rightarrow> request" where
  "load_request idHex = \<lparr>Path = ''/ws'', Query = [(''pub'', idHex)]\<rparr>"

text \<open>
  What happens to one connector: the context ends during its start-up delay or not, the outcome of
  dialling a request, its writer's events, its reader's messages, and whether its read context was
  cancelled when reading failed.
\<close>

record connector_env =
  cancelled_early :: bool
  dials :: "request \<Rightarrow> bool"
  ticks :: "bool option list"
  inbounds :: "inbound list"
  read_stopped :: bool

definition runConnector ::
  "'g random \<Rightarrow> (64 word \<Rightarrow> 'g) \<Rightarrow> pubkey list \<Rightarrow> string list \<Rightarrow> nat \<Rightarrow> int \<Rightarrow> 64 word \<Rightarrow> connector_env \<Rightarrow> totals \<Rightarrow>
    (bytes list \<times> totals) res" where
  "runConnector intn newSource pubs pubsStr idx m seed env t =
     bind_res (go_index (int idx) pubsStr) (\<lambda>idHex.
     bind_res (rand_Intn intn 200 (newSource (seed + of_nat idx))) (\<lambda>(jitter, g).
       if cancelled_early env then Inr ([], t)
       else if \<not> dials env (load_request idHex) then Inr ([], t\<lparr>totalErr := totalErr t + 1\<rparr>)
       else
         bind_res (load_reader (read_stopped env) (inbounds env) t) (\<lambda>t1.
         bind_res (load_interval m) (\<lambda>interval.
           case interval of
             None \<Rightarrow> Inr ([], t1)
           | Some i \<Rightarrow> load_writer intn pubs (int idx) (ticks env) g [] t1))))"

text \<open>All connectors; the frames each has sent, and the totals.\<close>

fun run_connectors ::
  "(nat \<Rightarrow> totals \<Rightarrow> (bytes list \<times> totals) res) \<Rightarrow> nat list \<Rightarrow> totals \<Rightarrow> (bytes list list \<times> totals) res" where
  "run_connectors run [] t = Inr ([], t)"
| "run_connectors run (i # is) t =
     bind_res (run i t) (\<lambda>(out, t1).
     bind_res (run_connectors run is t1) (\<lambda>(outs, t2). Inr (out # outs, t2)))"

text \<open>\<open>time.Sleep\<close> after starting connector \<open>i\<close>, in nanoseconds.\<close>

definition load_stagger :: "nat \<Rightarrow> int" where
  "load_stagger i = (if i mod 100 = 0 then 5000000 else 0)"

fun load_stats ::
  "('f \<Rightarrow> u64) \<Rightarrow> ('b \<Rightarrow> string + (string \<rightharpoonup> 'f)) \<Rightarrow> string \<Rightarrow> 'b stats_event list \<Rightarrow> totals \<Rightarrow> stats_line list" where
  "load_stats as_uint decode addr [] prev = []"
| "load_stats as_uint decode addr (StatsDone # evs) prev = []"
| "load_stats as_uint decode addr (SummaryTick goroutines t # evs) prev =
     SummaryLine goroutines t (since t prev) # load_stats as_uint decode addr evs t"
| "load_stats as_uint decode addr (MetricsTick http_Get t # evs) prev =
     (case load_fetchMetrics http_Get decode (''http://'' @ addr @ ''/metrics'') of
        Inl e \<Rightarrow> MetricsFetchError e
      | Inr m \<Rightarrow>
          (let p = metric as_uint m ''processed_messages''; d = metric as_uint m ''delivered_messages'';
               nr = metric as_uint m ''no_recipient_messages''
           in MetricsDeltas p d nr t (expectedDelivered p nr) (metric_deltas p d nr t)))
     # load_stats as_uint decode addr evs prev"

text \<open>The final line: the totals, and messages sent and received per second of elapsed time \<open>d\<close>.\<close>

definition load_summary :: "'f float64_ops \<Rightarrow> 'f \<Rightarrow> totals \<Rightarrow> totals \<times> 'f \<times> 'f" where
  "load_summary F d t = (t, f_div F (f_of_int F (uint (totalSent t))) d, f_div F (f_of_int F (uint (totalRecv t))) d)"

definition load_main ::
  "'f float64_ops \<Rightarrow> ('f \<Rightarrow> u64) \<Rightarrow> ('b \<Rightarrow> string + (string \<rightharpoonup> 'f)) \<Rightarrow> 'g random \<Rightarrow> (64 word \<Rightarrow> 'g) \<Rightarrow> load_flags \<Rightarrow>
    (nat \<Rightarrow> connector_env) \<Rightarrow> 'b stats_event list \<Rightarrow> 'f \<Rightarrow>
    (bytes list list \<times> stats_line list \<times> totals \<times> 'f \<times> 'f) res" where
  "load_main F as_uint decode intn newSource flags envs stats elapsed =
     bind_res (identities (lf_n flags)) (\<lambda>(pubs, pubsStr).
     bind_res (run_connectors
         (\<lambda>i. runConnector intn newSource pubs pubsStr i (lf_m flags) (lf_seed flags) (envs i))
         [0..<nat (lf_n flags)] no_totals) (\<lambda>(outs, t).
       Inr (outs, load_stats as_uint decode (lf_addr flags) stats no_totals, load_summary F elapsed t)))"

subsection \<open>cmd/churntest\<close>

record churn_flags =
  cf_addr :: string
  cf_n :: int
  cf_m :: int
  cf_duration :: int
  cf_outbuf :: int
  cf_seed :: "64 word"
  cf_onMin :: "64 word"
  cf_onMax :: "64 word"
  cf_offMin :: "64 word"
  cf_offMax :: "64 word"

definition churn_defaults :: "64 word \<Rightarrow> churn_flags" where
  "churn_defaults now =
     \<lparr>cf_addr = ''localhost:8080'', cf_n = 25000, cf_m = 5, cf_duration = 0, cf_outbuf = 64, cf_seed = now,
      cf_onMin = 120 * 1000000000, cf_onMax = 240 * 1000000000, cf_offMin = 10 * 1000000000,
      cf_offMax = 60 * 1000000000\<rparr>"

definition churn_request :: "string \<Rightarrow> request" where
  "churn_request pubHex = \<lparr>Path = ''/'', Query = [(''pub'', pubHex)]\<rparr>"

text \<open>
  One turn of the loop of \<open>runChurnClient\<close>: the context has ended; dialling fails, and the context ends
  during the wait or not; or a cycle with its online events and inbound messages, and the context
  ends during the offline time or not.
\<close>

datatype churn_round =
    ChurnStopped
  | DialFailed bool
  | Cycle "online_event list" "inbound list" bool

fun churn_rounds ::
  "'g random \<Rightarrow> pubkey list \<Rightarrow> int \<Rightarrow> churn_flags \<Rightarrow> churn_round list \<Rightarrow> 'g \<Rightarrow> bytes list \<Rightarrow> totals \<Rightarrow> (bytes list \<times> totals) res" where
  "churn_rounds intn pubs idx fl [] g out t = Inr (out, t)"
| "churn_rounds intn pubs idx fl (ChurnStopped # rs) g out t = Inr (out, t)"
| "churn_rounds intn pubs idx fl (DialFailed stop # rs) g out t =
     (let t1 = t\<lparr>totalErr := totalErr t + 1\<rparr> in
      bind_res (retry_wait intn (cf_onMin fl) g) (\<lambda>(w, g1).
        if stop then Inr (out, t1) else churn_rounds intn pubs idx fl rs g1 out t1))"
| "churn_rounds intn pubs idx fl (Cycle evs ins stop # rs) g out t =
     bind_res (churn_cycle intn pubs idx (cf_m fl) (cf_onMin fl) (cf_onMax fl) (cf_offMin fl) (cf_offMax fl) evs ins g t)
       (\<lambda>(frames, t1, onDuration, offDuration, g1).
          if stop then Inr (out @ frames, t1) else churn_rounds intn pubs idx fl rs g1 (out @ frames) t1)"

definition runChurnClient ::
  "'g random \<Rightarrow> (64 word \<Rightarrow> 'g) \<Rightarrow> pubkey list \<Rightarrow> string list \<Rightarrow> int \<Rightarrow> churn_flags \<Rightarrow> churn_round list \<Rightarrow> totals \<Rightarrow>
    (bytes list \<times> totals) res" where
  "runChurnClient intn newSource pubs pubsStr idx fl rounds t =
     (if idx < 0 \<or> idx \<ge> int (length pubs) then Inr ([], t)
      else bind_res (go_index idx pubsStr) (\<lambda>pubHex.
        churn_rounds intn pubs idx fl rounds (newSource (cf_seed fl + of_int idx)) [] t))"

definition churn_stagger :: "nat \<Rightarrow> int" where
  "churn_stagger i = (if i mod 100 = 0 then 5000000 else 0)"

definition churn_fetchMetrics ::
  "'b http_get \<Rightarrow> ('b \<Rightarrow> string + (string \<rightharpoonup> 'f)) \<Rightarrow> string \<Rightarrow> string + (string \<rightharpoonup> 'f)" where
  "churn_fetchMetrics http_Get decode url =
     (case http_Get url of
        Inl e \<Rightarrow> Inl e
      | Inr (status, body) \<Rightarrow>
          if status \<noteq> 200 then Inl (''metrics status '' @ decimal status)
          else (case decode body of Inl e \<Rightarrow> Inl e | Inr m \<Rightarrow> Inr m))"

fun churn_stats ::
  "('f \<Rightarrow> u64) \<Rightarrow> ('b \<Rightarrow> string + (string \<rightharpoonup> 'f)) \<Rightarrow> string \<Rightarrow> 'b stats_event list \<Rightarrow> totals \<Rightarrow> stats_line list" where
  "churn_stats as_uint decode addr [] prev = []"
| "churn_stats as_uint decode addr (StatsDone # evs) prev = []"
| "churn_stats as_uint decode addr (SummaryTick goroutines t # evs) prev =
     SummaryLine goroutines t (since t prev) # churn_stats as_uint decode addr evs t"
| "churn_stats as_uint decode addr (MetricsTick http_Get t # evs) prev =
     (case churn_fetchMetrics http_Get decode (''http://'' @ addr @ ''/metrics'') of
        Inl e \<Rightarrow> MetricsFetchError e
      | Inr m \<Rightarrow>
          MetricsLine (metric as_uint m ''processed_messages'') (metric as_uint m ''delivered_messages'')
            (metric as_uint m ''no_recipient_messages'') t)
     # churn_stats as_uint decode addr evs prev"

definition churn_summary :: "'f float64_ops \<Rightarrow> 'f \<Rightarrow> totals \<Rightarrow> totals \<times> 'f \<times> 'f" where
  "churn_summary F d t = (t, f_div F (f_of_int F (uint (totalSent t))) d, f_div F (f_of_int F (uint (totalRecv t))) d)"

definition churn_main ::
  "'f float64_ops \<Rightarrow> ('f \<Rightarrow> u64) \<Rightarrow> ('b \<Rightarrow> string + (string \<rightharpoonup> 'f)) \<Rightarrow> 'g random \<Rightarrow> (64 word \<Rightarrow> 'g) \<Rightarrow> churn_flags \<Rightarrow>
    (nat \<Rightarrow> churn_round list) \<Rightarrow> 'b stats_event list \<Rightarrow> 'f \<Rightarrow>
    (bytes list list \<times> stats_line list \<times> totals \<times> 'f \<times> 'f) res" where
  "churn_main F as_uint decode intn newSource flags rounds stats elapsed =
     bind_res (identities (cf_n flags)) (\<lambda>(pubs, pubsStr).
     bind_res (run_connectors
         (\<lambda>i. runChurnClient intn newSource pubs pubsStr (int i) flags (rounds i))
         [0..<nat (cf_n flags)] no_totals) (\<lambda>(outs, t).
       Inr (outs, churn_stats as_uint decode (cf_addr flags) stats no_totals, churn_summary F elapsed t)))"

subsection \<open>What one goroutine adds to the counters\<close>

definition bump :: "u64 \<Rightarrow> u64 \<Rightarrow> u64 \<Rightarrow> totals \<Rightarrow> totals" where
  "bump s r e t = \<lparr>totalSent = totalSent t + s, totalRecv = totalRecv t + r, totalErr = totalErr t + e\<rparr>"

lemma bump_simps [simp]:
  "bump 0 0 0 t = t"
  "bump s r e (bump s' r' e' t) = bump (s' + s) (r' + r) (e' + e) t"
  "t\<lparr>totalSent := totalSent t + s\<rparr> = bump s 0 0 t"
  "t\<lparr>totalRecv := totalRecv t + r\<rparr> = bump 0 r 0 t"
  "t\<lparr>totalErr := totalErr t + e\<rparr> = bump 0 0 e t"
  "totalSent (bump s r e t) = totalSent t + s"
  by (simp_all add: bump_def algebra_simps)

lemma client_inbound_total: "\<exists>ok. client_inbound data = Inr ok"
  by (simp add: client_inbound_eq)

lemma load_reader_adds: "\<exists>r e. \<forall>t. load_reader stopping ins t = Inr (bump 0 r e t)"
proof (induction ins)
  case Nil
  show ?case by (intro exI [of _ 0]) simp
next
  case (Cons i ins)
  then obtain r e where IH: "\<forall>t. load_reader stopping ins t = Inr (bump 0 r e t)" by blast
  show ?case
  proof (cases i)
    case ReadFailed
    then show ?thesis by (intro exI [of _ 0] exI [of _ "if stopping then 0 else 1"]) simp
  next
    case (Message binary data)
    obtain ok where "client_inbound data = Inr ok" using client_inbound_total by blast
    with Message IH show ?thesis
      by (intro exI [of _ "(if binary \<and> ok then 1 else 0) + r"] exI [of _ e]) (simp add: load_inbound_eq)
  qed
qed

lemma churn_reader_adds: "\<exists>r. \<forall>t. churn_reader ins t = Inr (bump 0 r 0 t)"
proof (induction ins)
  case Nil
  show ?case by (intro exI [of _ 0]) simp
next
  case (Cons i ins)
  then obtain r where IH: "\<forall>t. churn_reader ins t = Inr (bump 0 r 0 t)" by blast
  show ?case
  proof (cases i)
    case ReadFailed
    then show ?thesis by (intro exI [of _ 0]) simp
  next
    case (Message binary data)
    obtain ok where "client_inbound data = Inr ok" using client_inbound_total by blast
    with Message IH show ?thesis
      by (intro exI [of _ "(if binary \<and> ok then 1 else 0) + r"]) (simp add: churn_inbound_eq)
  qed
qed

lemma load_writer_adds:
  assumes "random_ok intn" and "2 \<le> n" and "n < 10 ^ 19" and "idx < n"
  shows "\<exists>frames e. list_all (generated n 16 16 idx) frames \<and>
    (\<forall>out t. load_writer intn (load_pubs n) (int idx) evs g out t = Inr (out @ frames, bump (of_nat (length frames)) 0 e t))"
proof (induction evs arbitrary: g)
  case Nil
  show ?case by (intro exI [of _ "[]"] exI [of _ 0]) simp
next
  case (Cons ev evs)
  obtain buf g' where tick: "load_tick intn (load_pubs n) (int idx) g = Inr (buf, g')" and gen: "generated n 16 16 idx buf"
    using load_tick_ok [OF assms] by blast
  obtain frames e where IH: "list_all (generated n 16 16 idx) frames"
    "\<forall>out t. load_writer intn (load_pubs n) (int idx) evs g' out t = Inr (out @ frames, bump (of_nat (length frames)) 0 e t)"
    using Cons.IH by blast
  show ?case
  proof (cases ev)
    case None
    then show ?thesis by (intro exI [of _ "[]"] exI [of _ 0]) simp
  next
    case (Some ok)
    show ?thesis
    proof (cases ok)
      case True
      with Some tick gen IH show ?thesis by (intro exI [of _ "buf # frames"] exI [of _ e]) simp
    next
      case False
      with Some tick show ?thesis by (intro exI [of _ "[]"] exI [of _ 1]) simp
    qed
  qed
qed

lemma churn_online_adds:
  assumes "random_ok intn" and "n < 10 ^ 19" and "idx < n"
  shows "\<exists>frames e g'. list_all (generated n 512 2048 idx) frames \<and>
    (\<forall>out t. churn_online intn (load_pubs n) (int idx) evs g out t =
      Inr (out @ frames, bump (of_nat (length frames)) 0 e t, g'))"
proof (induction evs arbitrary: g)
  case Nil
  show ?case by (intro exI [of _ "[]"] exI [of _ 0] exI [of _ g]) simp
next
  case (Cons ev evs)
  obtain buf g1 where tick: "churn_tick intn (load_pubs n) (int idx) g = Inr (buf, g1)"
    "case buf of None \<Rightarrow> n = 1 | Some f \<Rightarrow> generated n 512 2048 idx f"
    using churn_tick_ok [OF assms] by blast
  obtain frames e g' where IH: "list_all (generated n 512 2048 idx) frames"
    "\<forall>out t. churn_online intn (load_pubs n) (int idx) evs g1 out t =
      Inr (out @ frames, bump (of_nat (length frames)) 0 e t, g')"
    using Cons.IH by blast
  show ?case
  proof (cases ev)
    case OnlineEnd
    then show ?thesis by (intro exI [of _ "[]"] exI [of _ 0] exI [of _ g]) simp
  next
    case (OnlineTick ok)
    show ?thesis
    proof (cases buf)
      case None
      with OnlineTick tick(1) IH show ?thesis by (intro exI [of _ frames] exI [of _ e] exI [of _ g']) simp
    next
      case (Some f)
      show ?thesis
      proof (cases ok)
        case True
        with OnlineTick Some tick IH show ?thesis by (intro exI [of _ "f # frames"] exI [of _ e] exI [of _ g']) simp
      next
        case False
        with OnlineTick Some tick(1) show ?thesis by (intro exI [of _ "[]"] exI [of _ 1] exI [of _ g1]) simp
      qed
    qed
  qed
qed

text \<open>One goroutine, whatever happens to it: what it sends and what it adds.\<close>

definition adds :: "(bytes \<Rightarrow> bool) \<Rightarrow> (totals \<Rightarrow> (bytes list \<times> totals) res) \<Rightarrow> bool" where
  "adds P run \<longleftrightarrow>
     (\<exists>frames r e. list_all P frames \<and> (\<forall>t. run t = Inr (frames, bump (of_nat (length frames)) r e t)))"

lemma addsI:
  "list_all P frames \<Longrightarrow> (\<And>t. run t = Inr (frames, bump (of_nat (length frames)) r e t)) \<Longrightarrow> adds P run"
  unfolding adds_def by blast

lemma tick_interval_ok: "1 \<le> m \<Longrightarrow> m \<le> 1000000000 \<Longrightarrow> \<exists>i. tick_interval m = Inr i"
  using pos_imp_zdiv_pos_iff [of m 1000000000] by (simp add: tick_interval_def Let_def)

lemma runConnector_adds:
  assumes "random_ok intn" and "2 \<le> n" and "n < 10 ^ 19" and "idx < n" and "m \<le> 1000000000"
  shows "adds (generated n 16 16 idx)
    (runConnector intn newSource (load_pubs n) (map hex_EncodeToString (load_pubs n)) idx m seed env)"
    (is "adds ?P ?run")
proof -
  note def = runConnector_def [of intn newSource "load_pubs n" "map hex_EncodeToString (load_pubs n)" idx m seed env]
  obtain j g where g: "intn 200 (newSource (seed + of_nat idx)) = (j, g)" by fastforce
  have len: "length (load_pubs n) = n" by (simp add: load_pubs_def)
  obtain r e where rd: "\<forall>t. load_reader (read_stopped env) (inbounds env) t = Inr (bump 0 r e t)"
    using load_reader_adds by blast
  obtain frames e' where wr: "list_all ?P frames"
    "\<forall>out t. load_writer intn (load_pubs n) (int idx) (ticks env) g out t = Inr (out @ frames, bump (of_nat (length frames)) 0 e' t)"
    using load_writer_adds [OF assms(1-4)] by blast
  consider "cancelled_early env" | "\<not> cancelled_early env" "\<not> dials env (load_request (hex_EncodeToString (load_pubs n ! idx)))"
    | "\<not> cancelled_early env" "dials env (load_request (hex_EncodeToString (load_pubs n ! idx)))" by blast
  then show ?thesis
  proof cases
    case 1
    then show ?thesis
      using assms(4) g len by (intro addsI [of _ "[]" _ 0 0]) (simp_all add: def rand_Intn_def)
  next
    case 2
    then show ?thesis
      using assms(4) g len by (intro addsI [of _ "[]" _ 0 1]) (simp_all add: def rand_Intn_def)
  next
    case 3
    show ?thesis
    proof (cases "m \<le> 0")
      case True
      with 3 show ?thesis
        using assms(4) g len rd by (intro addsI [of _ "[]" _ r e]) (simp_all add: def rand_Intn_def load_interval_def)
    next
      case False
      then obtain i where "tick_interval m = Inr i" using tick_interval_ok [of m] assms(5) by auto
      with 3 False show ?thesis
        using assms(4) g len rd wr
        by (intro addsI [of _ frames _ r "e + e'"]) (simp_all add: def rand_Intn_def load_interval_def)
    qed
  qed
qed

lemma random_duration_total:
  assumes "0 \<le> sint lo" and "sint hi < 2 ^ 63 - 1"
  shows "\<exists>x. random_duration intn lo hi g = Inr x"
proof (cases "sint lo < sint hi")
  case True
  have "hi - lo + 1 = word_of_int (sint hi - sint lo + 1)" by simp
  then have "sint (hi - lo + 1) = sint hi - sint lo + 1"
    using True assms by (simp add: signed_of_int signed_take_bit_int_eq_self del: of_int_add of_int_diff)
  then show ?thesis using True by (cases "intn (sint hi - sint lo + 1) g") (simp add: random_duration_def rand_Intn_def)
qed (simp add: random_duration_def)

text \<open>Flags a churn test can run with.\<close>

definition churn_flags_ok :: "churn_flags \<Rightarrow> bool" where
  "churn_flags_ok fl \<longleftrightarrow>
     1 \<le> cf_m fl \<and> cf_m fl \<le> 1000000000 \<and>
     0 \<le> sint (cf_onMin fl) \<and> sint (cf_onMax fl) < 2 ^ 63 - 1 \<and>
     0 \<le> sint (cf_offMin fl) \<and> sint (cf_offMax fl) < 2 ^ 63 - 1"

lemma churn_cycle_adds:
  assumes "random_ok intn" and "n < 10 ^ 19" and "idx < n" and "churn_flags_ok fl"
  shows "\<exists>frames r e on off g'. list_all (generated n 512 2048 idx) frames \<and>
    (\<forall>t. churn_cycle intn (load_pubs n) (int idx) (cf_m fl) (cf_onMin fl) (cf_onMax fl) (cf_offMin fl) (cf_offMax fl)
      evs ins g t = Inr (frames, bump (of_nat (length frames)) r e t, on, off, g'))"
proof -
  obtain on1 g1 where on1: "random_duration intn (cf_onMin fl) (cf_onMax fl) g = Inr (on1, g1)"
    using random_duration_total [of "cf_onMin fl" "cf_onMax fl" intn g] assms(4) by (auto simp: churn_flags_ok_def)
  obtain r where rd: "\<forall>t. churn_reader ins t = Inr (bump 0 r 0 t)" using churn_reader_adds by blast
  obtain i where i: "tick_interval (cf_m fl) = Inr i"
    using tick_interval_ok [of "cf_m fl"] assms(4) by (auto simp: churn_flags_ok_def)
  obtain frames e g2 where onl: "list_all (generated n 512 2048 idx) frames"
    "\<forall>out t. churn_online intn (load_pubs n) (int idx) evs g1 out t =
      Inr (out @ frames, bump (of_nat (length frames)) 0 e t, g2)"
    using churn_online_adds [OF assms(1-3)] by blast
  obtain off g3 where off: "random_duration intn (cf_offMin fl) (cf_offMax fl) g2 = Inr (off, g3)"
    using random_duration_total [of "cf_offMin fl" "cf_offMax fl" intn g2] assms(4) by (auto simp: churn_flags_ok_def)
  from on1 rd i onl off show ?thesis
    by (intro exI [of _ frames] exI [of _ r] exI [of _ e] exI [of _ on1] exI [of _ off] exI [of _ g3]) (simp add: churn_cycle_def)
qed

lemma churn_rounds_adds:
  assumes "random_ok intn" and "n < 10 ^ 19" and "idx < n" and "churn_flags_ok fl"
  shows "\<exists>frames r e. list_all (generated n 512 2048 idx) frames \<and>
    (\<forall>out t. churn_rounds intn (load_pubs n) (int idx) fl rounds g out t =
      Inr (out @ frames, bump (of_nat (length frames)) r e t))"
proof (induction rounds arbitrary: g)
  case Nil
  show ?case by (intro exI [of _ "[]"] exI [of _ 0]) simp
next
  case (Cons round rounds)
  show ?case
  proof (cases round)
    case ChurnStopped
    then show ?thesis by (intro exI [of _ "[]"] exI [of _ 0]) simp
  next
    case (DialFailed stop)
    obtain w g1 where w: "retry_wait intn (cf_onMin fl) g = Inr (w, g1)"
      by (cases "0 < sint (cf_onMin fl)"; cases "intn (sint (cf_onMin fl)) g") (simp_all add: retry_wait_def rand_Intn_def)
    obtain frames r e where IH: "list_all (generated n 512 2048 idx) frames"
      "\<forall>out t. churn_rounds intn (load_pubs n) (int idx) fl rounds g1 out t =
        Inr (out @ frames, bump (of_nat (length frames)) r e t)"
      using Cons.IH by blast
    show ?thesis
    proof (cases stop)
      case True
      with DialFailed w show ?thesis by (intro exI [of _ "[]"] exI [of _ 0] exI [of _ 1]) simp
    next
      case False
      with DialFailed w IH show ?thesis by (intro exI [of _ frames] exI [of _ r] exI [of _ "1 + e"]) simp
    qed
  next
    case (Cycle evs ins stop)
    obtain frames r e on1 off g3 where cycle: "list_all (generated n 512 2048 idx) frames"
      "\<forall>t. churn_cycle intn (load_pubs n) (int idx) (cf_m fl) (cf_onMin fl) (cf_onMax fl) (cf_offMin fl) (cf_offMax fl)
        evs ins g t = Inr (frames, bump (of_nat (length frames)) r e t, on1, off, g3)"
      using churn_cycle_adds [OF assms] by blast
    obtain frames' r' e' where IH: "list_all (generated n 512 2048 idx) frames'"
      "\<forall>out t. churn_rounds intn (load_pubs n) (int idx) fl rounds g3 out t =
        Inr (out @ frames', bump (of_nat (length frames')) r' e' t)"
      using Cons.IH by blast
    show ?thesis
    proof (cases stop)
      case True
      with Cycle cycle show ?thesis by (intro exI [of _ frames] exI [of _ r] exI [of _ e]) simp
    next
      case False
      with Cycle cycle IH show ?thesis
        by (intro exI [of _ "frames @ frames'"] exI [of _ "r + r'"] exI [of _ "e + e'"]) simp
    qed
  qed
qed

lemma runChurnClient_adds:
  assumes "random_ok intn" and "n < 10 ^ 19" and "idx < n" and "churn_flags_ok fl"
  shows "adds (generated n 512 2048 idx)
    (runChurnClient intn newSource (load_pubs n) (map hex_EncodeToString (load_pubs n)) (int idx) fl rounds)"
proof -
  obtain frames r e where "list_all (generated n 512 2048 idx) frames"
    "\<forall>out t. churn_rounds intn (load_pubs n) (int idx) fl rounds (newSource (cf_seed fl + of_int (int idx))) out t =
        Inr (out @ frames, bump (of_nat (length frames)) r e t)"
    using churn_rounds_adds [OF assms] by blast
  then show ?thesis
    using assms(3) by (intro addsI [of _ frames _ r e]) (simp_all add: runChurnClient_def load_pubs_def)
qed

text \<open>All of them.\<close>

lemma run_connectors_adds:
  assumes "\<And>i. i \<in> set is \<Longrightarrow> adds (P i) (run i)"
  shows "\<exists>outs r e. list_all2 (\<lambda>i. list_all (P i)) is outs \<and>
    (\<forall>t. run_connectors run is t = Inr (outs, bump (of_nat (length (concat outs))) r e t))"
  using assms
proof (induction "is")
  case Nil
  show ?case by (intro exI [of _ "[]"] exI [of _ 0]) simp
next
  case (Cons i "is")
  obtain frames r e where i: "list_all (P i) frames" "\<forall>t. run i t = Inr (frames, bump (of_nat (length frames)) r e t)"
    using Cons.prems [of i] by (auto simp: adds_def)
  obtain outs r' e' where "list_all2 (\<lambda>i. list_all (P i)) is outs"
    "\<forall>t. run_connectors run is t = Inr (outs, bump (of_nat (length (concat outs))) r' e' t)"
    using Cons.IH Cons.prems by auto
  with i show ?case by (intro exI [of _ "frames # outs"] exI [of _ "r + r'"] exI [of _ "e + e'"]) simp
qed

subsection \<open>Properties\<close>

lemma makes_few: "makes 32 (int n) 0 \<Longrightarrow> n < 10 ^ 19"
  by (simp add: makes_def max_alloc_def)

text \<open>
  C26 (functional): a load test with at least two connectors and at most a thousand million messages per
  second never panics, unless there are more connectors than the run time can allocate keys for, whatever
  happens to its connectors and on its network; every frame connector \<open>i\<close> sends is one the server
  accepts, with sixteen bytes for another connector of the population and never for itself, and
  the number of messages reported as sent is the number of frames written.
\<close>

theorem load_run_accepted:
  assumes "random_ok intn" and "lf_n flags = int n" and "2 \<le> n" and "lf_m flags \<le> 1000000000"
  shows "if makes 32 (int n) 0
    then \<exists>outs lines t rates. load_main F as_uint decode intn newSource flags envs stats elapsed = Inr (outs, lines, t, rates) \<and>
      list_all2 (\<lambda>i. list_all (generated n 16 16 i)) [0..<n] outs \<and> totalSent t = of_nat (length (concat outs))
    else load_main F as_uint decode intn newSource flags envs stats elapsed = Inl InvalidArgument"
proof (cases "makes 32 (int n) 0")
  case True
  let ?run = "\<lambda>i. runConnector intn newSource (load_pubs n) (map hex_EncodeToString (load_pubs n)) i
    (lf_m flags) (lf_seed flags) (envs i)"
  have "adds (generated n 16 16 i) (?run i)" if "i \<in> set [0..<n]" for i
    by (rule runConnector_adds) (use assms makes_few [OF True] that in simp_all)
  then obtain outs r e where "list_all2 (\<lambda>i. list_all (generated n 16 16 i)) [0..<n] outs"
    "\<forall>t. run_connectors ?run [0..<n] t = Inr (outs, bump (of_nat (length (concat outs))) r e t)"
    using run_connectors_adds [of "[0..<n]" "generated n 16 16" ?run] by blast
  then show ?thesis
    using assms(2) True by (simp add: load_main_def identities_def Let_def load_summary_def no_totals_def)
qed (simp add: load_main_def identities_def assms(2))

text \<open>
  C27 (functional): the same for a churn test whose flags are in range, with payloads of 512 to 2048 bytes,
  through any sequence of dial failures, online periods and reconnects.
\<close>

theorem churn_run_accepted:
  assumes "random_ok intn" and "cf_n flags = int n" and "churn_flags_ok flags"
  shows "if makes 32 (int n) 0
    then \<exists>outs lines t rates. churn_main F as_uint decode intn newSource flags rounds stats elapsed = Inr (outs, lines, t, rates) \<and>
      list_all2 (\<lambda>i. list_all (generated n 512 2048 i)) [0..<n] outs \<and> totalSent t = of_nat (length (concat outs))
    else churn_main F as_uint decode intn newSource flags rounds stats elapsed = Inl InvalidArgument"
proof (cases "makes 32 (int n) 0")
  case True
  let ?run = "\<lambda>i. runChurnClient intn newSource (load_pubs n) (map hex_EncodeToString (load_pubs n)) (int i) flags (rounds i)"
  have "adds (generated n 512 2048 i) (?run i)" if "i \<in> set [0..<n]" for i
    by (rule runChurnClient_adds) (use assms makes_few [OF True] that in simp_all)
  then obtain outs r e where "list_all2 (\<lambda>i. list_all (generated n 512 2048 i)) [0..<n] outs"
    "\<forall>t. run_connectors ?run [0..<n] t = Inr (outs, bump (of_nat (length (concat outs))) r e t)"
    using run_connectors_adds [of "[0..<n]" "generated n 512 2048" ?run] by blast
  then show ?thesis
    using assms(2) True by (simp add: churn_main_def identities_def Let_def churn_summary_def no_totals_def)
qed (simp add: churn_main_def identities_def assms(2))

definition quiet_env :: connector_env where
  "quiet_env = \<lparr>cancelled_early = False, dials = (\<lambda>r. True), ticks = [Some True, Some True, None], inbounds = [],
     read_stopped = False\<rparr>"

theorem load_run_accepted_witness:
  "\<exists>outs lines t rates. load_main exact (\<lambda>x. 0) (\<lambda>b :: unit. Inl ''no metrics'') always_zero (\<lambda>w. ())
      ((load_defaults 1)\<lparr>lf_n := int 3\<rparr>) (\<lambda>i. quiet_env) [] 10 = Inr (outs, lines, t, rates) \<and>
    list_all2 (\<lambda>i. list_all (generated 3 16 16 i)) [0..<3] outs \<and> totalSent t = of_nat (length (concat outs))"
proof -
  have "makes 32 (int 3) 0" by (simp add: makes_def max_alloc_def)
  with load_run_accepted [OF always_zero_ok, of "(load_defaults 1)\<lparr>lf_n := int 3\<rparr>" 3] show ?thesis
    by (simp only: if_True load_flags.simps) (simp add: load_defaults_def)
qed

theorem churn_run_accepted_witness:
  "\<exists>outs lines t rates. churn_main exact (\<lambda>x. 0) (\<lambda>b :: unit. Inl ''no metrics'') always_zero (\<lambda>w. ())
      ((churn_defaults 1)\<lparr>cf_n := int 2\<rparr>) (\<lambda>i. [DialFailed False, Cycle [OnlineTick True, OnlineEnd] [] True]) [] 10 =
      Inr (outs, lines, t, rates) \<and>
    list_all2 (\<lambda>i. list_all (generated 2 512 2048 i)) [0..<2] outs \<and> totalSent t = of_nat (length (concat outs))"
proof -
  have "makes 32 (int 2) 0" by (simp add: makes_def max_alloc_def)
  moreover have "churn_flags_ok ((churn_defaults 1)\<lparr>cf_n := int 2\<rparr>)" by (simp add: churn_defaults_def churn_flags_ok_def)
  ultimately show ?thesis
    using churn_run_accepted [OF always_zero_ok, of "(churn_defaults 1)\<lparr>cf_n := int 2\<rparr>" 2] by (simp only: if_True) simp
qed

text \<open>A request the server routes to its WebSocket endpoint and authenticates there as \<open>k\<close>.\<close>

definition served_as :: "pubkey \<Rightarrow> string \<Rightarrow> request \<Rightarrow> bool" where
  "served_as k u r \<longleftrightarrow>
     mux_handler routes (Path r) = Some WsRoute \<and> DefaultAuthenticator_Authenticate r = Inr \<lparr>PubKey = k, UserID = u\<rparr>"

lemma served_as_generator:
  assumes "i < n"
  shows "served_as (load_pubs n ! i) (map hex_EncodeToString (load_pubs n) ! i) (load_request (map hex_EncodeToString (load_pubs n) ! i))"
    and "served_as (load_pubs n ! i) (map hex_EncodeToString (load_pubs n) ! i) (churn_request (map hex_EncodeToString (load_pubs n) ! i))"
proof -
  have len: "length (load_pub i) = 32" using load_pub_key [of i] by (simp only: is_key_def)
  then have "load_pub i \<noteq> []" by force
  moreover have "mux_handler routes ''/ws'' = Some WsRoute" "mux_handler routes ''/'' = Some WsRoute"
    using mux_routes [of "''ws''"] mux_routes [of "[]"] by simp_all
  ultimately show "served_as (load_pubs n ! i) (map hex_EncodeToString (load_pubs n) ! i)
      (load_request (map hex_EncodeToString (load_pubs n) ! i))"
    and "served_as (load_pubs n ! i) (map hex_EncodeToString (load_pubs n) ! i)
      (churn_request (map hex_EncodeToString (load_pubs n) ! i))"
    using assms len
    by (auto simp: served_as_def load_pubs_def load_request_def churn_request_def DefaultAuthenticator_Authenticate_def
        query_Get_def Let_def zero_key_def)
qed

text \<open>
  C31 (equivalence): every client program is who it says it is: the path of the request it dials is
  routed to the WebSocket endpoint, and the request authenticates there as the key the program goes by,
  which for the generators is the one the other connectors address, a different one for each.
\<close>

theorem programs_authenticate:
  assumes "client_key pub = Some k"
  shows "(if makes 32 (int n) 0
     then \<exists>pubs strs. identities (int n) = Inr (pubs, strs) \<and> pubs = load_pubs n \<and> length strs = n \<and> distinct pubs \<and>
       list_all (\<lambda>i. served_as (pubs ! i) (strs ! i) (load_request (strs ! i)) \<and>
         served_as (pubs ! i) (strs ! i) (churn_request (strs ! i))) [0..<n]
     else identities (int n) = Inl InvalidArgument) \<and>
    served_as k pub (client_request pub)"
proof (intro conjI)
  let ?pubs = "load_pubs n" and ?strs = "map hex_EncodeToString (load_pubs n)"
  have "distinct ?pubs" if "makes 32 (int n) 0"
    using makes_few [OF that] load_pub_inj by (fastforce simp: load_pubs_def distinct_map inj_on_def)
  moreover have "length ?strs = n" by (simp add: load_pubs_def)
  moreover have "list_all (\<lambda>i. served_as (?pubs ! i) (?strs ! i) (load_request (?strs ! i)) \<and>
      served_as (?pubs ! i) (?strs ! i) (churn_request (?strs ! i))) [0..<n]"
    using served_as_generator by (simp add: list_all_iff)
  ultimately show "if makes 32 (int n) 0
     then \<exists>pubs strs. identities (int n) = Inr (pubs, strs) \<and> pubs = load_pubs n \<and> length strs = n \<and> distinct pubs \<and>
       list_all (\<lambda>i. served_as (pubs ! i) (strs ! i) (load_request (strs ! i)) \<and>
         served_as (pubs ! i) (strs ! i) (churn_request (strs ! i))) [0..<n]
     else identities (int n) = Inl InvalidArgument"
    by (auto simp: identities_def Let_def intro!: exI [of _ ?pubs] exI [of _ ?strs])
  show "served_as k pub (client_request pub)"
    using assms mux_routes [of "[]"]
    by (auto simp: served_as_def client_key_def client_request_def DefaultAuthenticator_Authenticate_def query_Get_def
        split: if_splits option.splits)
qed

theorem programs_authenticate_witness:
  "\<exists>pubs strs. identities (int 2) = Inr (pubs, strs) \<and> pubs = load_pubs 2 \<and> length strs = 2 \<and> distinct pubs \<and>
    served_as (pubs ! 1) (strs ! 1) (load_request (strs ! 1)) \<and>
    served_as zero_key (hex_EncodeToString zero_key) (client_request (hex_EncodeToString zero_key))"
proof -
  have "length zero_key = 32" by (simp add: zero_key_def)
  then have "client_key (hex_EncodeToString zero_key) = Some zero_key" by (simp add: client_key_def) force
  moreover have "makes 32 (int 2) 0" by (simp add: makes_def max_alloc_def)
  ultimately show ?thesis using programs_authenticate [of "hex_EncodeToString zero_key" zero_key 2]
    by (simp only: if_True list_all_iff) force
qed

text \<open>
  C32 (roundtrip): what a load test reports as the server's counters are the server's counters: a \<open>/metrics\<close>
  response read by either program yields the relayer's processed, delivered and undelivered counts, as
  long as they are below \<open>2 ^ 53\<close>, where \<open>float64\<close> is exact.
\<close>

theorem polled_metrics:
  assumes "metricsHandler json_Marshal F rt srv = Inr (TextResponse 200 body)"
    and "\<And>m b. json_Marshal m = Some b \<Longrightarrow>
      decode b = Inr (map_option (json_float F) \<circ> map_of (relayer_metrics_fields (app_metrics m)))"
    and "\<And>w :: u64. unat w < 2 ^ 53 \<Longrightarrow> as_uint (f_of_int F (uint w)) = w"
    and "unat (processed (srv_app srv)) < 2 ^ 53" and "unat (delivered (srv_app srv)) < 2 ^ 53"
    and "unat (noRecip (srv_app srv)) < 2 ^ 53"
    and "http_Get (''http://'' @ addr @ ''/metrics'') = Inr (200, body)"
  shows "let p = processed (srv_app srv); d = delivered (srv_app srv); nr = noRecip (srv_app srv) in
    mux_handler routes ''/metrics'' = Some MetricsRoute \<and>
    load_stats as_uint decode addr [MetricsTick http_Get t] prev =
      [MetricsDeltas p d nr t (if p \<ge> nr then p - nr else 0) (metric_deltas p d nr t)] \<and>
    churn_stats as_uint decode addr [MetricsTick http_Get t] prev = [MetricsLine p d nr t]"
proof -
  obtain m where m: "metrics_of F rt srv = Inr m" "json_Marshal m = Some body"
    using assms(1) by (auto simp: metricsHandler_def bind_res_eq_Inr split: option.splits)
  obtain snap where "app_metrics m = (processed (srv_app srv), delivered (srv_app srv), noRecip (srv_app srv), snap)"
    using m(1) by (auto simp: metrics_of_def FetchMetrics_def bind_res_eq_Inr Let_def)
  then have "decode body = Inr (map_option (json_float F) \<circ> map_of (relayer_metrics_fields
      (processed (srv_app srv), delivered (srv_app srv), noRecip (srv_app srv), snap)))"
    using assms(2) [OF m(2)] by simp
  then show ?thesis
    using assms(3-7) mux_routes [of "''metrics''"]
    by (simp add: Let_def load_fetchMetrics_def churn_fetchMetrics_def metric_def relayer_metrics_fields_def json_float_def
        expectedDelivered_def)
qed

text \<open>A server, and a response of its metrics endpoint.\<close>

definition idle_server :: "(nat, real) server" where
  "idle_server = plain_server ((NewRelayer exact)\<lparr>processed := 7, delivered := 5, noRecip := 1\<rparr>)\<lparr>cpuRecent := 0\<rparr>"

definition idle_snapshot :: "real latency_snapshot" where
  "idle_snapshot = \<lparr>snapCount = 0, snapMeanMs = 0, snapStdMs = 0, snapP50Ms = 0, snapP95Ms = 0, snapP99Ms = 0\<rparr>"

theorem polled_metrics_witness:
  "let am = (7, 5, 1, idle_snapshot);
       decode = (\<lambda>b. Inr (map_option (json_float exact) \<circ> map_of (relayer_metrics_fields am)));
       get = (\<lambda>url. Inr (200, ''{}'')) in
    load_stats (\<lambda>x. word_of_int \<lfloor>x\<rfloor>) decode ''localhost:8080'' [MetricsTick get no_totals] no_totals =
      [MetricsDeltas 7 5 1 no_totals (if (7 :: u64) \<ge> 1 then 7 - 1 else 0) (metric_deltas 7 5 1 no_totals)]"
proof -
  let ?am = "(7 :: u64, 5 :: u64, 1 :: u64, idle_snapshot)"
  let ?marshal = "\<lambda>m :: (real, u64 \<times> u64 \<times> u64 \<times> real latency_snapshot) metrics.
    if app_metrics m = ?am then Some ''{}'' else None"
  let ?rt = "\<lparr>NumGoroutine = 4, AllocBytes = 0, TotalAllocBytes = 0, SysBytes = 0, HeapObjects = 0, NumCPU = 1,
    Usage = \<lparr>UtimeSec = 0, UtimeUsec = 0, StimeSec = 0, StimeUsec = 0\<rparr>, Now = 0\<rparr>"
  have resp: "metricsHandler ?marshal exact ?rt idle_server = Inr (TextResponse 200 ''{}'')"
    by (simp add: metricsHandler_def metrics_of_def FetchMetrics_def LatencySnapshot_def idle_server_def plain_server_def
        NewRelayer_def idle_snapshot_def duration_Seconds_def)
  have srv: "processed (srv_app idle_server) = 7" "delivered (srv_app idle_server) = 5" "noRecip (srv_app idle_server) = 1"
    by (simp_all add: idle_server_def plain_server_def)
  have conv: "word_of_int \<lfloor>real_of_int (uint w)\<rfloor> = w" for w :: u64
    by (simp only: floor_of_int word_of_int_uint)
  note * = polled_metrics [where decode = "\<lambda>b. Inr (map_option (json_float exact) \<circ> map_of (relayer_metrics_fields ?am))"
      and as_uint = "\<lambda>x. word_of_int \<lfloor>x\<rfloor>" and http_Get = "\<lambda>url. Inr (200, ''{}'')" and addr = "''localhost:8080''"
      and t = no_totals and prev = no_totals, OF resp, unfolded srv]
  show ?thesis unfolding Let_def
    by (rule * [unfolded Let_def, THEN conjunct2, THEN conjunct1]) (use conv in \<open>simp_all split: if_splits\<close>)
qed

end
