(* ===== verification/Spec2Isabelle.thy ===== *)
theory Spec2Isabelle
  imports Relay_Theorems App_Interface Load_Runs
begin

text \<open>
  A verification library for fast-relay, a WebSocket relay server in Go, and the command-line programs
  that talk to it.

  The program. A client opens a WebSocket connection and is identified by a 32-byte public key. It
  sends binary frames with one to ten recipient keys and a payload; the server reads a frame into a
  reference-counted buffer laid out as an in-memory message with the sender's key in front, clears the
  recipient keys, and pushes the buffer to the bounded queue of every recipient that is connected. One
  goroutine per connection reads and routes, another writes its queue out.

  Theories and code.
  \<^item> \<open>Prelude\<close>: bytes, the faults a Go operation can end in (\<open>'a res\<close> is a fault or a value), which sizes
    \<open>make\<close> accepts, slices, \<open>copy\<close>, big-endian words, and list and word lemmas. \<open>Go_Text\<close>: \<open>encoding/hex\<close>, white space, splitting, decimals.
  \<^item> \<open>Mem_Buffer\<close> (internal/mem): buffers, their 32-bit counts and the C heap, for both build targets.
  \<^item> \<open>Core_Message\<close> and \<open>Core_Protocol\<close> (internal/core/message.go, protocol.go, connector.go): the message view,
    \<open>ExtractTargets\<close>, \<open>DeliverTo\<close>; the \<open>Connector\<close> interface is the locale \<open>connector\<close>.
  \<^item> \<open>Io_Reader\<close> and \<open>Wire_Reader\<close> (internal/network/ws_connector.go, \<open>readMessageWithFixedFromID\<close>): \<open>io.Reader\<close>
    is the locale \<open>io_reader\<close>; \<open>decode_frame\<close> is the wire format as a pure function.
  \<^item> \<open>WS_Connector\<close> (the type \<open>WSConnector\<close>): the queue, \<open>SafePush\<close> and \<open>Close\<close>; the interpretation \<open>ws\<close> makes a
    store of them a \<open>connector\<close>.
  \<^item> \<open>Latency_Stats\<close> and \<open>Relayer\<close> (internal/domains/relayer/relayer.go): the statistics worker and its
    snapshot, the registry (locale \<open>registry\<close>, interpreted on the \<open>sync.Map\<close> operations), the counters,
    \<open>HandleMessage\<close>.
  \<^item> \<open>App_Interface\<close> (internal/core/app.go, connector.go; \<open>ReadWriteLoop\<close> and the end of \<open>wsHandler\<close> as callers):
    the interfaces as records of operations, and one connection, its read loop and its write pump, written
    against \<open>App\<close> as a sequence of events; the locale \<open>app_contract\<close> is what app.go promises, interpreted on the
    relayer with its connectors. An event here is what one goroutine does for one message;
    \<open>Relay_Steps\<close> has the atomic steps and all connections.
  \<^item> \<open>Relay_Steps\<close> (\<open>ReadWriteLoop\<close>, with \<open>HandleMessage\<close> inlined): the running server as atomic steps of
    handlers, write pumps and environment. A program counter per goroutine names the next shared
    access; \<open>exec\<close> performs one step, \<open>reachable\<close> closes under all of them in any order. Histories no step
    reads record the frames accepted, what was handed to \<open>conn.Write\<close> (\<open>written\<close>, whether or not the write
    then succeeds) and what was written with success (\<open>completed\<close>, a subsequence of it).
  \<^item> \<open>Http_Server\<close> (internal/server/server.go, cmd/relayer): identities (locale \<open>identity_source\<close>), routes,
    \<open>wsHandler\<close>, registration, CPU sampling, metrics, shutdown, the process from its flags to its exit.
  \<^item> \<open>Client\<close> (cmd/client): start-up, the command loop, the frames it sends and checks.
  \<^item> \<open>Load_Generators\<close> and \<open>Load_Runs\<close> (cmd/loadtest, cmd/churntest): the traffic of one connector, and whole
    runs from the flags to the summary: identities, dialling, rounds, polling of \<open>/metrics\<close>, reports.

  What the lemmas show.
  \<^item> Component by component: what each operation computes on every branch, and the bounds and
    round trips of the layouts.
  \<^item> \<open>Relay_Memory\<close>: the invariant \<open>sys_inv\<close> of the interleaved server. The count of a buffer is the number of
    references the goroutines and queues hold, so no step faults and nothing leaks.
  \<^item> \<open>Relay_Safety\<close>: the buffers each step uses. Reading or retaining a freed buffer is no panic in Go, so the
    theorem about panics also says that all of these are in use and no other buffer changes.
  \<^item> \<open>Relay_Security\<close>: the invariant \<open>sec_inv\<close>. What is queued or written is a message some connection sent to that
    key, under its own key, with the recipients cleared. Its two ghosts number the frames: \<open>T\<close> gives the frame
    each buffer holds, \<open>X\<close> the frame behind each message written.
  \<^item> \<open>Relay_Order\<close>: the invariant \<open>order_inv\<close> over the same ghosts: what a connection has written, is about to
    write and has queued carries the frames of any one sender in increasing order.
  \<^item> \<open>Relay_Runs\<close>: a handler's steps without interruption are \<open>HandleMessage\<close>; where a frame ends up.
  \<^item> \<open>Relay_Progress\<close>: pumps write their queues out and end; what the connection counter counts. A message is
    sure to be written by a pump that runs (\<open>pump_running\<close>: started, not stopped by a failed write), as long as
    its writes succeed (\<open>pump_works\<close>) and the application is open; delivery is stated under these conditions.
  \<^item> \<open>Relay_Counters\<close>: what the three message counters count, event by event, with what is still owed.
  \<^item> \<open>Relay_Theorems\<close>: the properties of whole runs.
  \<^item> \<open>Load_Runs\<close>: each goroutine adds amounts to the shared counters that do not depend on them, so totals are
    those of any interleaving; every frame sent is one the server accepts.
  \<^item> This theory: server and load tests agree on the layout, and a generated message arrives.

  Bounds. Nothing runs on fuel: \<open>io.ReadFull\<close> and \<open>io.Copy\<close> are partial functions, proved to return on every
  reader that does not idle for ever. Reference counts stay at eleven or below (ten recipients and the
  reader), so their 32 bits do not overflow. Counters are 64-bit words and wrap. \<open>make\<close> panics beyond
  \<open>max_alloc\<close>, the \<open>2 ^ 48\<close> bytes of a 64-bit run time: the connectors' queues, the load tests' identities and
  the buffers of the target without jemalloc are modelled with it. A pump takes at most
  five steps for a queued message and five more.

  Assumptions. Arguments stand for code outside the repository: the allocator (it returns fresh
  blocks or none), the WebSocket library's reader, write outcomes and upgrade, \<open>math/rand\<close>,
  \<open>encoding/json\<close>, floating point. \<open>exact\<close> is arithmetic without rounding, used where a statistic's meaning is
  stated; everything else holds for any choice. Atomic steps are the accesses Go synchronises: atomic
  operations, map operations, channel operations, the connector's critical sections.

  Not modelled. Goroutine scheduling beyond interleaving. Contexts, timers, signals, dialled connections
  and HTTP responses are events or arguments, not code of their own. The text of log lines and console
  output is left out; what is reported is a value. The HTTP and WebSocket protocols, flag parsing and the
  JSON encoding are library code. Test code is not modelled.
\<close>

section \<open>Server and clients together\<close>

lemma written_readable:
  assumes "reachable read malloc (init_sys g F) s" and "calm_reader read stream ending" and "malloc_ok malloc"
    and "(d, bs) \<in> set (written s)"
  shows "client_inbound bs = Inr True"
proof -
  have inv: "sys_inv s" by (rule reachable_inv [OF assms(1-3)])
  obtain T X where sec: "sec_inv T X s" by (rule reachable_sec [OF assms(1-3)])
  obtain c tos payload where acc: "(c, tos, payload) \<in> set (accepted s)"
    and bs: "bs = build_message (key_of s c) (replicate (length tos) zero_key) payload"
    by (rule sec_inv_written [OF sec assms(4)]) (auto simp: sealed_def dest: sentD)
  have c: "c < length (procs s)" and fo: "frame_ok (int MaxMessageSize) tos payload"
    using sec_invD(1) [OF sec] acc by (auto simp: frames_valid_def)
  have "message_parts_ok (key_of s c) tos payload" by (rule frame_ok_parts [OF fo sys_invD(4) [OF inv c]])
  then have "message_parts_ok (key_of s c) (replicate (length tos) zero_key) payload"
    by (simp add: message_parts_ok_def list_all_iff)
  then show ?thesis unfolding bs by (rule client_inbound_message)
qed

text \<open>
  C28 (equivalence): whatever the server has written to a connection, in any interleaving, the load
  tests' readers on the other end count as received, message for message: server and generators agree
  on the layout.
\<close>

theorem load_tests_count_deliveries:
  assumes "reachable read malloc (init_sys g F) s" and "calm_reader read stream ending" and "malloc_ok malloc"
    and "chs = map snd (filter (\<lambda>(c, bs). c = d) (written s))"
  shows "load_reader stopping (map (Message True) chs) t = Inr (t\<lparr>totalRecv := totalRecv t + of_nat (length chs)\<rparr>) \<and>
    churn_reader (map (Message True) chs) t = Inr (t\<lparr>totalRecv := totalRecv t + of_nat (length chs)\<rparr>)"
proof -
  have "list_all (\<lambda>bs. client_inbound bs = Inr True) chs"
    using written_readable [OF assms(1-3)] by (auto simp: list_all_iff assms(4))
  then show ?thesis by (simp add: load_reader_counts churn_reader_counts)
qed

theorem load_tests_count_deliveries_witness:
  "let t = \<lparr>totalSent = 0, totalRecv = 0, totalErr = 0\<rparr> in
   \<exists>chs. chs \<noteq> [] \<and>
    load_reader False (map (Message True) chs) t = Inr (t\<lparr>totalRecv := totalRecv t + of_nat (length chs)\<rparr>) \<and>
    churn_reader (map (Message True) chs) t = Inr (t\<lparr>totalRecv := totalRecv t + of_nat (length chs)\<rparr>)"
proof -
  obtain s where s: "reachable busy_read bump_malloc (init_sys OtherTarget no_floats) s"
    "(1, build_message alice [zero_key] [104, 105]) \<in> set (written s)" by (rule hello_written)
  let ?chs = "map snd (filter (\<lambda>(c, bs). c = 1) (written s))"
  have "?chs \<noteq> []" using s(2) by (auto simp: filter_empty_conv)
  with load_tests_count_deliveries [OF s(1) busy_calm bump_malloc_ok refl] show ?thesis
    unfolding Let_def by blast
qed

text \<open>
  C17 (liveness): a message of the load test arrives. While the application is open and memory can be
  allocated: if the connector of identity \<open>idx\<close> is connected and reading, and every other identity of the
  population is connected, its queue with room and its write pump started and not failed, then the frame
  the next tick of \<open>idx\<close> builds reaches some other connector of the population, by steps of the sender's
  handler and that connector's pump alone with every write succeeding, and the reader on the other end
  counts it.
\<close>

theorem load_message_delivered:
  assumes "reachable read malloc (init_sys F0 F) s" and "c < length (procs s)" and "rpc (procs s ! c) = RReading"
    and "calm_reader read stream ending" and "malloc_ok malloc" and "\<forall>m n. malloc m n \<noteq> None"
    and "random_ok intn" and "2 \<le> n" and "n < 10 ^ 19" and "idx < n" and "key_of s c = load_pub idx"
    and "load_tick intn (load_pubs n) (int idx) rng = Inr (buf, rng')" and "stream r = buf" and "ending r = EOF"
    and "\<forall>j < n. load_pub j \<noteq> load_pub idx \<longrightarrow> (\<exists>d. connectors (app s) (load_pub j) = Some d \<and>
      \<not> isClosed (ws (procs s ! d)) \<and> length (outChan (ws (procs s ! d))) < outCap (ws (procs s ! d)) \<and>
      pump_running (wpc (procs s ! d)))"
    and "\<not> latencyChClosed (app s)"
  shows "\<exists>j d as s' before m. j < n \<and> load_pub j \<noteq> load_pub idx \<and> connectors (app s) (load_pub j) = Some d \<and>
    exec_all read malloc (ReadFrame c r t # as) s = Some (Inr s') \<and>
    list_all (\<lambda>a. a = Reader c \<or> pump_works d a) as \<and>
    written s' = written s @ before @ [(d, m)] \<and> completed s' = completed s @ before @ [(d, m)] \<and> load_inbound m = Inr True"
proof -
  obtain j payload where j: "j < n" "load_pub j \<noteq> load_pub idx" "length payload \<le> 16"
    and v: "decode_frame (int MaxMessageSize) (stream r) (ending r) = Inr ([load_pub j], payload)"
    using load_tick_ok [OF assms(7-10), of rng] assms(12-14) by (auto simp: generated_def)
  obtain d where d: "connectors (app s) (load_pub j) = Some d" "\<not> isClosed (ws (procs s ! d))"
    "length (outChan (ws (procs s ! d))) < outCap (ws (procs s ! d))" "pump_running (wpc (procs s ! d))"
    using assms(15) j by blast
  have "receives s c [load_pub j] d" using d j(2) assms(11) by (simp add: receives_def)
  from end_to_end [OF assms(1-6) v this d(4) assms(16), of t] obtain as s' before where
    run: "exec_all read malloc (ReadFrame c r t # as) s = Some (Inr s')" "list_all (\<lambda>a. a = Reader c \<or> pump_works d a) as"
    "written s' = written s @ before @ [(d, build_message (key_of s c) (replicate (length [load_pub j]) zero_key) payload)]"
    "completed s' = completed s @ before @ [(d, build_message (key_of s c) (replicate (length [load_pub j]) zero_key) payload)]"
    by blast
  have "message_parts_ok (load_pub idx) [zero_key] payload"
    using j(3) by (simp add: message_parts_ok_def)
  then have "load_inbound (build_message (key_of s c) (replicate (length [load_pub j]) zero_key) payload) = Inr True"
    by (simp add: load_inbound_eq client_inbound_message assms(11))
  with run j(1,2) d(1) show ?thesis by blast
qed

text \<open>The first two connectors of a load test have connected and read.\<close>

definition load_pair_run :: "fragments action list" where
  "load_pair_run = [Accept (load_pub 0) 4, Accept (load_pub 1) 4, Reader 0, Reader 0, Reader 0, Reader 1, Reader 1, Reader 1]"

definition load_pair :: "unit sys" where
  "load_pair = projr (the (exec_all frag_read bump_malloc load_pair_run (init_sys OtherTarget no_floats)))"

lemma load_pubs_differ [simp]: "load_pub 0 \<noteq> load_pub (Suc 0)" "load_pub (Suc 0) \<noteq> load_pub 0"
  using load_pub_inj [of 0 "Suc 0"] by auto

lemma load_pair_facts [simp]:
  "exec_all busy_read bump_malloc load_pair_run (init_sys OtherTarget no_floats) = Some (Inr load_pair)"
  "procs load_pair = [\<lparr>ws = new_wsconn (load_pub 0) 4, rpc = RReading, wpc = WRecv\<rparr>,
     \<lparr>ws = new_wsconn (load_pub 1) 4, rpc = RReading, wpc = WRecv\<rparr>]"
  "connectors (app load_pair) = [load_pub 0 \<mapsto> 0, load_pub 1 \<mapsto> 1]" "latencyChClosed (app load_pair) = False"
  "key_of load_pair 0 = load_pub 0"
  by (simp_all add: load_pair_def load_pair_run_def init_sys_def reader_step_def set_rpc_def set_wpc_def
      set_proc_def key_of_def ID_def new_wsconn_def map_Swap_def NewRelayer_def)

theorem load_message_delivered_witness:
  "\<exists>buf rng' j d as s' before m. load_tick always_zero (load_pubs 2) (int 0) () = Inr (buf, rng') \<and>
    j < 2 \<and> load_pub j \<noteq> load_pub 0 \<and> connectors (app load_pair) (load_pub j) = Some d \<and>
    exec_all busy_read bump_malloc (ReadFrame 0 \<lparr>frags = [buf], final = EOF, eager = False\<rparr> 7 # as) load_pair = Some (Inr s') \<and>
    list_all (\<lambda>a. a = Reader 0 \<or> pump_works d a) as \<and>
    written s' = written load_pair @ before @ [(d, m)] \<and> completed s' = completed load_pair @ before @ [(d, m)] \<and> load_inbound m = Inr True"
proof -
  obtain buf rng' where tick: "load_tick always_zero (load_pubs 2) (int 0) () = Inr (buf, rng')"
    using load_tick_ok [OF always_zero_ok, of 2 0 "()"] by auto
  have "\<exists>j d as s' before m. j < 2 \<and> load_pub j \<noteq> load_pub 0 \<and> connectors (app load_pair) (load_pub j) = Some d \<and>
    exec_all busy_read bump_malloc (ReadFrame 0 \<lparr>frags = [buf], final = EOF, eager = False\<rparr> 7 # as) load_pair = Some (Inr s') \<and>
    list_all (\<lambda>a. a = Reader 0 \<or> pump_works d a) as \<and>
    written s' = written load_pair @ before @ [(d, m)] \<and> completed s' = completed load_pair @ before @ [(d, m)] \<and> load_inbound m = Inr True"
  proof (rule load_message_delivered [OF exec_all_reachable [OF load_pair_facts(1) reachable.start] _ _ busy_calm bump_malloc_ok _
        always_zero_ok _ _ _ _ tick])
    show "\<forall>j < 2. load_pub j \<noteq> load_pub 0 \<longrightarrow> (\<exists>d. connectors (app load_pair) (load_pub j) = Some d \<and>
      \<not> isClosed (ws (procs load_pair ! d)) \<and>
      length (outChan (ws (procs load_pair ! d))) < outCap (ws (procs load_pair ! d)) \<and> pump_running (wpc (procs load_pair ! d)))"
      by (auto simp: less_2_cases_iff)
  qed (simp_all add: bump_total)
  with tick show ?thesis by blast
qed

end
